(* ===== verification/Prelude.thy ===== *)
theory Prelude
  imports Main
begin

text \<open>
  Shared material of the development: the failures of the C++ code as values, the composition of
  fallible steps, and the list operations that stand for \<open>memmove\<close>, \<open>memcpy\<close> and
  \<open>std::vector::insert\<close>, with the lemmas the components use.
\<close>

section \<open>Failures as values\<close>

text \<open>
  \<open>AssertFailed\<close> is a failed \<open>assert\<close>; \<open>RuntimeError\<close> and \<open>LogicError\<close> are the two exception
  classes the code throws, with their message; \<open>OutOfRange\<close> is \<open>std::out_of_range\<close> thrown by
  \<open>unordered_map::at\<close> and also stands for an out-of-bounds \<open>vector\<close> index (undefined behaviour);
  \<open>NullDeref\<close> is a call through a null pointer; \<open>BadPage\<close> is the use of a page that holds no
  node; \<open>OutOfFuel\<close> is the bound of the model on a loop.
\<close>

datatype error =
    AssertFailed
  | RuntimeError string
  | LogicError string
  | OutOfRange
  | NullDeref
  | BadPage
  | OutOfFuel

type_synonym 'a res = "error + 'a"

definition res_bind :: "'a res \<Rightarrow> ('a \<Rightarrow> 'b res) \<Rightarrow> 'b res" where
  "res_bind m f = (case m of Inl e \<Rightarrow> Inl e | Inr x \<Rightarrow> f x)"

lemma res_bind_simps [simp]:
  "res_bind (Inl e) f = Inl e"
  "res_bind (Inr x) f = f x"
  by (simp_all add: res_bind_def)

lemma res_bind_Inr_conv: "res_bind m f = Inr y \<longleftrightarrow> (\<exists>x. m = Inr x \<and> f x = Inr y)"
  by (cases m) auto

lemma res_bind_InrE:
  assumes "res_bind m f = Inr y"
  obtains x where "m = Inr x" and "f x = Inr y"
  using assms by (auto simp: res_bind_Inr_conv)

lemma res_bind_cong: "m = m' \<Longrightarrow> (\<And>x. m' = Inr x \<Longrightarrow> f x = f' x) \<Longrightarrow> res_bind m f = res_bind m' f'"
  by (cases m') auto

lemma res_bind_assoc: "res_bind (res_bind m f) g = res_bind m (\<lambda>x. res_bind (f x) g)"
  by (cases m) auto

definition check :: "bool \<Rightarrow> error \<Rightarrow> unit res" where
  "check b e = (if b then Inr () else Inl e)"

lemma check_simps [simp]:
  "b \<Longrightarrow> check b e = Inr ()"
  "\<not> b \<Longrightarrow> check b e = Inl e"
  by (simp_all add: check_def)

lemma check_Inr_conv [simp]: "check b e = Inr u \<longleftrightarrow> b"
  by (simp add: check_def)

section \<open>Insertion into a list by index\<close>

definition list_insert :: "nat \<Rightarrow> 'a \<Rightarrow> 'a list \<Rightarrow> 'a list" where
  "list_insert i x xs = take i xs @ x # drop i xs"

lemma length_list_insert [simp]: "i \<le> length xs \<Longrightarrow> length (list_insert i x xs) = Suc (length xs)"
  by (simp add: list_insert_def)

lemma map_list_insert: "map f (list_insert i x xs) = list_insert i (f x) (map f xs)"
  by (simp add: list_insert_def take_map drop_map)

lemma list_insert_append [simp]: "list_insert (length xs) x (xs @ ys) = xs @ x # ys"
  by (simp add: list_insert_def)

lemma list_insert_append_eq: "n = length xs \<Longrightarrow> list_insert n x (xs @ ys) = xs @ x # ys"
  by simp

lemma set_list_insert: "set (list_insert i x xs) = insert x (set xs)"
  by (metis append_take_drop_id list_insert_def set_append list.simps(15) Un_insert_right)

lemma nth_list_insert:
  assumes "i \<le> length xs" "j \<le> length xs"
  shows "list_insert i x xs ! j = (if j < i then xs ! j else if j = i then x else xs ! (j - 1))"
  using assms by (auto simp: list_insert_def nth_append min_def nth_Cons Suc_diff_Suc
    split: nat.split dest!: Suc_diff_eq_diff_pred intro!: arg_cong[where f = "nth xs"])

section \<open>Byte ranges of a buffer\<close>

text \<open>\<open>bslice off n buf\<close> reads \<open>n\<close> cells, \<open>blit off src buf\<close> overwrites cells from \<open>off\<close> on.\<close>

definition bslice :: "nat \<Rightarrow> nat \<Rightarrow> 'a list \<Rightarrow> 'a list" where
  "bslice off n buf = take n (drop off buf)"

definition blit :: "nat \<Rightarrow> 'a list \<Rightarrow> 'a list \<Rightarrow> 'a list" where
  "blit off src buf = take off buf @ src @ drop (off + length src) buf"

lemma length_bslice [simp]: "off + n \<le> length buf \<Longrightarrow> length (bslice off n buf) = n"
  by (simp add: bslice_def)

lemma nth_bslice [simp]: "i < n \<Longrightarrow> off + n \<le> length buf \<Longrightarrow> bslice off n buf ! i = buf ! (off + i)"
  by (simp add: bslice_def)

lemma length_blit [simp]: "off + length src \<le> length buf \<Longrightarrow> length (blit off src buf) = length buf"
  by (simp add: blit_def)

lemma nth_blit:
  assumes "off + length src \<le> length buf" "i < length buf"
  shows "blit off src buf ! i =
    (if off \<le> i \<and> i < off + length src then src ! (i - off) else buf ! i)"
  using assms by (auto simp: blit_def nth_append min_def)

lemma bslice_blit_same [simp]:
  "off + length src \<le> length buf \<Longrightarrow> n = length src \<Longrightarrow> bslice off n (blit off src buf) = src"
  by (simp add: bslice_def blit_def)

lemma bslice_blit_disjoint:
  assumes "off + length src \<le> length buf" "o' + n \<le> length buf"
    and "o' + n \<le> off \<or> off + length src \<le> o'"
  shows "bslice o' n (blit off src buf) = bslice o' n buf"
  using assms by (intro nth_equalityI) (auto simp: nth_blit)

lemma bslice_bslice:
  assumes "o' + m \<le> n"
  shows "bslice o' m (bslice off n buf) = bslice (off + o') m buf"
  using assms by (simp add: bslice_def drop_take min_def take_drop[symmetric] add.commute)

section \<open>Sorted lists and splitting points\<close>

lemma sorted_wrt_take: "sorted_wrt R xs \<Longrightarrow> sorted_wrt R (take n xs)"
  by (metis append_take_drop_id sorted_wrt_append)

lemma sorted_wrt_drop: "sorted_wrt R xs \<Longrightarrow> sorted_wrt R (drop n xs)"
  by (metis append_take_drop_id sorted_wrt_append)

lemma last_take_nth: "0 < n \<Longrightarrow> n \<le> length xs \<Longrightarrow> last (take n xs) = xs ! (n - 1)"
  by (cases n) (auto simp: take_Suc_conv_app_nth)

end
