(* ===== verification/Page_Store.thy ===== *)
theory Page_Store
  imports Prelude
begin

text \<open>
  What the clients of \<open>PageCache\<close> (\<open>shard/src/ll/page-cache.cpp\<close>) see of it: pages that are
  fetched by number, used in place while their use count is positive, marked dirty and released.
  A page holds a value of type \<open>'n\<close> (a tree node, or the bytes of a page). The asserts of the page
  cache on use counts are failures here. The concurrency of the cache itself is not part of this
  theory: a client that holds a use count reads and writes the page buffer directly.
\<close>

record 'n pstore =
  buf :: "int \<Rightarrow> 'n option"
  use :: "int \<Rightarrow> nat"
  dirty :: "int \<Rightarrow> bool"

definition empty_store :: "'n pstore" where
  "empty_store = \<lparr>buf = (\<lambda>_. None), use = (\<lambda>_. 0), dirty = (\<lambda>_. False)\<rparr>"

text \<open>\<open>readPage\<close>: one more use of the page, whose buffer is handed to the caller.\<close>

definition read_page :: "int \<Rightarrow> 'n pstore \<Rightarrow> ('n \<times> 'n pstore) res" where
  "read_page b s = (case buf s b of
     None \<Rightarrow> Inl BadPage
   | Some n \<Rightarrow> Inr (n, s\<lparr>use := (use s)(b := Suc (use s b))\<rparr>))"

text \<open>\<open>initializePage\<close> asserts that nobody uses the page and hands out its buffer.\<close>

definition init_page :: "int \<Rightarrow> 'n pstore \<Rightarrow> 'n pstore res" where
  "init_page b s = (if use s b = 0 then Inr (s\<lparr>use := (use s)(b := 1)\<rparr>) else Inl AssertFailed)"

text \<open>Reading and writing the buffer of a page in use.\<close>

definition peek_page :: "int \<Rightarrow> 'n pstore \<Rightarrow> 'n res" where
  "peek_page b s = (if use s b = 0 then Inl BadPage
     else case buf s b of None \<Rightarrow> Inl BadPage | Some n \<Rightarrow> Inr n)"

definition put_page :: "int \<Rightarrow> 'n \<Rightarrow> 'n pstore \<Rightarrow> 'n pstore res" where
  "put_page b n s = (if use s b = 0 then Inl BadPage else Inr (s\<lparr>buf := (buf s)(b \<mapsto> n)\<rparr>))"

text \<open>
  \<open>writePage\<close> looks the page up with \<open>unordered_map::at\<close>, which throws when it is not present; a
  page that is not in use may have been evicted.
\<close>

definition write_page :: "int \<Rightarrow> 'n pstore \<Rightarrow> 'n pstore res" where
  "write_page b s = (if use s b = 0 then Inl OutOfRange else Inr (s\<lparr>dirty := (dirty s)(b := True)\<rparr>))"

definition release_page :: "int \<Rightarrow> 'n pstore \<Rightarrow> 'n pstore res" where
  "release_page b s =
     (if use s b = 0 then Inl AssertFailed else Inr (s\<lparr>use := (use s)(b := use s b - 1)\<rparr>))"

lemmas store_ops = read_page_def init_page_def peek_page_def put_page_def write_page_def release_page_def

end
