(* ===== verification/Btree.thy ===== *)
theory Btree
  imports Page_Store
begin

text \<open>
  The B+-tree of \<open>shard/include/ll/btree.hpp\<close> on the level of nodes: a page holds a leaf or an inner
  node, nodes refer to each other by block number, and every operation performs the page-cache
  calls of the code in the code's order. The layout of a node in the bytes of its page is the
  subject of the theory \<open>Btree_Layout\<close>.

  \<open>BlkIndexType\<close> is a signed 32-bit number, here \<open>int\<close>; block numbers are allocated one by one, so
  it does not wrap before \<open>2^31\<close> blocks. The three-way comparison the code receives as a callback
  is the argument \<open>cmp\<close>: \<open>cmp e\<close> compares the stored key \<open>e\<close> to the sought one. The callback
  returns to its caller exactly once, so it is a function. A descent is bounded by fuel; the
  theory \<open>Btree_Insert\<close> shows that the depth of the tree is enough.
\<close>

section \<open>Sizes\<close>

record bt_cfg =
  blockSize :: nat
  keySize :: nat
  valSize :: nat

definition entsPerInner :: "bt_cfg \<Rightarrow> nat" where
  "entsPerInner c = (blockSize c - 8 - 4) div (keySize c + 4)"

definition entsPerLeaf :: "bt_cfg \<Rightarrow> nat" where
  "entsPerLeaf c = (blockSize c - 16) div (keySize c + valSize c)"

text \<open>The asserts of the constructor.\<close>

definition cfg_ok :: "bt_cfg \<Rightarrow> bool" where
  "cfg_ok c \<longleftrightarrow> blockSize c > 12 \<and> blockSize c > 8 \<and> blockSize c > 16
     \<and> entsPerInner c \<ge> 4 \<and> entsPerLeaf c \<ge> 4"

section \<open>Nodes and the state of a tree\<close>

datatype ('k, 'v) node =
    LeafN (leftLink: int) (rightLink: int) (leafEnts: "('k \<times> 'v) list")
  | InnerN (lref: int) (innerEnts: "('k \<times> int) list")

record ('k, 'v) btree =
  store :: "('k, 'v) node pstore"
  rootBlock :: int
  numBlocks :: int
  depth :: int

text \<open>\<open>Ref\<close>: a default-constructed reference is \<open>(-1, -1)\<close>.\<close>

type_synonym bref = "int \<times> int"

definition no_ref :: bref where
  "no_ref = (-1, -1)"

definition ref_valid :: "bref \<Rightarrow> bool" where
  "ref_valid r \<longleftrightarrow> fst r \<ge> 0 \<and> snd r \<ge> 0"

definition onStore :: "(('k, 'v) node pstore \<Rightarrow> ('k, 'v) node pstore res)
    \<Rightarrow> ('k, 'v) btree \<Rightarrow> ('k, 'v) btree res" where
  "onStore f t = res_bind (f (store t)) (\<lambda>s. Inr (t\<lparr>store := s\<rparr>))"

definition createTree :: "('k, 'v) btree res" where
  "createTree =
     (let t = \<lparr>store = empty_store, rootBlock = 1, numBlocks = 2, depth = 1\<rparr> in
      res_bind (onStore (init_page 1) t) (\<lambda>t.
      res_bind (onStore (put_page 1 (LeafN 0 0 [])) t) (\<lambda>t.
      res_bind (onStore (write_page 1) t) (\<lambda>t.
      onStore (release_page 1) t))))"

definition allocBlock :: "('k, 'v) btree \<Rightarrow> int \<times> ('k, 'v) btree" where
  "allocBlock t = (numBlocks t, t\<lparr>numBlocks := numBlocks t + 1\<rparr>)"

section \<open>Searching a node\<close>

text \<open>The loops of \<open>lowerBoundInner\<close> and \<open>lowerBoundLeaf\<close>: from the last entry downwards.\<close>

fun lowerBoundLoop :: "('k \<Rightarrow> int) \<Rightarrow> 'k list \<Rightarrow> nat \<Rightarrow> int" where
  "lowerBoundLoop cmp ks 0 = -1"
| "lowerBoundLoop cmp ks (Suc i) = (if cmp (ks ! i) \<le> 0 then int i else lowerBoundLoop cmp ks i)"

definition lowerBoundInner :: "('k \<Rightarrow> int) \<Rightarrow> ('k, 'v) node \<Rightarrow> int res" where
  "lowerBoundInner cmp nd = (case nd of
     LeafN _ _ _ \<Rightarrow> Inl AssertFailed
   | InnerN _ es \<Rightarrow> Inr (lowerBoundLoop cmp (map fst es) (length es)))"

definition lowerBoundLeaf :: "('k \<Rightarrow> int) \<Rightarrow> ('k, 'v) node \<Rightarrow> int res" where
  "lowerBoundLeaf cmp nd = (case nd of
     LeafN _ _ es \<Rightarrow> Inr (lowerBoundLoop cmp (map fst es) (length es))
   | InnerN _ _ \<Rightarrow> Inl AssertFailed)"

text \<open>The loops of \<open>nextInLeaf\<close> and \<open>nextInInner\<close>: from the first entry upwards.\<close>

fun nextLoop :: "('k \<Rightarrow> int) \<Rightarrow> 'k list \<Rightarrow> nat \<Rightarrow> int" where
  "nextLoop cmp [] i = -1"
| "nextLoop cmp (k # ks) i = (if cmp k \<ge> 0 then int i else nextLoop cmp ks (Suc i))"

definition nextInLeaf :: "('k \<Rightarrow> int) \<Rightarrow> ('k \<times> 'v) list \<Rightarrow> int" where
  "nextInLeaf cmp es = nextLoop cmp (map fst es) 0"

definition nextInInner :: "('k \<Rightarrow> int) \<Rightarrow> ('k \<times> int) list \<Rightarrow> int" where
  "nextInInner cmp es = nextLoop cmp (map fst es) 0"

text \<open>The child reference of entry \<open>i\<close>, or the leftmost one.\<close>

definition innerRef :: "('k, 'v) node \<Rightarrow> int \<Rightarrow> int res" where
  "innerRef nd i = (case nd of
     LeafN _ _ _ \<Rightarrow> Inl BadPage
   | InnerN l es \<Rightarrow>
       if i < 0 then Inr l
       else if nat i < length es then Inr (snd (es ! nat i)) else Inl BadPage)"

section \<open>Changing a node\<close>

definition blockIsFull :: "bt_cfg \<Rightarrow> ('k, 'v) node \<Rightarrow> bool" where
  "blockIsFull c nd = (case nd of
     LeafN _ _ es \<Rightarrow> length es \<ge> entsPerLeaf c - 1
   | InnerN _ es \<Rightarrow> length es \<ge> entsPerInner c - 1)"

definition insertAtLeaf :: "nat \<Rightarrow> 'k \<Rightarrow> 'v \<Rightarrow> ('k, 'v) node \<Rightarrow> ('k, 'v) node res" where
  "insertAtLeaf i k v nd = (case nd of
     LeafN l r es \<Rightarrow> Inr (LeafN l r (list_insert i (k, v) es))
   | InnerN _ _ \<Rightarrow> Inl BadPage)"

definition insertAtInnerR :: "nat \<Rightarrow> 'k \<Rightarrow> int \<Rightarrow> ('k, 'v) node \<Rightarrow> ('k, 'v) node res" where
  "insertAtInnerR i k ref nd = (case nd of
     LeafN _ _ _ \<Rightarrow> Inl BadPage
   | InnerN l es \<Rightarrow> Inr (InnerN l (list_insert i (k, ref) es)))"

definition setLeftLink :: "int \<Rightarrow> ('k, 'v) node \<Rightarrow> ('k, 'v) node res" where
  "setLeftLink b nd = (case nd of
     LeafN l r es \<Rightarrow> Inr (LeafN b r es)
   | InnerN _ _ \<Rightarrow> Inl BadPage)"

section \<open>SplitClosure\<close>

text \<open>
  \<open>splitLeaf\<close> up to \<open>fixParent\<close>: the lower half of the entries stays, the upper half moves to a new
  block that is linked in between the block and its right neighbour. The result is the split key,
  the last key that stays, and the number of the new block.
\<close>

definition splitLeaf :: "bt_cfg \<Rightarrow> int \<Rightarrow> ('k, 'v) btree \<Rightarrow> ('k \<times> int \<times> ('k, 'v) btree) res" where
  "splitLeaf c cur t =
    (let (n, t) = allocBlock t in
     res_bind (peek_page cur (store t)) (\<lambda>nd. case nd of
       InnerN _ _ \<Rightarrow> Inl BadPage
     | LeafN l r es \<Rightarrow>
        (let ls = length es div 2; rs = length es - ls in
         res_bind (check (ls > 0 \<and> rs > 0 \<and> ls < entsPerLeaf c - 1 \<and> rs < entsPerLeaf c - 1)
            AssertFailed) (\<lambda>_.
         res_bind (onStore (put_page cur (LeafN l n (take ls es))) t) (\<lambda>t.
         res_bind (onStore (init_page n) t) (\<lambda>t.
         res_bind (onStore (put_page n (LeafN cur r (drop ls es))) t) (\<lambda>t.
         res_bind (onStore (write_page n) t) (\<lambda>t.
         res_bind (onStore (release_page n) t) (\<lambda>t.
         if r \<noteq> 0 then
           res_bind (read_page r (store t)) (\<lambda>(rnd, s).
           res_bind (setLeftLink n rnd) (\<lambda>rnd.
           res_bind (onStore (put_page r rnd) (t\<lparr>store := s\<rparr>)) (\<lambda>t.
           res_bind (onStore (write_page r) t) (\<lambda>t.
           res_bind (onStore (release_page r) t) (\<lambda>t.
           Inr (fst (es ! (ls - 1)), n, t))))))
         else Inr (fst (es ! (ls - 1)), n, t))))))))))"

text \<open>\<open>splitInner\<close> up to \<open>fixParent\<close>: the middle key moves up, its reference becomes the leftmost one
  of the new block.\<close>

definition splitInner :: "bt_cfg \<Rightarrow> int \<Rightarrow> ('k, 'v) btree \<Rightarrow> ('k \<times> int \<times> ('k, 'v) btree) res" where
  "splitInner c cur t =
    (let (n, t) = allocBlock t in
     res_bind (peek_page cur (store t)) (\<lambda>nd. case nd of
       LeafN _ _ _ \<Rightarrow> Inl BadPage
     | InnerN l es \<Rightarrow>
        (let ls = length es div 2; rs = length es - ls - 1 in
         res_bind (check (ls > 0 \<and> rs > 0 \<and> ls < entsPerInner c - 2 \<and> rs < entsPerInner c - 1)
            AssertFailed) (\<lambda>_.
         res_bind (onStore (put_page cur (InnerN l (take ls es))) t) (\<lambda>t.
         res_bind (onStore (init_page n) t) (\<lambda>t.
         res_bind (onStore (put_page n (InnerN (snd (es ! ls)) (drop (ls + 1) es))) t) (\<lambda>t.
         res_bind (onStore (write_page n) t) (\<lambda>t.
         res_bind (onStore (release_page n) t) (\<lambda>t.
         Inr (fst (es ! ls), n, t))))))))))"

definition fixParent :: "bt_cfg \<Rightarrow> int option \<Rightarrow> int \<Rightarrow> int \<Rightarrow> 'k \<Rightarrow> int
    \<Rightarrow> ('k, 'v) btree \<Rightarrow> ('k, 'v) btree res" where
  "fixParent c par index cur k n t = (case par of
     Some p \<Rightarrow>
       res_bind (peek_page p (store t)) (\<lambda>pnd.
       res_bind (check (length (innerEnts pnd) < entsPerInner c) AssertFailed) (\<lambda>_.
       res_bind (insertAtInnerR (nat (index + 1)) k n pnd) (\<lambda>pnd.
       onStore (put_page p pnd) t)))
   | None \<Rightarrow>
       (let (root, t) = allocBlock t;
            t = t\<lparr>rootBlock := root, depth := depth t + 1\<rparr> in
        res_bind (onStore (init_page root) t) (\<lambda>t.
        res_bind (onStore (put_page root (InnerN cur [(k, n)])) t) (\<lambda>t.
        res_bind (onStore (write_page root) t) (\<lambda>t.
        onStore (release_page root) t)))))"

definition split_block :: "bt_cfg \<Rightarrow> int option \<Rightarrow> int \<Rightarrow> int \<Rightarrow> ('k, 'v) btree \<Rightarrow> ('k, 'v) btree res" where
  "split_block c par index cur t =
     res_bind (peek_page cur (store t)) (\<lambda>nd.
       if blockIsFull c nd then
         res_bind (case nd of LeafN _ _ _ \<Rightarrow> splitLeaf c cur t | InnerN _ _ \<Rightarrow> splitInner c cur t)
           (\<lambda>(k, n, t). fixParent c par index cur k n t)
       else Inl (LogicError ''No need to split''))"

section \<open>insert\<close>

text \<open>\<open>read_block\<close>: the root, or the child of the parent that the lower bound selects.\<close>

definition readBlock :: "('k \<Rightarrow> int) \<Rightarrow> int option \<Rightarrow> ('k, 'v) btree
    \<Rightarrow> (int \<times> int \<times> ('k, 'v) node \<times> ('k, 'v) btree) res" where
  "readBlock cmp par t =
     res_bind (case par of
         None \<Rightarrow> Inr (0, rootBlock t)
       | Some p \<Rightarrow>
           res_bind (peek_page p (store t)) (\<lambda>pnd.
           res_bind (lowerBoundInner cmp pnd) (\<lambda>i.
           res_bind (innerRef pnd i) (\<lambda>b. Inr (i, b)))))
       (\<lambda>(i, b). res_bind (read_page b (store t)) (\<lambda>(nd, s). Inr (i, b, nd, t\<lparr>store := s\<rparr>)))"

definition writeParent :: "int option \<Rightarrow> ('k, 'v) btree \<Rightarrow> ('k, 'v) btree res" where
  "writeParent par t = (case par of None \<Rightarrow> Inr t | Some p \<Rightarrow> onStore (write_page p) t)"

definition releaseParent :: "int option \<Rightarrow> ('k, 'v) btree \<Rightarrow> ('k, 'v) btree res" where
  "releaseParent par t = (case par of None \<Rightarrow> Inr t | Some p \<Rightarrow> onStore (release_page p) t)"

definition maybeSplitBlock :: "bt_cfg \<Rightarrow> ('k \<Rightarrow> int) \<Rightarrow> int option \<Rightarrow> ('k, 'v) btree
    \<Rightarrow> (int \<times> ('k, 'v) node \<times> ('k, 'v) btree) res" where
  "maybeSplitBlock c cmp par t =
     res_bind (readBlock cmp par t) (\<lambda>(i, b, nd, t).
       if blockIsFull c nd then
         res_bind (split_block c par i b t) (\<lambda>t.
         res_bind (writeParent par t) (\<lambda>t.
         res_bind (onStore (write_page b) t) (\<lambda>t.
         res_bind (onStore (release_page b) t) (\<lambda>t.
         res_bind (readBlock cmp par t) (\<lambda>(i, b, nd, t).
         res_bind (check (\<not> blockIsFull c nd) AssertFailed) (\<lambda>_.
         Inr (b, nd, t)))))))
       else Inr (b, nd, t))"

text \<open>\<open>insert_or_descend\<close>, repeated until it reaches a leaf.\<close>

fun insertLoop :: "nat \<Rightarrow> bt_cfg \<Rightarrow> ('k \<Rightarrow> int) \<Rightarrow> 'k \<Rightarrow> 'v \<Rightarrow> int option
    \<Rightarrow> ('k, 'v) btree \<Rightarrow> ('k, 'v) btree res" where
  "insertLoop 0 c cmp k v par t = Inl OutOfFuel"
| "insertLoop (Suc f) c cmp k v par t =
     res_bind (maybeSplitBlock c cmp par t) (\<lambda>(b, nd, t). case nd of
       LeafN l r es \<Rightarrow>
         res_bind (check (length es < entsPerLeaf c) AssertFailed) (\<lambda>_.
         res_bind (lowerBoundLeaf cmp nd) (\<lambda>i.
         res_bind (insertAtLeaf (if i \<ge> 0 then nat (i + 1) else 0) k v nd) (\<lambda>nd.
         res_bind (onStore (put_page b nd) t) (\<lambda>t.
         res_bind (releaseParent par t) (\<lambda>t.
         res_bind (onStore (write_page b) t) (\<lambda>t.
         onStore (release_page b) t))))))
     | InnerN l es \<Rightarrow>
         res_bind (check (length es < entsPerInner c) AssertFailed) (\<lambda>_.
         res_bind (releaseParent par t) (\<lambda>t.
         insertLoop f c cmp k v (Some b) t)))"

definition btree_insert :: "bt_cfg \<Rightarrow> ('k \<Rightarrow> int) \<Rightarrow> 'k \<Rightarrow> 'v \<Rightarrow> ('k, 'v) btree \<Rightarrow> ('k, 'v) btree res" where
  "btree_insert c cmp k v t = insertLoop (nat (depth t) + 1) c cmp k v None t"

section \<open>FindClosure\<close>

fun findFirstDescend :: "nat \<Rightarrow> int \<Rightarrow> ('k, 'v) btree \<Rightarrow> (bref \<times> ('k, 'v) btree) res" where
  "findFirstDescend 0 b t = Inl OutOfFuel"
| "findFirstDescend (Suc f) b t =
     res_bind (read_page b (store t)) (\<lambda>(nd, s).
     let t = t\<lparr>store := s\<rparr> in case nd of
       LeafN _ _ es \<Rightarrow>
         res_bind (onStore (release_page b) t) (\<lambda>t.
         Inr (if length es \<noteq> 0 then (b, 0) else no_ref, t))
     | InnerN l es \<Rightarrow>
         res_bind (onStore (release_page b) t) (\<lambda>t. findFirstDescend f l t))"

definition findFirst :: "('k, 'v) btree \<Rightarrow> (bref \<times> ('k, 'v) btree) res" where
  "findFirst t = findFirstDescend (nat (depth t)) (rootBlock t) t"

text \<open>
  \<open>findNextOnFoundChild\<close> releases the inner block in its first two branches but not in the third
  one, where the child is neither the first nor the last.
\<close>

fun findNextDescend :: "nat \<Rightarrow> ('k \<Rightarrow> int) \<Rightarrow> int \<Rightarrow> ('k, 'v) btree \<Rightarrow> (bref \<times> ('k, 'v) btree) res" where
  "findNextDescend 0 cmp b t = Inl OutOfFuel"
| "findNextDescend (Suc f) cmp b t =
     res_bind (read_page b (store t)) (\<lambda>(nd, s).
     let t = t\<lparr>store := s\<rparr> in case nd of
       LeafN _ _ es \<Rightarrow>
         (let i = nextInLeaf cmp es in
          res_bind (onStore (release_page b) t) (\<lambda>t.
          Inr (if i \<ge> 0 then (b, i) else no_ref, t)))
     | InnerN l es \<Rightarrow>
         (let i = nextInInner cmp es in
          if i = -1 then
            res_bind (if es = [] then Inl BadPage else innerRef nd (int (length es) - 1)) (\<lambda>ch.
            res_bind (onStore (release_page b) t) (\<lambda>t. findNextDescend f cmp ch t))
          else if i = 0 then
            res_bind (onStore (release_page b) t) (\<lambda>t. findNextDescend f cmp l t)
          else
            res_bind (innerRef nd (i - 1)) (\<lambda>ch. findNextDescend f cmp ch t)))"

definition findNext :: "('k \<Rightarrow> int) \<Rightarrow> ('k, 'v) btree \<Rightarrow> (bref \<times> ('k, 'v) btree) res" where
  "findNext cmp t = findNextDescend (nat (depth t)) cmp (rootBlock t) t"

definition findPrevInLeaf :: "int \<Rightarrow> int \<Rightarrow> int \<Rightarrow> ('k, 'v) btree \<Rightarrow> (bref \<times> ('k, 'v) btree) res" where
  "findPrevInLeaf b left index t =
     (if index = -1 then
        if left \<noteq> 0 then
          res_bind (onStore (release_page b) t) (\<lambda>t.
          res_bind (read_page left (store t)) (\<lambda>(nd, s).
          let cnt = (case nd of LeafN _ _ es \<Rightarrow> length es | InnerN _ es \<Rightarrow> length es) in
          res_bind (check (cnt > 0) AssertFailed) (\<lambda>_.
          res_bind (onStore (release_page left) (t\<lparr>store := s\<rparr>)) (\<lambda>t.
          Inr ((left, int cnt - 1), t)))))
        else res_bind (onStore (release_page b) t) (\<lambda>t. Inr (no_ref, t))
      else res_bind (onStore (release_page b) t) (\<lambda>t. Inr ((b, index), t)))"

fun findPrevDescend :: "nat \<Rightarrow> ('k \<Rightarrow> int) \<Rightarrow> int \<Rightarrow> ('k, 'v) btree \<Rightarrow> (bref \<times> ('k, 'v) btree) res" where
  "findPrevDescend 0 cmp b t = Inl OutOfFuel"
| "findPrevDescend (Suc f) cmp b t =
     res_bind (read_page b (store t)) (\<lambda>(nd, s).
     let t = t\<lparr>store := s\<rparr> in case nd of
       LeafN left _ es \<Rightarrow>
         res_bind (lowerBoundLeaf cmp nd) (\<lambda>i. findPrevInLeaf b left i t)
     | InnerN l es \<Rightarrow>
         res_bind (lowerBoundInner cmp nd) (\<lambda>i.
         res_bind (if i = -1 then Inr l else innerRef nd i) (\<lambda>ch.
         res_bind (onStore (release_page b) t) (\<lambda>t. findPrevDescend f cmp ch t))))"

definition findPrev :: "('k \<Rightarrow> int) \<Rightarrow> ('k, 'v) btree \<Rightarrow> (bref \<times> ('k, 'v) btree) res" where
  "findPrev cmp t = findPrevDescend (nat (depth t)) cmp (rootBlock t) t"

section \<open>IterateClosure\<close>

text \<open>The iterator keeps one use of the block it stands on. Its initial block number is 0.\<close>

record iter =
  it_block :: int
  it_entry :: int

definition new_iter :: iter where
  "new_iter = \<lparr>it_block = 0, it_entry = 0\<rparr>"

definition iter_valid :: "iter \<Rightarrow> bool" where
  "iter_valid it \<longleftrightarrow> it_block it > 0 \<and> it_entry it \<ge> 0"

definition iter_position :: "iter \<Rightarrow> bref" where
  "iter_position it = (it_block it, it_entry it)"

definition iter_destroy :: "iter \<Rightarrow> ('k, 'v) btree \<Rightarrow> ('k, 'v) btree res" where
  "iter_destroy it t = (if it_block it > 0 then onStore (release_page (it_block it)) t else Inr t)"

definition iter_seek :: "bref \<Rightarrow> iter \<Rightarrow> ('k, 'v) btree \<Rightarrow> (iter \<times> ('k, 'v) btree) res" where
  "iter_seek r it t =
     res_bind (if it_block it > 0 then onStore (release_page (it_block it)) t else Inr t) (\<lambda>t.
     let it = \<lparr>it_block = fst r, it_entry = snd r\<rparr> in
     if fst r > 0 then
       res_bind (read_page (fst r) (store t)) (\<lambda>(_, s). Inr (it, t\<lparr>store := s\<rparr>))
     else Inr (it, t))"

definition iter_forward :: "iter \<Rightarrow> ('k, 'v) btree \<Rightarrow> (iter \<times> ('k, 'v) btree) res" where
  "iter_forward it t =
     res_bind (check (it_block it > 0) AssertFailed) (\<lambda>_.
     res_bind (peek_page (it_block it) (store t)) (\<lambda>nd. case nd of
       InnerN _ _ \<Rightarrow> Inl BadPage
     | LeafN _ right es \<Rightarrow>
         res_bind (check (it_entry it < int (length es)) AssertFailed) (\<lambda>_.
         let e = it_entry it + 1 in
         if e = int (length es) then
           if right \<noteq> 0 then
             res_bind (onStore (release_page (it_block it)) t) (\<lambda>t.
             res_bind (read_page right (store t)) (\<lambda>(_, s).
             Inr (\<lparr>it_block = right, it_entry = 0\<rparr>, t\<lparr>store := s\<rparr>)))
           else
             res_bind (onStore (release_page (it_block it)) t) (\<lambda>t.
             Inr (\<lparr>it_block = -1, it_entry = -1\<rparr>, t))
         else Inr (it\<lparr>it_entry := e\<rparr>, t))))"

definition iter_entry :: "iter \<Rightarrow> ('k, 'v) btree \<Rightarrow> ('k \<times> 'v) res" where
  "iter_entry it t =
     res_bind (check (it_block it > 0 \<and> it_entry it \<ge> 0) AssertFailed) (\<lambda>_.
     res_bind (peek_page (it_block it) (store t)) (\<lambda>nd. case nd of
       LeafN _ _ es \<Rightarrow> if nat (it_entry it) < length es then Inr (es ! nat (it_entry it)) else Inl BadPage
     | InnerN _ _ \<Rightarrow> Inl BadPage))"

definition iter_getKey :: "iter \<Rightarrow> ('k, 'v) btree \<Rightarrow> 'k res" where
  "iter_getKey it t = res_bind (iter_entry it t) (\<lambda>e. Inr (fst e))"

definition iter_getValue :: "iter \<Rightarrow> ('k, 'v) btree \<Rightarrow> 'v res" where
  "iter_getValue it t = res_bind (iter_entry it t) (\<lambda>e. Inr (snd e))"

definition iter_setValue :: "'v \<Rightarrow> iter \<Rightarrow> ('k, 'v) btree \<Rightarrow> ('k, 'v) btree res" where
  "iter_setValue v it t =
     res_bind (iter_entry it t) (\<lambda>e.
     res_bind (peek_page (it_block it) (store t)) (\<lambda>nd. case nd of
       InnerN _ _ \<Rightarrow> Inl BadPage
     | LeafN l r es \<Rightarrow>
         res_bind (onStore (put_page (it_block it)
            (LeafN l r (es[nat (it_entry it) := (fst e, v)]))) t) (\<lambda>t.
         onStore (write_page (it_block it)) t)))"

end
