(* ===== verification/Btree_Tree.thy ===== *)
theory Btree_Tree
  imports Btree
begin

text \<open>
  The abstract view of a tree: a finitely branching tree of blocks whose leaves carry the entries.
  \<open>repr\<close> says that the pages hold the nodes of such a tree, \<open>wf_tree\<close> is the shape invariant (balance,
  node sizes, non-empty leaves), \<open>chain\<close> the doubly linked list of the leaves. The separators of an
  inner node are not stored in the abstract tree: separator \<open>i\<close> is always the last key below
  child \<open>i\<close>.
\<close>

section \<open>Abstract trees\<close>

datatype ('k, 'v) tree = Lf int "('k \<times> 'v) list" | Nd int "('k, 'v) tree list"

fun blk :: "('k, 'v) tree \<Rightarrow> int" where
  "blk (Lf b es) = b"
| "blk (Nd b cs) = b"

fun tents :: "('k, 'v) tree \<Rightarrow> ('k \<times> 'v) list" where
  "tents (Lf b es) = es"
| "tents (Nd b cs) = concat (map tents cs)"

fun tblocks :: "('k, 'v) tree \<Rightarrow> int list" where
  "tblocks (Lf b es) = [b]"
| "tblocks (Nd b cs) = b # concat (map tblocks cs)"

fun tleaves :: "('k, 'v) tree \<Rightarrow> int list" where
  "tleaves (Lf b es) = [b]"
| "tleaves (Nd b cs) = concat (map tleaves cs)"

definition lastkey :: "('k, 'v) tree \<Rightarrow> 'k" where
  "lastkey T = fst (last (tents T))"

abbreviation "fents ts \<equiv> concat (map tents ts)"
abbreviation "fblocks ts \<equiv> concat (map tblocks ts)"
abbreviation "fleaves ts \<equiv> concat (map tleaves ts)"

text \<open>The entries of an inner node over the children \<open>cs\<close>, and the node itself.\<close>

fun seps :: "('k, 'v) tree list \<Rightarrow> ('k \<times> int) list" where
  "seps (a # b # cs) = (lastkey a, blk b) # seps (b # cs)"
| "seps _ = []"

definition innerNode :: "('k, 'v) tree list \<Rightarrow> ('k, 'v) node" where
  "innerNode cs = InnerN (blk (hd cs)) (seps cs)"

fun repr :: "(int \<Rightarrow> ('k, 'v) node option) \<Rightarrow> ('k, 'v) tree \<Rightarrow> bool" where
  "repr B (Lf b es) \<longleftrightarrow> (\<exists>l r. B b = Some (LeafN l r es))"
| "repr B (Nd b cs) \<longleftrightarrow> B b = Some (innerNode cs) \<and> (\<forall>T \<in> set cs. repr B T)"

fun wf_tree :: "bt_cfg \<Rightarrow> nat \<Rightarrow> ('k, 'v) tree \<Rightarrow> bool" where
  "wf_tree c h (Lf b es) \<longleftrightarrow> h = 0 \<and> es \<noteq> [] \<and> length es < entsPerLeaf c"
| "wf_tree c h (Nd b cs) \<longleftrightarrow> 2 \<le> length cs \<and> length cs \<le> entsPerInner c
     \<and> (case h of 0 \<Rightarrow> False | Suc h' \<Rightarrow> \<forall>T \<in> set cs. wf_tree c h' T)"

lemma blk_in_tblocks [simp]: "blk T \<in> set (tblocks T)"
  by (cases T) auto

lemma tleaves_subset_tblocks: "set (tleaves T) \<subseteq> set (tblocks T)"
  by (induction T) auto

lemma fleaves_subset: "set (fleaves ts) \<subseteq> set (fblocks ts)"
  using tleaves_subset_tblocks by fastforce

lemma distinct_fleaves_aux:
  "(\<And>T. T \<in> set ts \<Longrightarrow> distinct (tblocks T) \<Longrightarrow> distinct (tleaves T)) \<Longrightarrow>
   distinct (fblocks ts) \<Longrightarrow> distinct (fleaves ts)"
proof (induction ts)
  case (Cons a ts)
  have "set (tblocks a) \<inter> set (fblocks ts) = {}" "distinct (tblocks a)" "distinct (fblocks ts)"
    using Cons.prems(2) by simp_all
  then have "set (tleaves a) \<inter> set (fleaves ts) = {}"
    using tleaves_subset_tblocks[of a] fleaves_subset[of ts] by blast
  moreover have "distinct (tleaves a)" using Cons.prems(1) \<open>distinct (tblocks a)\<close> by simp
  moreover have "distinct (fleaves ts)" using Cons \<open>distinct (fblocks ts)\<close> by simp
  ultimately show ?case by simp
qed simp

lemma distinct_tleaves: "distinct (tblocks T) \<Longrightarrow> distinct (tleaves T)"
proof (induction T)
  case (Nd b cs)
  then show ?case using distinct_fleaves_aux[of cs] by simp
qed simp

lemma distinct_fleaves: "distinct (fblocks ts) \<Longrightarrow> distinct (fleaves ts)"
  by (rule distinct_fleaves_aux) (rule distinct_tleaves)

lemma wf_tents_nonempty: "wf_tree c h T \<Longrightarrow> tents T \<noteq> []"
proof (induction T arbitrary: h)
  case (Nd b cs)
  then show ?case by (cases cs) (auto split: nat.splits)
qed simp

lemma lastkey_Nd:
  assumes "tents d \<noteq> []"
  shows "lastkey (Nd b (ds @ [d])) = lastkey d"
  using assms by (simp add: lastkey_def)

section \<open>Separators\<close>

lemma length_seps [simp]: "length (seps cs) = length cs - 1"
  by (induction cs rule: seps.induct) auto

lemma seps_nth:
  "i < length cs - 1 \<Longrightarrow> seps cs ! i = (lastkey (cs ! i), blk (cs ! Suc i))"
proof (induction cs arbitrary: i rule: seps.induct)
  case (1 a b cs)
  then show ?case by (cases i) auto
qed auto

lemma map_fst_seps: "map fst (seps cs) = map lastkey (butlast cs)"
  by (induction cs rule: seps.induct) auto

lemma seps_append: "seps (cs @ a # ds) = seps (cs @ [a]) @ seps (a # ds)"
  by (induction cs rule: seps.induct) auto

lemma seps_split:
  assumes "blk cl = blk c0" "lastkey cr = lastkey c0"
  shows "seps (cs1 @ cl # cr # cs2) = list_insert (length cs1) (lastkey cl, blk cr) (seps (cs1 @ c0 # cs2))"
proof -
  have "seps (cs1 @ [cl]) = seps (cs1 @ [c0])"
    using assms(1)
  proof (induction cs1)
    case (Cons a cs1)
    then show ?case by (cases cs1) auto
  qed simp
  moreover have "seps (cr # cs2) = seps (c0 # cs2)" using assms(2) by (cases cs2) auto
  moreover have "length (seps (cs1 @ [c0])) = length cs1" by simp
  ultimately show ?thesis
    using seps_append[of cs1 cl "cr # cs2"] seps_append[of cs1 c0 cs2]
    by (simp add: list_insert_append_eq)
qed

lemma innerNode_replace:
  assumes "blk d = blk c0" "cs2 \<noteq> [] \<Longrightarrow> lastkey d = lastkey c0"
  shows "innerNode (cs1 @ d # cs2) = innerNode (cs1 @ c0 # cs2)"
proof -
  have "seps (cs1 @ [d]) = seps (cs1 @ [c0])"
    using assms(1)
  proof (induction cs1)
    case (Cons a cs1)
    then show ?case by (cases cs1) auto
  qed simp
  moreover have "seps (d # cs2) = seps (c0 # cs2)" using assms(2) by (cases cs2) auto
  moreover have "blk (hd (cs1 @ d # cs2)) = blk (hd (cs1 @ c0 # cs2))" using assms(1) by (cases cs1) auto
  ultimately show ?thesis 
    using seps_append[of cs1 d cs2] seps_append[of cs1 c0 cs2] by (simp add: innerNode_def)
qed

lemma seps_take: "m < length cs \<Longrightarrow> take m (seps cs) = seps (take (Suc m) cs)"
  by (rule nth_equalityI) (auto simp: seps_nth)

lemma seps_drop: "drop m (seps cs) = seps (drop m cs)"
  by (rule nth_equalityI) (auto simp: seps_nth)

lemma innerRef_innerNode:
  "innerRef (innerNode (cs1 @ c0 # cs2)) (int (length cs1) - 1) = Inr (blk c0)"
proof (cases cs1 rule: rev_cases)
  case Nil
  then show ?thesis by (simp add: innerRef_def innerNode_def)
next
  case (snoc ys y)
  then show ?thesis
    by (simp add: innerRef_def innerNode_def seps_nth nth_append)
qed

section \<open>The chain of leaves\<close>

fun chain :: "(int \<Rightarrow> ('k, 'v) node option) \<Rightarrow> int \<Rightarrow> int list \<Rightarrow> bool" where
  "chain B p [] = True"
| "chain B p (b # bs) =
    ((\<exists>es. B b = Some (LeafN p (case bs of [] \<Rightarrow> 0 | b' # _ \<Rightarrow> b') es)) \<and> chain B b bs)"

lemma chain_leaf: "chain B p bs \<Longrightarrow> b \<in> set bs \<Longrightarrow> \<exists>l r es. B b = Some (LeafN l r es)"
  by (induction bs arbitrary: p) auto

lemma chain_cong:
  assumes "chain B p bs"
    and "\<And>b l r es. b \<in> set bs \<Longrightarrow> B b = Some (LeafN l r es) \<Longrightarrow> \<exists>es'. B' b = Some (LeafN l r es')"
  shows "chain B' p bs"
  using assms
proof (induction bs arbitrary: p)
  case (Cons b bs)
  then show ?case by simp (metis (no_types, lifting))
qed simp

lemma chain_links:
  assumes "chain B p (xs @ b # ys)"
  shows "\<exists>es. B b = Some (LeafN (last (p # xs)) (hd (ys @ [0])) es)"
  using assms
proof (induction xs arbitrary: p)
  case Nil
  then show ?case by (cases ys) auto
qed auto

lemma chain_split:
  assumes "chain B p (xs @ b # ys)" "distinct (xs @ b # ys)" "n \<notin> set (xs @ b # ys)"
    and "B' b = Some (LeafN (last (p # xs)) n e1)" "B' n = Some (LeafN b (hd (ys @ [0])) e2)"
    and "\<And>y ys' l r es. ys = y # ys' \<Longrightarrow> B y = Some (LeafN l r es) \<Longrightarrow> B' y = Some (LeafN n r es)"
    and "\<And>x. x \<in> set xs \<union> set (tl ys) \<Longrightarrow> B' x = B x"
  shows "chain B' p (xs @ b # n # ys)"
  using assms
proof (induction xs arbitrary: p)
  case Nil
  show ?case
  proof (cases ys)
    case Nil
    then show ?thesis using Nil.prems by simp
  next
    case (Cons y ys')
    have "chain B' y ys'"
      using Nil.prems(1,7) Cons by (auto intro!: chain_cong[of B y ys' B'])
    then show ?thesis using Nil.prems Cons by auto
  qed
next
  case (Cons x xs)
  have "chain B' x (xs @ b # n # ys)" using Cons by (intro Cons.IH) auto
  then show ?case using Cons.prems by (cases xs) auto
qed

section \<open>Pages that agree up to left links\<close>

definition sim :: "('k, 'v) node option \<Rightarrow> ('k, 'v) node option \<Rightarrow> bool" where
  "sim x y \<longleftrightarrow> x = y \<or> (\<exists>l l' r es. x = Some (LeafN l r es) \<and> y = Some (LeafN l' r es))"

lemma sim_refl [simp]: "sim x x"
  by (simp add: sim_def)

lemma sim_trans: "sim x y \<Longrightarrow> sim y z \<Longrightarrow> sim x z"
  by (auto simp: sim_def)

lemma sim_InnerN: "sim (Some (InnerN l es)) y \<Longrightarrow> y = Some (InnerN l es)"
  by (auto simp: sim_def)

lemma repr_sim:
  "repr B T \<Longrightarrow> (\<And>b. b \<in> set (tblocks T) \<Longrightarrow> sim (B b) (B' b)) \<Longrightarrow> repr B' T"
proof (induction T)
  case (Lf b es)
  then show ?case by (auto simp: sim_def)
next
  case (Nd b cs)
  from Nd.prems have "sim (Some (innerNode cs)) (B' b)" by force
  then have "B' b = Some (innerNode cs)" unfolding innerNode_def by (rule sim_InnerN)
  moreover have "\<forall>T \<in> set cs. repr B' T" using Nd by fastforce
  ultimately show ?case by simp
qed

end
