(* ===== verification/Btree_Order.thy ===== *)
theory Btree_Order
  imports Btree_Tree
begin

text \<open>
  The order of the keys, the sorted list of entries a tree stands for and the reference insertion
  \<open>ins_after\<close> into it, and what the lower-bound searches of a node compute on sorted entries.
\<close>

section \<open>The order of the keys\<close>

definition sorted_ents :: "('k \<Rightarrow> 'k \<Rightarrow> int) \<Rightarrow> ('k \<times> 'v) list \<Rightarrow> bool" where
  "sorted_ents kcmp es = sorted_wrt (\<lambda>x y. kcmp (fst x) (fst y) \<le> 0) es"

definition ins_after :: "('k \<Rightarrow> 'k \<Rightarrow> int) \<Rightarrow> 'k \<Rightarrow> 'v \<Rightarrow> ('k \<times> 'v) list \<Rightarrow> ('k \<times> 'v) list" where
  "ins_after kcmp k v es =
     takeWhile (\<lambda>e. kcmp (fst e) k \<le> 0) es @ (k, v) # dropWhile (\<lambda>e. kcmp (fst e) k \<le> 0) es"

lemma sorted_ents_append: "sorted_ents kcmp (xs @ ys) \<longleftrightarrow>
  sorted_ents kcmp xs \<and> sorted_ents kcmp ys \<and> (\<forall>x \<in> set xs. \<forall>y \<in> set ys. kcmp (fst x) (fst y) \<le> 0)"
  by (simp add: sorted_ents_def sorted_wrt_append)

lemma ins_after_append:
  "(\<And>e. e \<in> set xs \<Longrightarrow> kcmp (fst e) k \<le> 0) \<Longrightarrow> ins_after kcmp k v (xs @ ys) = xs @ ins_after kcmp k v ys"
  by (simp add: ins_after_def)

lemma ins_after_append2:
  assumes "zs \<noteq> [] \<Longrightarrow> ys \<noteq> [] \<and> kcmp (fst (last ys)) k > 0"
  shows "ins_after kcmp k v (ys @ zs) = ins_after kcmp k v ys @ zs"
proof (cases "zs = []")
  case False
  then obtain y ys' where y: "ys = ys' @ [y]" "kcmp (fst y) k > 0"
    using assms by (cases ys rule: rev_cases) auto
  show ?thesis
  proof (cases "\<forall>e \<in> set ys'. kcmp (fst e) k \<le> 0")
    case True
    with y show ?thesis by (simp add: ins_after_def takeWhile_tail)
  next
    case F: False
    then obtain e where "e \<in> set ys'" "\<not> kcmp (fst e) k \<le> 0" by blast
    with y show ?thesis by (simp add: ins_after_def)
  qed
qed simp

lemma ins_after_not_Nil [simp]: "ins_after kcmp k v es \<noteq> []"
  by (simp add: ins_after_def)

lemma length_ins_after [simp]: "length (ins_after kcmp k v es) = Suc (length es)"
proof -
  let ?P = "\<lambda>e. kcmp (fst e) k \<le> 0"
  have "length (takeWhile ?P es @ dropWhile ?P es) = length es" by simp
  then show ?thesis by (simp add: ins_after_def del: takeWhile_dropWhile_id)
qed

lemma set_ins_after: "set (ins_after kcmp k v es) = insert (k, v) (set es)"
  unfolding ins_after_def
  by (metis list.simps(15) set_append takeWhile_dropWhile_id Un_insert_right)

lemma last_ins_after:
  assumes "es \<noteq> []" "kcmp (fst (last es)) k > 0"
  shows "last (ins_after kcmp k v es) = last es"
proof -
  have "dropWhile (\<lambda>e. kcmp (fst e) k \<le> 0) es \<noteq> []"
    using assms by (metis dropWhile_eq_Nil_conv last_in_set not_le)
  moreover have "last (takeWhile (\<lambda>e. kcmp (fst e) k \<le> 0) es @ dropWhile (\<lambda>e. kcmp (fst e) k \<le> 0) es)
      = last es" by simp
  ultimately show ?thesis by (auto simp: ins_after_def simp del: takeWhile_dropWhile_id)
qed

text \<open>What the tree needs of the comparison: it is a total preorder.\<close>

locale key_order =
  fixes kcmp :: "'k \<Rightarrow> 'k \<Rightarrow> int"
  assumes kcmp_sym: "kcmp a b \<le> 0 \<longleftrightarrow> 0 \<le> kcmp b a"
    and kcmp_trans: "kcmp a b \<le> 0 \<Longrightarrow> kcmp b c \<le> 0 \<Longrightarrow> kcmp a c \<le> 0"
begin

lemma kcmp_refl [simp]: "kcmp a a = 0"
  using kcmp_sym[of a a] by linarith

lemma kcmp_gt_sym: "0 < kcmp a b \<Longrightarrow> kcmp b a \<le> 0"
  using kcmp_sym[of b a] by linarith

lemma kcmp_le_gt: "kcmp a b \<le> 0 \<Longrightarrow> 0 < kcmp a c \<Longrightarrow> 0 < kcmp b c"
  using kcmp_trans[of a b c] by linarith

lemma sorted_ents_ins_after:
  assumes "sorted_ents kcmp es"
  shows "sorted_ents kcmp (ins_after kcmp k v es)"
proof -
  let ?P = "\<lambda>e. kcmp (fst e) k \<le> 0"
  have split: "es = takeWhile ?P es @ dropWhile ?P es" by simp
  have srt: "sorted_ents kcmp (takeWhile ?P es)" "sorted_ents kcmp (dropWhile ?P es)"
    "\<forall>x \<in> set (takeWhile ?P es). \<forall>y \<in> set (dropWhile ?P es). kcmp (fst x) (fst y) \<le> 0"
    using assms split sorted_ents_append by metis+
  have lo: "\<forall>x \<in> set (takeWhile ?P es). kcmp (fst x) k \<le> 0" by (meson set_takeWhileD)
  have hi: "\<forall>y \<in> set (dropWhile ?P es). kcmp k (fst y) \<le> 0"
  proof (cases "dropWhile ?P es")
    case (Cons d ds)
    then have d: "0 < kcmp (fst d) k"
      by (metis dropWhile_eq_Cons_conv not_le)
    have "\<forall>y \<in> set (d # ds). kcmp (fst d) (fst y) \<le> 0"
      using srt(2) Cons by (simp add: sorted_ents_def)
    then show ?thesis using d kcmp_trans[OF kcmp_gt_sym[OF d]] Cons by auto
  qed (simp only: list.set(1) ball_empty)
  show ?thesis
    using srt lo hi unfolding ins_after_def sorted_ents_append
    by (auto simp: sorted_ents_def)
qed

lemma sorted_ents_le_last:
  assumes "sorted_ents kcmp xs" "x \<in> set xs"
  shows "kcmp (fst x) (fst (last xs)) \<le> 0"
proof -
  obtain ys y where "xs = ys @ [y]" using assms(2) by (cases xs rule: rev_cases) auto
  then show ?thesis using assms by (auto simp: sorted_ents_append)
qed

end

section \<open>Lower bounds\<close>

lemma lowerBoundLoop_spec:
  "\<exists>m. lowerBoundLoop cmp ks n = int m - 1 \<and> m \<le> n \<and> (m > 0 \<longrightarrow> cmp (ks ! (m - 1)) \<le> 0)
     \<and> (\<forall>i. m \<le> i \<longrightarrow> i < n \<longrightarrow> cmp (ks ! i) > 0)"
proof (induction n)
  case 0
  then show ?case by simp
next
  case (Suc n)
  show ?case
  proof (cases "cmp (ks ! n) \<le> 0")
    case True
    then show ?thesis by (intro exI[of _ "Suc n"]) auto
  next
    case False
    from Suc obtain m where m: "lowerBoundLoop cmp ks n = int m - 1" "m \<le> n"
      "m > 0 \<longrightarrow> cmp (ks ! (m - 1)) \<le> 0" "\<forall>i. m \<le> i \<longrightarrow> i < n \<longrightarrow> cmp (ks ! i) > 0"
      by blast
    then show ?thesis using False by (intro exI[of _ m]) (auto simp: less_Suc_eq)
  qed
qed

context key_order
begin

lemma lowerBound_child:
  assumes srt: "sorted_ents kcmp (fents cs)" and ne: "\<And>T. T \<in> set cs \<Longrightarrow> tents T \<noteq> []" and "cs \<noteq> []"
  obtains cs1 c0 cs2 where "cs = cs1 @ c0 # cs2"
    "lowerBoundLoop (\<lambda>e. kcmp e k) (map fst (seps cs)) (length (seps cs)) = int (length cs1) - 1"
    "\<And>e. e \<in> set (fents cs1) \<Longrightarrow> kcmp (fst e) k \<le> 0"
    "cs2 \<noteq> [] \<Longrightarrow> kcmp (lastkey c0) k > 0"
proof -
  obtain m where m: "lowerBoundLoop (\<lambda>e. kcmp e k) (map fst (seps cs)) (length cs - 1) = int m - 1"
    "m \<le> length cs - 1" "m > 0 \<longrightarrow> kcmp (map fst (seps cs) ! (m - 1)) k \<le> 0"
    "\<forall>i. m \<le> i \<longrightarrow> i < length cs - 1 \<longrightarrow> kcmp (map fst (seps cs) ! i) k > 0"
    using lowerBoundLoop_spec[of "\<lambda>e. kcmp e k" "map fst (seps cs)" "length (seps cs)"]
    unfolding length_seps by blast
  have mlen: "m < length cs" using m(2) \<open>cs \<noteq> []\<close> by (cases cs) auto
  have eq: "cs = take m cs @ cs ! m # drop (Suc m) cs" using mlen by (rule id_take_nth_drop)
  have low: "kcmp (fst e) k \<le> 0" if e: "e \<in> set (fents (take m cs))" for e
  proof -
    have mpos: "0 < m" using e by (cases m) auto
    let ?d = "cs ! (m - 1)"
    have tk: "take m cs = take (m - 1) cs @ [?d]" 
      using mpos mlen take_Suc_conv_app_nth[of "m - 1" cs] by simp
    have dne: "tents ?d \<noteq> []" using ne mpos mlen by simp
    have "fents cs = fents (take m cs) @ fents (cs ! m # drop (Suc m) cs)"
      using arg_cong[OF eq, of "\<lambda>x. fents x"] by (simp only: map_append concat_append)
    then have "sorted_ents kcmp (fents (take m cs))" using srt by (simp add: sorted_ents_append)
    moreover have "last (fents (take m cs)) = last (tents ?d)" using tk dne by simp
    ultimately have "kcmp (fst e) (lastkey ?d) \<le> 0"
      using sorted_ents_le_last e unfolding lastkey_def by metis
    moreover have "kcmp (lastkey ?d) k \<le> 0" using m(2,3) mpos mlen by (simp add: seps_nth)
    ultimately show ?thesis by (rule kcmp_trans)
  qed
  have high: "kcmp (lastkey (cs ! m)) k > 0" if "drop (Suc m) cs \<noteq> []"
    using m(4)[rule_format, of m] that mlen by (simp add: seps_nth)
  show ?thesis
  proof (rule that[OF eq _ low high])
    show "lowerBoundLoop (\<lambda>e. kcmp e k) (map fst (seps cs)) (length (seps cs)) = int (length (take m cs)) - 1"
      using m(1) mlen by simp
  qed
qed

lemma lowerBound_leaf:
  assumes srt: "sorted_ents kcmp es"
  shows "lowerBoundLoop (\<lambda>e. kcmp e k) (map fst es) (length es)
    = int (length (takeWhile (\<lambda>e. kcmp (fst e) k \<le> 0) es)) - 1"
proof -
  let ?P = "\<lambda>e. kcmp (fst e) k \<le> 0"
  obtain m where m: "lowerBoundLoop (\<lambda>e. kcmp e k) (map fst es) (length es) = int m - 1"
    "m \<le> length es" "m > 0 \<longrightarrow> kcmp (map fst es ! (m - 1)) k \<le> 0"
    "\<forall>i. m \<le> i \<longrightarrow> i < length es \<longrightarrow> kcmp (map fst es ! i) k > 0"
    using lowerBoundLoop_spec[of "\<lambda>e. kcmp e k" "map fst es" "length es"] by blast
  have below: "?P e" if "e \<in> set (take m es)" for e
  proof -
    have mpos: "0 < m" using that by (cases m) auto
    have "sorted_ents kcmp (take m es)" using srt by (simp add: sorted_ents_def sorted_wrt_take)
    then have "kcmp (fst e) (fst (last (take m es))) \<le> 0" using that by (rule sorted_ents_le_last)
    moreover have "last (take m es) = es ! (m - 1)" using mpos m(2) by (rule last_take_nth)
    ultimately show ?thesis using m(2,3) mpos kcmp_trans by auto
  qed
  have above: "drop m es \<noteq> [] \<Longrightarrow> \<not> ?P (hd (drop m es))"
    using m(4)[rule_format, of m] by (simp add: hd_drop_conv_nth)
  have "takeWhile ?P (take m es @ drop m es) = take m es"
    using below above by (subst takeWhile_append2) (auto simp: takeWhile_eq_Nil_iff)
  then have "length (takeWhile ?P es) = m" using m(2) by simp
  then show ?thesis using m(1) by simp
qed

end

section \<open>Searching a sorted list\<close>

context key_order
begin

lemma takeWhile_eq_filter:
  "sorted_ents kcmp es \<Longrightarrow> takeWhile (\<lambda>e. kcmp (fst e) q \<le> 0) es = filter (\<lambda>e. kcmp (fst e) q \<le> 0) es"
proof (induction es)
  case (Cons e es)
  show ?case
  proof (cases "kcmp (fst e) q \<le> 0")
    case True
    then show ?thesis using Cons by (simp add: sorted_ents_def)
  next
    case False
    have "\<not> kcmp (fst x) q \<le> 0" if "x \<in> set es" for x
      using Cons.prems that False kcmp_trans[of "fst e" "fst x" q] by (auto simp: sorted_ents_def)
    then show ?thesis using False by (simp add: filter_empty_conv)
  qed
qed simp

lemma dropWhile_greater:
  "sorted_ents kcmp es \<Longrightarrow> e \<in> set (dropWhile (\<lambda>e. kcmp (fst e) k \<le> 0) es) \<Longrightarrow> \<not> kcmp (fst e) k \<le> 0"
proof (induction es)
  case (Cons x es)
  show ?case
  proof (cases "kcmp (fst x) k \<le> 0")
    case True
    then show ?thesis using Cons by (simp add: sorted_ents_def)
  next
    case False
    then have "e = x \<or> kcmp (fst x) (fst e) \<le> 0" using Cons.prems by (auto simp: sorted_ents_def)
    then show ?thesis using False kcmp_trans[of "fst x" "fst e" k] by auto
  qed
qed simp

lemma dropWhile_eq_filter:
  assumes "sorted_ents kcmp es"
  shows "dropWhile (\<lambda>e. kcmp (fst e) k \<le> 0) es = filter (\<lambda>e. \<not> kcmp (fst e) k \<le> 0) es"
proof -
  let ?Q = "\<lambda>e. kcmp (fst e) k \<le> 0"
  have "filter (\<lambda>e. \<not> ?Q e) es = filter (\<lambda>e. \<not> ?Q e) (takeWhile ?Q es) @ filter (\<lambda>e. \<not> ?Q e) (dropWhile ?Q es)"
    by (metis filter_append takeWhile_dropWhile_id)
  moreover have "filter (\<lambda>e. \<not> ?Q e) (takeWhile ?Q es) = []" by (auto simp: filter_empty_conv dest: set_takeWhileD)
  moreover have "filter (\<lambda>e. \<not> ?Q e) (dropWhile ?Q es) = dropWhile ?Q es"
    using dropWhile_greater[OF assms] by (intro filter_True) blast
  ultimately show ?thesis by simp
qed

lemma sorted_ents_filter: "sorted_ents kcmp es \<Longrightarrow> sorted_ents kcmp (filter P es)"
  by (simp add: sorted_ents_def sorted_wrt_filter)

lemma filter_ins_after:
  assumes "sorted_ents kcmp es"
  shows "filter P (ins_after kcmp k v es) = (if P (k, v) then ins_after kcmp k v (filter P es) else filter P es)"
proof (cases "P (k, v)")
  case True
  let ?Q = "\<lambda>e. kcmp (fst e) k \<le> 0"
  note srt = sorted_ents_filter[OF assms, of P]
  have comm: "filter P (filter R es) = filter R (filter P es)" for R
    by (induction es) auto
  have "filter P (ins_after kcmp k v es) = filter P (filter ?Q es) @ (k, v) # filter P (filter (\<lambda>e. \<not> ?Q e) es)"
    unfolding ins_after_def takeWhile_eq_filter[OF assms] dropWhile_eq_filter[OF assms] using True by simp
  also have "\<dots> = ins_after kcmp k v (filter P es)"
    unfolding ins_after_def takeWhile_eq_filter[OF srt] dropWhile_eq_filter[OF srt] comm by (rule refl)
  finally show ?thesis using True by simp
next
  case False
  have "filter P es = filter P (takeWhile (\<lambda>e. kcmp (fst e) k \<le> 0) es) @ filter P (dropWhile (\<lambda>e. kcmp (fst e) k \<le> 0) es)"
    by (metis filter_append takeWhile_dropWhile_id)
  then show ?thesis using False by (simp add: ins_after_def)
qed

lemma last_ins_after_le:
  assumes "sorted_ents kcmp es" "es = [] \<or> kcmp (fst (last es)) k \<le> 0"
  shows "last (ins_after kcmp k v es) = (k, v)"
proof -
  have "kcmp (fst e) k \<le> 0" if "e \<in> set es" for e
    using sorted_ents_le_last[OF assms(1) that] assms(2) that kcmp_trans by (cases "es = []") auto
  then have "dropWhile (\<lambda>e. kcmp (fst e) k \<le> 0) es = []" by simp
  then show ?thesis by (simp add: ins_after_def)
qed

end

end
