(* ===== verification/Btree_Insert.thy ===== *)
theory Btree_Insert
  imports Btree_Order
begin

text \<open>
  Correctness of insertion against the sorted list of entries: the new entry is put after all
  entries that are not greater, the shape of the tree and the links of the leaves are kept, the use
  counts are as before, and every page that is changed is marked dirty.
\<close>

abbreviation "pg t \<equiv> buf (store t)"

definition node_of :: "int \<Rightarrow> int \<Rightarrow> ('k, 'v) tree \<Rightarrow> ('k, 'v) node" where
  "node_of l r T = (case T of Lf _ es \<Rightarrow> LeafN l r es | Nd _ cs \<Rightarrow> innerNode cs)"

definition full :: "bt_cfg \<Rightarrow> ('k, 'v) tree \<Rightarrow> bool" where
  "full c T = (case T of Lf _ es \<Rightarrow> entsPerLeaf c - 1 \<le> length es
     | Nd _ cs \<Rightarrow> entsPerInner c - 1 \<le> length cs - 1)"

lemma blockIsFull_node_of: "blockIsFull c (node_of l r T) = full c T"
  by (cases T) (auto simp: blockIsFull_def node_of_def full_def innerNode_def)

section \<open>State changes\<close>

text \<open>
  \<open>evo S D t t'\<close>: of the blocks that exist in \<open>t\<close> only those in \<open>S\<close> change more than their left
  link; blocks outside \<open>D\<close> that change are dirty.
\<close>

definition evo :: "int set \<Rightarrow> int set \<Rightarrow> ('k, 'v) btree \<Rightarrow> ('k, 'v) btree \<Rightarrow> bool" where
  "evo S D t t' \<longleftrightarrow> numBlocks t \<le> numBlocks t'
     \<and> (\<forall>b. b < numBlocks t \<longrightarrow> b \<notin> S \<longrightarrow> sim (pg t b) (pg t' b))
     \<and> (\<forall>b. dirty (store t) b \<longrightarrow> dirty (store t') b)
     \<and> (\<forall>b. b \<notin> D \<longrightarrow> pg t' b \<noteq> pg t b \<longrightarrow> dirty (store t') b)"

lemma evo_refl: "evo S D t t"
  by (simp add: evo_def)

lemma evo_mono: "evo S D t t' \<Longrightarrow> S \<subseteq> S' \<Longrightarrow> D \<subseteq> D' \<Longrightarrow> evo S' D' t t'"
  by (auto simp: evo_def)

lemma evo_trans:
  assumes "evo S D t t1" "evo S' D' t1 t2" "\<And>b. b \<in> S' \<Longrightarrow> b < numBlocks t \<Longrightarrow> b \<in> S"
    "\<And>b. b \<in> D \<Longrightarrow> b \<notin> D' \<Longrightarrow> dirty (store t2) b"
  shows "evo S D' t t2"
  unfolding evo_def
proof (intro conjI allI impI)
  show "numBlocks t \<le> numBlocks t2" using assms(1,2) by (simp add: evo_def)
next
  fix b assume "b < numBlocks t" "b \<notin> S"
  then have "sim (pg t b) (pg t1 b)" "sim (pg t1 b) (pg t2 b)"
    using assms(1,2,3) less_le_trans[of b "numBlocks t" "numBlocks t1"] unfolding evo_def by blast+
  then show "sim (pg t b) (pg t2 b)" by (rule sim_trans)
next
  fix b assume "dirty (store t) b"
  then show "dirty (store t2) b" using assms(1,2) by (simp add: evo_def)
next
  fix b assume "b \<notin> D'" "pg t2 b \<noteq> pg t b"
  then show "dirty (store t2) b" using assms(1,2,4) by (auto simp: evo_def) metis
qed

section \<open>A row of subtrees between leaves\<close>

text \<open>
  \<open>forest c h A ts Z t\<close>: the trees \<open>ts\<close>, all of height \<open>h\<close>, stand in the pages of \<open>t\<close>; \<open>A\<close> and \<open>Z\<close>
  are the leaf blocks before and after them. The blocks are pairwise distinct and allocated, the
  leaves are linked in order, and blocks that are not allocated yet are not in use.
\<close>

definition forest :: "bt_cfg \<Rightarrow> nat \<Rightarrow> int list \<Rightarrow> ('k, 'v) tree list \<Rightarrow> int list
    \<Rightarrow> ('k, 'v) btree \<Rightarrow> bool" where
  "forest c h A ts Z t \<longleftrightarrow>
     (\<forall>T \<in> set ts. repr (pg t) T \<and> wf_tree c h T)
   \<and> distinct (A @ fblocks ts @ Z)
   \<and> (\<forall>b \<in> set (A @ fblocks ts @ Z). 0 < b \<and> b < numBlocks t)
   \<and> chain (pg t) 0 (A @ fleaves ts @ Z)
   \<and> (\<forall>b \<ge> numBlocks t. use (store t) b = 0)"

lemma forestD:
  assumes "forest c h A ts Z t"
  shows "\<And>T. T \<in> set ts \<Longrightarrow> repr (pg t) T" "\<And>T. T \<in> set ts \<Longrightarrow> wf_tree c h T"
    "\<And>T. T \<in> set ts \<Longrightarrow> tents T \<noteq> []"
    "distinct (A @ fblocks ts @ Z)"
    "\<And>b. b \<in> set (A @ fblocks ts @ Z) \<Longrightarrow> 0 < b \<and> b < numBlocks t"
    "chain (pg t) 0 (A @ fleaves ts @ Z)"
    "\<And>b. numBlocks t \<le> b \<Longrightarrow> use (store t) b = 0"
  using assms wf_tents_nonempty by (auto simp: forest_def)

lemma distinct_sub_leaves:
  assumes "distinct (A @ fblocks cs1 @ xs @ fblocks cs2 @ Z)"
  shows "distinct ((A @ fleaves cs1) @ xs @ (fleaves cs2 @ Z))"
proof -
  have "distinct (fleaves cs1)" "distinct (fleaves cs2)"
    using assms by (auto intro: distinct_fleaves)
  then show ?thesis
    using assms fleaves_subset[of cs1] fleaves_subset[of cs2]
    by (simp add: distinct_append del: set_concat set_map) blast
qed

lemma forest_sub:
  assumes "forest c h A (cs1 @ ds @ cs2) Z t"
  shows "forest c h (A @ fleaves cs1) ds (fleaves cs2 @ Z) t"
proof -
  note F = forestD[OF assms]
  have "distinct ((A @ fleaves cs1) @ fblocks ds @ (fleaves cs2 @ Z))"
    using F(4) by (intro distinct_sub_leaves) simp
  moreover have "0 < b \<and> b < numBlocks t" if "b \<in> set ((A @ fleaves cs1) @ fblocks ds @ (fleaves cs2 @ Z))" for b
    using that F(5)[of b] fleaves_subset[of cs1] fleaves_subset[of cs2]
    by (simp del: set_concat set_map) blast
  ultimately show ?thesis using F by (simp add: forest_def)
qed

lemma distinct_replace:
  "distinct (A @ X @ D @ Y @ Z) \<Longrightarrow> distinct D' \<Longrightarrow> set D' \<subseteq> set D \<union> N \<Longrightarrow>
   N \<inter> (set A \<union> set X \<union> set Y \<union> set Z) = {} \<Longrightarrow> distinct (A @ X @ D' @ Y @ Z)"
  by (simp add: distinct_append) blast

lemma forest_replace:
  assumes F: "forest c h A (cs1 @ ds @ cs2) Z t"
    and F': "forest c h (A @ fleaves cs1) ds' (fleaves cs2 @ Z) t'"
    and evo: "evo S D t t'" "S \<inter> set (fblocks cs1) = {}" "S \<inter> set (fblocks cs2) = {}"
    and sub: "set (fblocks ds') \<subseteq> set (fblocks ds) \<union> {numBlocks t..}"
  shows "forest c h A (cs1 @ ds' @ cs2) Z t'"
proof -
  note F1 = forestD[OF F] and F2 = forestD[OF F']
  have le: "numBlocks t \<le> numBlocks t'" using evo(1) by (simp add: evo_def)
  have keep: "repr (pg t') T \<and> wf_tree c h T" if "T \<in> set cs1 \<union> set cs2" for T
  proof -
    have "repr (pg t) T" "wf_tree c h T" using F1(1,2) that by auto
    moreover have "sim (pg t b) (pg t' b)" if "b \<in> set (tblocks T)" for b
    proof -
      have mem: "b \<in> set (fblocks cs1) \<union> set (fblocks cs2)" using that \<open>T \<in> _\<close> by auto
      then have "b < numBlocks t" using F1(5)[of b] by auto
      moreover have "b \<notin> S" using mem evo(2,3) by (simp del: set_concat set_map) blast
      ultimately show ?thesis using evo(1) by (simp add: evo_def)
    qed
    ultimately show ?thesis using repr_sim by blast
  qed
  have lo: "b < numBlocks t" if "b \<in> set A \<union> set (fblocks cs1) \<union> set (fblocks cs2) \<union> set Z" for b
    using that F1(5)[of b] by auto
  have "distinct (A @ fblocks cs1 @ fblocks ds' @ fblocks cs2 @ Z)"
  proof (rule distinct_replace[OF _ _ sub])
    show "distinct (A @ fblocks cs1 @ fblocks ds @ fblocks cs2 @ Z)" using F1(4) by simp
    show "distinct (fblocks ds')" using F2(4) by simp
    show "{numBlocks t..} \<inter> (set A \<union> set (fblocks cs1) \<union> set (fblocks cs2) \<union> set Z) = {}"
      using lo by fastforce
  qed
  moreover have "0 < b \<and> b < numBlocks t'" if "b \<in> set (A @ fblocks cs1 @ fblocks ds' @ fblocks cs2 @ Z)" for b
    using that F1(5)[of b] F2(5)[of b] le by fastforce
  ultimately show ?thesis using F2 keep by (auto simp: forest_def)
qed

lemma forest_store_cong:
  assumes "forest c h A ts Z t" "pg t' = pg t" "numBlocks t' = numBlocks t"
    "\<And>b. numBlocks t \<le> b \<Longrightarrow> use (store t') b = 0"
  shows "forest c h A ts Z t'"
  using assms by (simp add: forest_def)

text \<open>Pages outside the forest may change freely, as long as they hold no leaf of the chain.\<close>

lemma forest_upd_other:
  assumes "forest c h A ts Z t" "p \<notin> set (A @ fblocks ts @ Z)"
    "pg t' = (pg t)(p \<mapsto> nd)" "numBlocks t \<le> numBlocks t'"
    "\<And>b. numBlocks t' \<le> b \<Longrightarrow> use (store t') b = 0"
  shows "forest c h A ts Z t'"
proof -
  note F = forestD[OF assms(1)]
  have "repr (pg t') T" if "T \<in> set ts" for T
    by (rule repr_sim[OF F(1)[OF that]]) (use assms(2,3) that in auto)
  moreover have p: "p \<notin> set (A @ fleaves ts @ Z)"
    using assms(2) fleaves_subset[of ts] by (simp del: set_concat set_map) blast
  have "chain (pg t') 0 (A @ fleaves ts @ Z)"
  proof (rule chain_cong[OF F(6)])
    fix b l r es assume "b \<in> set (A @ fleaves ts @ Z)" "pg t b = Some (LeafN l r es)"
    moreover from this p have "b \<noteq> p" by blast
    ultimately show "\<exists>es'. pg t' b = Some (LeafN l r es')" by (simp add: assms(3))
  qed
  moreover have "0 < b \<and> b < numBlocks t'" if "b \<in> set (A @ fblocks ts @ Z)" for b
    using F(5)[OF that] assms(4) by simp
  ultimately show ?thesis using F assms(5) by (simp add: forest_def)
qed

section \<open>Splitting\<close>

text \<open>The outcome of splitting the tree \<open>d\<close> at block \<open>blk d\<close>: two trees in its place.\<close>

definition split_result :: "bt_cfg \<Rightarrow> nat \<Rightarrow> int list \<Rightarrow> ('k, 'v) tree \<Rightarrow> int list \<Rightarrow> ('k, 'v) btree
    \<Rightarrow> 'k \<times> int \<times> ('k, 'v) btree \<Rightarrow> ('k, 'v) tree \<Rightarrow> ('k, 'v) tree \<Rightarrow> bool" where
  "split_result c h A d Z t res dl dr \<longleftrightarrow> (case res of (key, n, t1) \<Rightarrow>
     n = numBlocks t \<and> numBlocks t1 = n + 1 \<and> rootBlock t1 = rootBlock t \<and> depth t1 = depth t
   \<and> use (store t1) = use (store t)
   \<and> forest c h A [dl, dr] Z t1 \<and> evo (set (tblocks d)) {blk d} t t1
   \<and> blk dl = blk d \<and> blk dr = n \<and> key = lastkey dl \<and> lastkey dr = lastkey d
   \<and> tents dl @ tents dr = tents d
   \<and> set (fblocks [dl, dr]) = insert n (set (tblocks d))
   \<and> \<not> full c dl \<and> \<not> full c dr)"

lemma use_restore [simp]: "u n = 0 \<Longrightarrow> u(n := 0) = u"
  "u(z := u z) = u"
  by auto

lemma splitLeaf_result:
  assumes F: "forest c h A [Lf b es] Z t" and fl: "full c (Lf b es)"
    and E: "4 \<le> entsPerLeaf c" and u: "0 < use (store t) b"
  shows "\<exists>res. splitLeaf c b t = Inr res \<and> split_result c h A (Lf b es) Z t res
     (Lf b (take (length es div 2) es)) (Lf (numBlocks t) (drop (length es div 2) es))"
proof -
  define n where "n = numBlocks t"
  define m where "m = length es div 2"
  note FD = forestD[OF F]
  have len: "length es = entsPerLeaf c - 1" "es \<noteq> []" "h = 0"
    using FD(2)[of "Lf b es"] fl by (auto simp: full_def)
  then have m: "0 < m" "0 < length es - m" "m < entsPerLeaf c - 1" "length es - m < entsPerLeaf c - 1" "m < length es"
    using E by (auto simp: m_def)
  obtain l r where Bb: "pg t b = Some (LeafN l r es)" using FD(1)[of "Lf b es"] by auto
  have ch: "chain (pg t) 0 (A @ b # Z)" using FD(6) by simp
  have lr: "l = last (0 # A)" "r = hd (Z @ [0])" using chain_links[OF ch] Bb by auto
  have dist: "distinct (A @ b # Z)" using FD(4) by simp
  have bnd: "0 < x \<and> x < n" if "x \<in> set (A @ b # Z)" for x using FD(5)[of x] that by (auto simp: n_def)
  have un: "use (store t) n = 0" using FD(7) by (simp add: n_def)
  have nz: "n \<notin> set (A @ b # Z)" using bnd by fastforce
  have bn: "b \<noteq> n" "b < n" "0 < b" "0 < n" using bnd[of b] by auto
  let ?B = "(pg t)(b \<mapsto> LeafN l n (take m es), n \<mapsto> LeafN b r (drop m es))"
  obtain B' D' where res: "splitLeaf c b t = Inr (fst (es ! (m - 1)), n,
       t\<lparr>store := \<lparr>buf = B', use = use (store t), dirty = D'\<rparr>, numBlocks := n + 1\<rparr>)"
    and B': "B' b = ?B b" "B' n = ?B n" "\<And>x. x \<notin> {b, n} \<union> set (take 1 Z) \<Longrightarrow> B' x = pg t x"
      "\<And>y ys' l r es. Z = y # ys' \<Longrightarrow> pg t y = Some (LeafN l r es) \<Longrightarrow> B' y = Some (LeafN n r es)"
    and D': "D' n" "\<And>x. dirty (store t) x \<Longrightarrow> D' x" "\<And>x. x \<in> set (take 1 Z) \<Longrightarrow> D' x"
  proof (cases Z)
    case Nil
    then have "r = 0" using lr by simp
    show ?thesis
      by (rule that[of ?B "(dirty (store t))(n := True)"])
        (use m bn u un Bb Nil \<open>r = 0\<close> in \<open>simp_all add: splitLeaf_def allocBlock_def Let_def onStore_def
          store_ops m_def[symmetric] n_def[symmetric]\<close>)
  next
    case (Cons z Z')
    then have rz: "r = z" "z \<noteq> 0" "z \<noteq> b" "z \<noteq> n" using lr bnd[of z] dist nz by auto
    obtain lz rz' ez where Bz: "pg t z = Some (LeafN lz rz' ez)" using chain_leaf[OF ch, of z] Cons by auto
    show ?thesis
      by (rule that[of "?B(z \<mapsto> LeafN n rz' ez)" "(dirty (store t))(n := True, z := True)"])
        (use m bn u un Bb Cons rz Bz in \<open>simp_all add: splitLeaf_def allocBlock_def Let_def onStore_def
          store_ops setLeftLink_def m_def[symmetric] n_def[symmetric]\<close>)
  qed
  let ?t1 = "t\<lparr>store := \<lparr>buf = B', use = use (store t), dirty = D'\<rparr>, numBlocks := n + 1\<rparr>"
  let ?dl = "Lf b (take m es)" and ?dr = "Lf n (drop m es)"
  have "chain B' 0 (A @ b # n # Z)"
  proof (rule chain_split[OF ch dist nz])
    show "B' b = Some (LeafN (last (0 # A)) n (take m es))" using B'(1) lr bn by simp
    show "B' n = Some (LeafN b (hd (Z @ [0])) (drop m es))" using B'(2) lr by simp
    show "B' x = pg t x" if "x \<in> set A \<union> set (tl Z)" for x
      using that dist nz by (intro B'(3)) (cases Z; auto)
  qed (use B'(4) in blast)
  then have forest: "forest c h A [?dl, ?dr] Z ?t1"
    using m len FD(2)[of "Lf b es"] dist nz bnd B'(1,2) bn FD(7)
    by (auto simp: forest_def n_def[symmetric] intro: less_trans dest: less_imp_le)
  have "evo {b} {b} t ?t1"
    unfolding evo_def
  proof (intro conjI allI impI)
    fix x assume "x < numBlocks t" "x \<notin> {b}"
    show "sim (pg t x) (pg ?t1 x)"
    proof (cases "x \<in> set (take 1 Z)")
      case True
      then obtain Z' where "Z = x # Z'" by (cases Z) auto
      moreover from this obtain l' r' e' where "pg t x = Some (LeafN l' r' e')"
        using chain_leaf[OF ch, of x] by auto
      ultimately show ?thesis using B'(4) by (auto simp: sim_def)
    next
      case False
      then show ?thesis using B'(3)[of x] \<open>x \<notin> {b}\<close> \<open>x < numBlocks t\<close> by (simp add: n_def)
    qed
  next
    fix x assume "x \<notin> {b}" "pg ?t1 x \<noteq> pg t x"
    then show "dirty (store ?t1) x" using D'(1,3) B'(3)[of x] by auto
  qed (use D' in \<open>auto simp: n_def\<close>)
  moreover have "fst (es ! (m - 1)) = lastkey ?dl" "lastkey ?dr = lastkey (Lf b es)"
    using m by (simp_all add: lastkey_def last_take_nth)
  moreover have "\<not> full c ?dl" "\<not> full c ?dr"
    using m by (simp_all add: full_def)
  ultimately show ?thesis
    using forest res unfolding m_def[symmetric] n_def[symmetric]
    by (intro exI[of _ "(fst (es ! (m - 1)), n, ?t1)"]) (simp add: split_result_def n_def insert_commute)
qed

lemma splitInner_result:
  assumes F: "forest c h A [Nd b cs] Z t" and fl: "full c (Nd b cs)"
    and E: "4 \<le> entsPerInner c" and u: "0 < use (store t) b"
  shows "\<exists>res dl dr. splitInner c b t = Inr res \<and> split_result c h A (Nd b cs) Z t res dl dr"
proof -
  define n where "n = numBlocks t"
  define m where "m = length (seps cs) div 2"
  note FD = forestD[OF F]
  obtain h' where h: "h = Suc h'" and wfc: "\<And>T. T \<in> set cs \<Longrightarrow> wf_tree c h' T"
    using FD(2)[of "Nd b cs"] by (cases h) auto
  have len: "length cs = entsPerInner c" using FD(2)[of "Nd b cs"] fl E by (auto simp: full_def)
  then have m: "0 < m" "0 < length cs - 1 - m - 1" "m < entsPerInner c - 2"
      "length cs - 1 - m - 1 < entsPerInner c - 1" "Suc m < length cs"
    using E by (auto simp: m_def)
  let ?L = "take (Suc m) cs" and ?R = "drop (Suc m) cs"
  let ?dl = "Nd b ?L" and ?dr = "Nd n ?R"
  have LR: "?L @ ?R = cs" by simp
  have Bb: "pg t b = Some (InnerN (blk (hd cs)) (seps cs))"
    using FD(1)[of "Nd b cs"] by (simp add: innerNode_def)
  have bnd: "0 < x \<and> x < n" if "x \<in> set (A @ b # fblocks cs @ Z)" for x
    using FD(5)[of x] that by (simp add: n_def)
  have un: "use (store t) n = 0" using FD(7) by (simp add: n_def)
  have bn: "b \<noteq> n" "b < n" "0 < b" "0 < n" using bnd[of b] by auto
  have nz: "n \<notin> set (A @ b # fblocks cs @ Z)" using bnd by fastforce
  have bz: "b \<notin> set (A @ fblocks cs @ Z)" using FD(4) by auto
  define B' where "B' = (pg t)(b \<mapsto> innerNode ?L, n \<mapsto> innerNode ?R)"
  define t1 where "t1 = t\<lparr>store := \<lparr>buf = B', use = use (store t), dirty = (dirty (store t))(n := True)\<rparr>,
      numBlocks := n + 1\<rparr>"
  have nodes: "InnerN (blk (hd cs)) (take m (seps cs)) = innerNode ?L"
    "InnerN (snd (seps cs ! m)) (drop (m + 1) (seps cs)) = innerNode ?R"
    using m by (simp_all add: innerNode_def seps_take seps_drop seps_nth hd_drop_conv_nth)
  have mm: "(length cs - Suc 0) div 2 = m" by (simp add: m_def)
  have res: "splitInner c b t = Inr (fst (seps cs ! m), n, t1)"
    unfolding splitInner_def t1_def B'_def
    using m bn u un Bb nodes
    by (simp add: allocBlock_def Let_def onStore_def store_ops mm n_def[symmetric])
  have other: "B' x = pg t x" if "x \<noteq> b" "x \<noteq> n" for x using that by (simp add: B'_def)
  have reprc: "repr B' T" if "T \<in> set cs" for T
  proof (rule repr_sim)
    show "repr (pg t) T" using FD(1)[of "Nd b cs"] that by simp
    show "sim (pg t x) (B' x)" if "x \<in> set (tblocks T)" for x
      using that \<open>T \<in> set cs\<close> bz nz by (subst other) auto
  qed
  have fl_sub: "x \<noteq> b \<and> x \<noteq> n" if "x \<in> set (A @ fleaves cs @ Z)" for x
    using that bz nz fleaves_subset[of cs] by (simp del: set_concat set_map) blast
  have "chain B' 0 (A @ fleaves cs @ Z)"
  proof (rule chain_cong)
    show "chain (pg t) 0 (A @ fleaves cs @ Z)" using FD(6) by simp
    show "\<exists>es'. B' x = Some (LeafN l r es')"
      if "x \<in> set (A @ fleaves cs @ Z)" "pg t x = Some (LeafN l r es)" for x l r es
      using fl_sub[OF that(1)] that(2) by (simp add: other)
  qed
  then have chain: "chain (pg t1) 0 (A @ fleaves [?dl, ?dr] @ Z)"
    by (simp add: t1_def flip: append_assoc map_append concat_append)
  have blocks: "fblocks [?dl, ?dr] = b # fblocks ?L @ n # fblocks ?R" by simp
  have fLR: "fblocks ?L @ fblocks ?R = fblocks cs" by (simp flip: map_append concat_append)
  have perm: "distinct (xs @ (b # us @ n # vs) @ ys)"
    if "distinct (xs @ (b # us @ vs) @ ys)" "n \<notin> set (xs @ (b # us @ vs) @ ys)" for xs us vs ys :: "int list"
    using that by auto
  have "distinct (A @ fblocks [?dl, ?dr] @ Z)"
    unfolding blocks using FD(4) nz fLR by (intro perm) simp_all
  moreover have sets: "set (fblocks [?dl, ?dr]) = insert n (set (tblocks (Nd b cs)))"
    unfolding blocks tblocks.simps fLR[symmetric] by auto
  moreover have "0 < x \<and> x < n + 1" if "x \<in> set (A @ fblocks [?dl, ?dr] @ Z)" for x
  proof (cases "x = n")
    case False
    then have "x \<in> set (A @ b # fblocks cs @ Z)" using that unfolding set_append sets by simp
    then show ?thesis using bnd[of x] by simp
  qed (use bn in simp)
  moreover have "repr B' T \<and> wf_tree c h T" if "T \<in> set [?dl, ?dr]" for T
  proof -
    have "\<forall>T \<in> set ?L \<union> set ?R. repr B' T \<and> wf_tree c h' T"
      using reprc wfc in_set_takeD[of _ "Suc m" cs] in_set_dropD[of _ "Suc m" cs] by blast
    then show ?thesis using that m len h bn by (auto simp: B'_def)
  qed
  ultimately have forest: "forest c h A [?dl, ?dr] Z t1"
    using chain FD(7) unfolding forest_def by (simp add: t1_def n_def)
  have "evo (set (tblocks (Nd b cs))) {b} t t1"
    using other by (auto simp: evo_def t1_def n_def B'_def)
  moreover have "fst (seps cs ! m) = lastkey ?dl"
  proof -
    have "?L = take m cs @ [cs ! m]" using m by (simp add: take_Suc_conv_app_nth)
    moreover have "tents (cs ! m) \<noteq> []" using wf_tents_nonempty[OF wfc[of "cs ! m"]] m by simp
    ultimately show ?thesis using m by (simp add: lastkey_Nd seps_nth)
  qed
  moreover have fe: "tents ?dl @ tents ?dr = tents (Nd b cs)" by (simp flip: map_append concat_append)
  moreover have "lastkey ?dr = lastkey (Nd b cs)"
    using fe forestD(3)[OF forest, of ?dr] unfolding lastkey_def by (metis last_appendR list.set_intros)
  moreover have "\<not> full c ?dl" "\<not> full c ?dr" using m len by (auto simp: full_def)
  ultimately show ?thesis
    using res forest sets
    by (intro exI[of _ "(fst (seps cs ! m), n, t1)"] exI[of _ ?dl] exI[of _ ?dr])
      (simp add: split_result_def t1_def n_def)
qed

section \<open>One step of the descent\<close>

lemma repr_node: "repr B T \<Longrightarrow> \<exists>l r. B (blk T) = Some (node_of l r T)"
  by (cases T) (auto simp: node_of_def)

lemma forest_Nd:
  "forest c (Suc h) A [Nd p cs] Z t \<longleftrightarrow>
     forest c h A cs Z t \<and> pg t p = Some (innerNode cs) \<and> p \<notin> set (A @ fblocks cs @ Z)
   \<and> 0 < p \<and> p < numBlocks t \<and> 2 \<le> length cs \<and> length cs \<le> entsPerInner c"
  unfolding forest_def by auto

text \<open>A key falls into the child that the lower bound selects.\<close>

definition selects :: "('k \<Rightarrow> 'k \<Rightarrow> int) \<Rightarrow> 'k \<Rightarrow> ('k, 'v) tree list \<Rightarrow> ('k, 'v) tree
    \<Rightarrow> ('k, 'v) tree list \<Rightarrow> bool" where
  "selects kcmp k cs1 d cs2 \<longleftrightarrow> (\<forall>e \<in> set (fents cs1). kcmp (fst e) k \<le> 0)
     \<and> (cs2 \<noteq> [] \<longrightarrow> 0 < kcmp (lastkey d) k)"

abbreviation addUse :: "int \<Rightarrow> ('k, 'v) btree \<Rightarrow> ('k, 'v) btree" where
  "addUse b t \<equiv> t\<lparr>store := (store t)\<lparr>use := (use (store t))(b := Suc (use (store t) b))\<rparr>\<rparr>"

lemma selects_unique:
  assumes sel: "selects kcmp k cs1 c0 cs2" and sel': "selects kcmp k cs1' d cs2'"
    and eq: "cs1 @ dl # dr # cs2 = cs1' @ d # cs2'" and lk: "lastkey dr = lastkey c0"
    and ne: "\<And>T. T \<in> set (cs1 @ dl # dr # cs2) \<Longrightarrow> tents T \<noteq> []"
  shows "d = dl \<or> d = dr"
proof -
  have last: "kcmp (lastkey T) k \<le> 0" if "T \<in> set us" "tents T \<noteq> []"
      "\<forall>e \<in> set (fents us). kcmp (fst e) k \<le> 0" for T us
    using that by (auto simp: lastkey_def dest!: bspec[of _ _ T])
  show ?thesis
  proof (rule ccontr)
    assume neq: "\<not> ?thesis"
    from eq consider us where "cs1 = cs1' @ d # us" | us where "cs1' = cs1 @ dl # dr # us" "cs2 = us @ d # cs2'"
      using neq by (auto simp: append_eq_append_conv2 append_eq_Cons_conv Cons_eq_append_conv)
    then show False
    proof cases
      case 1
      then have "cs2' \<noteq> []" using eq by (auto dest: arg_cong[of _ _ length])
      then have "0 < kcmp (lastkey d) k" using sel' by (simp add: selects_def)
      moreover have "kcmp (lastkey d) k \<le> 0" using 1 sel ne[of d] by (intro last[of d cs1]) (auto simp: selects_def)
      ultimately show False by simp
    next
      case 2
      then have "0 < kcmp (lastkey dr) k" using sel lk by (simp add: selects_def)
      moreover have "kcmp (lastkey dr) k \<le> 0" using 2 sel' ne[of dr] by (intro last[of dr cs1']) (auto simp: selects_def)
      ultimately show False by simp
    qed
  qed
qed

lemma split_block_result:
  assumes F: "forest c h A [d] Z t" and fl: "full c d" and cfg: "cfg_ok c"
    and u: "0 < use (store t) (blk d)"
  shows "\<exists>key n t1 dl dr. split_result c h A d Z t (key, n, t1) dl dr
     \<and> (\<forall>par i. split_block c par i (blk d) t = fixParent c par i (blk d) key n t1)"
proof -
  obtain l r where nd: "pg t (blk d) = Some (node_of l r d)" using repr_node[OF forestD(1)[OF F]] by auto
  have E: "4 \<le> entsPerLeaf c" "4 \<le> entsPerInner c" using cfg by (auto simp: cfg_ok_def)
  show ?thesis
  proof (cases d)
    case (Lf b es)
    from splitLeaf_result[of c h A b es Z t] F fl u E Lf
    obtain key n t1 dl dr where "splitLeaf c b t = Inr (key, n, t1)" "split_result c h A d Z t (key, n, t1) dl dr"
      by auto
    then show ?thesis using nd u fl Lf
      by (intro exI[of _ key] exI[of _ n] exI[of _ t1] exI[of _ dl] exI[of _ dr])
        (simp add: split_block_def peek_page_def blockIsFull_node_of[of c l r d, simplified Lf, symmetric] node_of_def)
  next
    case (Nd b cs)
    from splitInner_result[of c h A b cs Z t] F fl u E Nd
    obtain key n t1 dl dr where "splitInner c b t = Inr (key, n, t1)" "split_result c h A d Z t (key, n, t1) dl dr"
      by auto
    then show ?thesis using nd u fl Nd
      by (intro exI[of _ key] exI[of _ n] exI[of _ t1] exI[of _ dl] exI[of _ dr])
        (simp add: split_block_def peek_page_def blockIsFull_node_of[of c l r d, simplified Nd, symmetric]
          node_of_def innerNode_def)
  qed
qed

context key_order
begin

lemma readBlock_child:
  assumes F: "forest c (Suc h) A [Nd p cs] Z t" and u: "0 < use (store t) p"
    and srt: "sorted_ents kcmp (fents cs)"
  shows "\<exists>cs1 d cs2 l r. cs = cs1 @ d # cs2 \<and> selects kcmp k cs1 d cs2
     \<and> pg t (blk d) = Some (node_of l r d)
     \<and> readBlock (\<lambda>e. kcmp e k) (Some p) t = Inr (int (length cs1) - 1, blk d, node_of l r d, addUse (blk d) t)"
proof -
  have Fc: "forest c h A cs Z t" and pp: "pg t p = Some (innerNode cs)" and "2 \<le> length cs"
    using F by (auto simp: forest_Nd)
  then have "cs \<noteq> []" by auto
  show ?thesis
  proof (rule lowerBound_child[OF srt forestD(3)[OF Fc] \<open>cs \<noteq> []\<close>, where k = k])
  fix cs1 d cs2 assume s: "cs = cs1 @ d # cs2"
    "lowerBoundLoop (\<lambda>e. kcmp e k) (map fst (seps cs)) (length (seps cs)) = int (length cs1) - 1"
    "\<And>e. e \<in> set (fents cs1) \<Longrightarrow> kcmp (fst e) k \<le> 0" "cs2 \<noteq> [] \<Longrightarrow> 0 < kcmp (lastkey d) k"
  obtain l r where nd: "pg t (blk d) = Some (node_of l r d)"
    using repr_node[OF forestD(1)[OF Fc, of d]] s(1) by auto
  have "lowerBoundInner (\<lambda>e. kcmp e k) (innerNode cs) = Inr (int (length cs1) - 1)"
    using s(2) by (simp add: lowerBoundInner_def innerNode_def)
  moreover have "innerRef (innerNode cs) (int (length cs1) - 1) = Inr (blk d)"
    unfolding s(1) by (rule innerRef_innerNode)
  ultimately have "readBlock (\<lambda>e. kcmp e k) (Some p) t
      = Inr (int (length cs1) - 1, blk d, node_of l r d, addUse (blk d) t)"
    using pp u nd by (simp add: readBlock_def peek_page_def read_page_def)
  then show ?thesis using s nd unfolding selects_def by blast
  qed
qed

end

section \<open>Splitting below a parent\<close>

text \<open>Splitting a full child \<open>c0\<close> of a parent with room, with the page-cache calls of \<open>insert\<close>
  around it: the parent then has the two halves as children.\<close>

definition split_child :: "bt_cfg \<Rightarrow> int \<Rightarrow> int \<Rightarrow> int \<Rightarrow> ('k, 'v) btree \<Rightarrow> ('k, 'v) btree res" where
  "split_child c p i b t =
     res_bind (split_block c (Some p) i b t) (\<lambda>t.
     res_bind (writeParent (Some p) t) (\<lambda>t.
     res_bind (onStore (write_page b) t) (\<lambda>t.
     onStore (release_page b) t)))"

lemma split_child_result:
  assumes F: "forest c (Suc h) A [Nd p (cs1 @ c0 # cs2)] Z t" and fl: "full c c0" and cfg: "cfg_ok c"
    and nf: "\<not> full c (Nd p (cs1 @ c0 # cs2))" and u: "0 < use (store t) p"
  shows "\<exists>t2 dl dr. split_child c p (int (length cs1) - 1) (blk c0) (addUse (blk c0) t) = Inr t2
     \<and> forest c (Suc h) A [Nd p (cs1 @ dl # dr # cs2)] Z t2
     \<and> lastkey dr = lastkey c0 \<and> tents dl @ tents dr = tents c0 \<and> \<not> full c dl \<and> \<not> full c dr
     \<and> set (fblocks [dl, dr]) = insert (numBlocks t) (set (tblocks c0))
     \<and> evo (insert p (set (tblocks c0))) {} t t2 \<and> use (store t2) = use (store t)
     \<and> rootBlock t2 = rootBlock t \<and> depth t2 = depth t"
proof -
  let ?cs = "cs1 @ c0 # cs2" and ?t0 = "addUse (blk c0) t"
  have Fc: "forest c h A ?cs Z t" and pp: "pg t p = Some (innerNode ?cs)"
    and pn: "p \<notin> set (A @ fblocks ?cs @ Z)" and p: "0 < p" "p < numBlocks t"
    and lcs: "2 \<le> length ?cs" "length ?cs < entsPerInner c"
    using F nf by (auto simp: forest_Nd full_def)
  have b: "0 < blk c0" "blk c0 < numBlocks t" "blk c0 \<noteq> p"
    using forestD(5)[OF Fc, of "blk c0"] pn blk_in_tblocks[of c0] by auto
  have F0: "forest c h A ?cs Z ?t0"
    using forestD(7)[OF Fc] b by (intro forest_store_cong[OF Fc]) auto
  have F1: "forest c h (A @ fleaves cs1) [c0] (fleaves cs2 @ Z) ?t0"
    using forest_sub[of c h A cs1 "[c0]" cs2 Z ?t0] F0 by simp
  obtain key n t1 dl dr where
    sr: "split_result c h (A @ fleaves cs1) c0 (fleaves cs2 @ Z) ?t0 (key, n, t1) dl dr"
    and sb: "\<And>par i. split_block c par i (blk c0) ?t0 = fixParent c par i (blk c0) key n t1"
    using split_block_result[OF F1 fl cfg] by auto
  have S: "n = numBlocks t" "numBlocks t1 = n + 1" "rootBlock t1 = rootBlock t" "depth t1 = depth t"
    "use (store t1) = use (store ?t0)" "forest c h (A @ fleaves cs1) [dl, dr] (fleaves cs2 @ Z) t1"
    "evo (set (tblocks c0)) {blk c0} ?t0 t1" "blk dl = blk c0" "blk dr = n" "key = lastkey dl"
    "lastkey dr = lastkey c0" "tents dl @ tents dr = tents c0"
    "set (fblocks [dl, dr]) = insert n (set (tblocks c0))" "\<not> full c dl" "\<not> full c dr"
    using sr by (auto simp: split_result_def)
  let ?cs' = "cs1 @ dl # dr # cs2"
  have dis: "set (tblocks c0) \<inter> set (fblocks cs1) = {}" "set (tblocks c0) \<inter> set (fblocks cs2) = {}"
    using forestD(4)[OF Fc] by (auto simp del: set_concat set_map)
  have F2: "forest c h A ?cs' Z t1"
  proof -
    have "set (fblocks [dl, dr]) \<subseteq> set (fblocks [c0]) \<union> {numBlocks ?t0..}"
      unfolding S(13) S(1) by auto
    then show ?thesis
      using forest_replace[of c h A cs1 "[c0]" cs2 Z ?t0 "[dl, dr]" t1 "set (tblocks c0)" "{blk c0}"]
        F0 S(6,7) dis by simp
  qed
  have p_sim: "pg t1 p = Some (innerNode ?cs)"
  proof -
    have "p \<notin> set (tblocks c0)" using pn by auto
    then have "sim (pg ?t0 p) (pg t1 p)" using S(7) p unfolding evo_def by auto
    then show ?thesis using pp sim_InnerN by (auto simp: innerNode_def)
  qed
  let ?t2 = "t1\<lparr>store := \<lparr>buf = (pg t1)(p \<mapsto> innerNode ?cs'), use = use (store t),
      dirty = (dirty (store t1))(p := True, blk c0 := True)\<rparr>\<rparr>"
  have nat1: "nat (int (length cs1) - 1 + 1) = length cs1" by simp
  have ins: "insertAtInnerR (nat (int (length cs1) - 1 + 1)) key n (innerNode ?cs) = Inr (innerNode ?cs')"
    unfolding nat1 using seps_split[of dl c0 dr cs1 cs2] S(8-11)
    by (cases cs1) (simp_all add: insertAtInnerR_def innerNode_def)
  have "split_child c p (int (length cs1) - 1) (blk c0) ?t0 = Inr ?t2"
    using p_sim ins u b lcs S(5)
    by (simp add: split_child_def sb fixParent_def writeParent_def onStore_def store_ops innerNode_def)
  moreover have "forest c h A ?cs' Z ?t2"
  proof (rule forest_upd_other[OF F2])
    have "p \<notin> set (fblocks [dl, dr])" using S(1,13) pn p by auto
    then show "p \<notin> set (A @ fblocks ?cs' @ Z)" using pn by auto
  qed (use forestD(7)[OF Fc] S(1,2) in auto)
  then have "forest c (Suc h) A [Nd p ?cs'] Z ?t2"
    unfolding forest_Nd using pn p S(1,2,13) lcs
    by auto
  moreover have "evo (insert p (set (tblocks c0))) {} t ?t2"
  proof (rule evo_trans)
    show "evo (insert p (set (tblocks c0))) {blk c0} t t1"
      using S(7) unfolding evo_def by auto
    show "evo {p} {} t1 ?t2" unfolding evo_def by auto
  qed auto
  ultimately show ?thesis using S by (intro exI[of _ ?t2] exI[of _ dl] exI[of _ dr]) simp
qed

context key_order
begin

lemma maybeSplitBlock_child:
  assumes F: "forest c (Suc h) A [Nd p cs] Z t" and cfg: "cfg_ok c"
    and nf: "\<not> full c (Nd p cs)" and u: "0 < use (store t) p" and srt: "sorted_ents kcmp (fents cs)"
  shows "\<exists>t2 cs1 d cs2 l r.
     maybeSplitBlock c (\<lambda>e. kcmp e k) (Some p) t = Inr (blk d, node_of l r d, addUse (blk d) t2)
   \<and> pg t2 (blk d) = Some (node_of l r d)
   \<and> forest c (Suc h) A [Nd p (cs1 @ d # cs2)] Z t2 \<and> fents (cs1 @ d # cs2) = fents cs
   \<and> selects kcmp k cs1 d cs2 \<and> \<not> full c d
   \<and> set (fblocks (cs1 @ d # cs2)) \<subseteq> set (fblocks cs) \<union> {numBlocks t..}
   \<and> evo (insert p (set (fblocks cs))) {} t t2 \<and> use (store t2) = use (store t)
   \<and> rootBlock t2 = rootBlock t \<and> depth t2 = depth t"
proof -
  obtain cs1 c0 cs2 l r where s: "cs = cs1 @ c0 # cs2" "selects kcmp k cs1 c0 cs2"
    and nd: "pg t (blk c0) = Some (node_of l r c0)"
    and rb: "readBlock (\<lambda>e. kcmp e k) (Some p) t
      = Inr (int (length cs1) - 1, blk c0, node_of l r c0, addUse (blk c0) t)"
    using readBlock_child[OF F u srt, of k] by blast
  show ?thesis
  proof (cases "full c c0")
    case False
    then show ?thesis using s rb F nd
      by (intro exI[of _ t] exI[of _ cs1] exI[of _ c0] exI[of _ cs2] exI[of _ l] exI[of _ r])
        (auto simp: maybeSplitBlock_def blockIsFull_node_of evo_refl)
  next
    case True
    obtain t2 dl dr where sc: "split_child c p (int (length cs1) - 1) (blk c0) (addUse (blk c0) t) = Inr t2"
      and R: "forest c (Suc h) A [Nd p (cs1 @ dl # dr # cs2)] Z t2"
        "lastkey dr = lastkey c0" "tents dl @ tents dr = tents c0" "\<not> full c dl" "\<not> full c dr"
        "set (fblocks [dl, dr]) = insert (numBlocks t) (set (tblocks c0))"
        "evo (insert p (set (tblocks c0))) {} t t2" "use (store t2) = use (store t)"
        "rootBlock t2 = rootBlock t" "depth t2 = depth t"
      using split_child_result[of c h A p cs1 c0 cs2 Z t] F True cfg nf u s(1) by auto
    let ?cs' = "cs1 @ dl # dr # cs2"
    have fe: "fents ?cs' = fents cs" using R(3) s(1) by simp
    obtain cs1' d cs2' l' r' where s': "?cs' = cs1' @ d # cs2'" "selects kcmp k cs1' d cs2'"
      and nd': "pg t2 (blk d) = Some (node_of l' r' d)"
      and rb': "readBlock (\<lambda>e. kcmp e k) (Some p) t2
        = Inr (int (length cs1') - 1, blk d, node_of l' r' d, addUse (blk d) t2)"
      using readBlock_child[OF R(1), of k] u R(8) srt fe by metis
    have Fc': "forest c h A ?cs' Z t2" using R(1) by (simp add: forest_Nd)
    have d: "d = dl \<or> d = dr"
      by (rule selects_unique[OF s(2) s'(2) s'(1) R(2) forestD(3)[OF Fc']])
    have nfd: "\<not> full c d" using d R(4,5) by auto
    have "maybeSplitBlock c (\<lambda>e. kcmp e k) (Some p) t = Inr (blk d, node_of l' r' d, addUse (blk d) t2)"
    proof -
      from sc obtain t3 t4 t5 where "split_block c (Some p) (int (length cs1) - 1) (blk c0) (addUse (blk c0) t) = Inr t3"
        "writeParent (Some p) t3 = Inr t4" "onStore (write_page (blk c0)) t4 = Inr t5"
        "onStore (release_page (blk c0)) t5 = Inr t2"
        unfolding split_child_def by (auto simp: res_bind_Inr_conv)
      then show ?thesis using rb rb' True nfd by (simp add: maybeSplitBlock_def blockIsFull_node_of)
    qed
    moreover have "set (fblocks ?cs') \<subseteq> set (fblocks cs) \<union> {numBlocks t..}"
    proof -
      have "set (tblocks dl) \<subseteq> insert (numBlocks t) (set (tblocks c0))"
        "set (tblocks dr) \<subseteq> insert (numBlocks t) (set (tblocks c0))"
        using R(6) by auto
      then show ?thesis using s(1) by auto
    qed
    moreover have "evo (insert p (set (fblocks cs))) {} t t2"
      using R(7) s(1) by (rule_tac evo_mono) auto
    ultimately show ?thesis using R(1,8,9,10) fe nfd nd' s'(1,2)
      by (intro exI[of _ t2] exI[of _ cs1'] exI[of _ d] exI[of _ cs2'] exI[of _ l'] exI[of _ r']) simp
  qed
qed

end

section \<open>The loop of insert\<close>

definition dropUse :: "int option \<Rightarrow> (int \<Rightarrow> nat) \<Rightarrow> int \<Rightarrow> nat" where
  "dropUse par u = (case par of None \<Rightarrow> u | Some p \<Rightarrow> u(p := u p - 1))"

lemma dropUse_simps [simp]:
  "dropUse None u = u"
  "dropUse (Some p) u = u(p := u p - 1)"
  by (simp_all add: dropUse_def)

context key_order
begin

lemma insertAt_ins_after:
  assumes "sorted_ents kcmp es"
  shows "\<exists>i. lowerBoundLeaf (\<lambda>e. kcmp e k) (LeafN l r es) = Inr i
    \<and> insertAtLeaf (if i \<ge> 0 then nat (i + 1) else 0) k v (LeafN l r es)
      = Inr (LeafN l r (ins_after kcmp k v es))"
proof -
  let ?m = "length (takeWhile (\<lambda>e. kcmp (fst e) k \<le> 0) es)"
  have "(if int ?m - 1 \<ge> 0 then nat (int ?m - 1 + 1) else 0) = ?m" by simp
  moreover have "list_insert ?m (k, v) es = ins_after kcmp k v es"
    unfolding list_insert_def ins_after_def by (simp flip: takeWhile_eq_take dropWhile_eq_drop)
  ultimately show ?thesis
    using lowerBound_leaf[OF assms, of k] by (simp add: lowerBoundLeaf_def insertAtLeaf_def)
qed

lemma insertLoop_leaf:
  assumes "maybeSplitBlock c (\<lambda>e. kcmp e k) par t = Inr (b, LeafN l r es, addUse b t2)"
    and "sorted_ents kcmp es" "length es < entsPerLeaf c"
    and "\<And>p. par = Some p \<Longrightarrow> p \<noteq> b \<and> 0 < use (store t2) p"
  shows "insertLoop (Suc f) c (\<lambda>e. kcmp e k) k v par t =
     Inr (t2\<lparr>store := \<lparr>buf = (pg t2)(b \<mapsto> LeafN l r (ins_after kcmp k v es)),
       use = dropUse par (use (store t2)), dirty = (dirty (store t2))(b := True)\<rparr>\<rparr>)"
  using insertAt_ins_after[OF assms(2), of k l r v] assms(1,3,4)
  by (cases par) (auto simp: onStore_def store_ops releaseParent_def fun_upd_twist)

lemma insertLoop_inner:
  assumes "maybeSplitBlock c (\<lambda>e. kcmp e k) par t = Inr (b, InnerN l es, addUse b t2)"
    and "length es < entsPerInner c" "\<And>p. par = Some p \<Longrightarrow> p \<noteq> b \<and> 0 < use (store t2) p"
  shows "insertLoop (Suc f) c (\<lambda>e. kcmp e k) k v par t = insertLoop f c (\<lambda>e. kcmp e k) k v (Some b)
     (t2\<lparr>store := (store t2)\<lparr>use := (dropUse par (use (store t2)))(b := Suc (use (store t2) b))\<rparr>\<rparr>)"
  using assms by (cases par) (auto simp: onStore_def store_ops releaseParent_def fun_upd_twist)

lemma lastkey_ins_after:
  assumes "selects kcmp k cs1 d cs2" "cs2 \<noteq> []" "tents d \<noteq> []" "tents d' = ins_after kcmp k v (tents d)"
  shows "lastkey d' = lastkey d"
  using assms last_ins_after[of "tents d" kcmp k v] by (simp add: selects_def lastkey_def)

lemma fents_ins_after:
  assumes "selects kcmp k cs1 d cs2" "tents d \<noteq> []" "tents d' = ins_after kcmp k v (tents d)"
  shows "fents (cs1 @ d' # cs2) = ins_after kcmp k v (fents (cs1 @ d # cs2))"
proof -
  have "ins_after kcmp k v (fents (cs1 @ d # cs2)) = fents cs1 @ ins_after kcmp k v (tents d @ fents cs2)"
    unfolding map_append concat_append list.map concat.simps
    using assms(1) by (intro ins_after_append) (auto simp: selects_def)
  also have "ins_after kcmp k v (tents d @ fents cs2) = ins_after kcmp k v (tents d) @ fents cs2"
    using assms(1,2) by (intro ins_after_append2) (auto simp: selects_def lastkey_def)
  finally show ?thesis using assms(3) by simp
qed

lemma sorted_child: "sorted_ents kcmp (fents (cs1 @ d # cs2)) \<Longrightarrow> sorted_ents kcmp (tents d)"
  by (simp add: sorted_ents_append)

end

context key_order
begin

text \<open>Replacing the selected child by the tree that an insertion below it made.\<close>

lemma replace_child:
  assumes F: "forest c (Suc h) A [Nd p (cs1 @ d # cs2)] Z t2" and sel: "selects kcmp k cs1 d cs2"
    and F3: "forest c h (A @ fleaves cs1) [d'] (fleaves cs2 @ Z) t3"
    and evo3: "evo (set (tblocks d)) {} t2 t3"
    and d': "blk d' = blk d" "tents d' = ins_after kcmp k v (tents d)"
      "set (tblocks d') \<subseteq> set (tblocks d) \<union> {numBlocks t2..}"
  shows "forest c (Suc h) A [Nd p (cs1 @ d' # cs2)] Z t3"
    "fents (cs1 @ d' # cs2) = ins_after kcmp k v (fents (cs1 @ d # cs2))"
    "set (fblocks (cs1 @ d' # cs2)) \<subseteq> set (fblocks (cs1 @ d # cs2)) \<union> {numBlocks t2..}"
proof -
  have Fc: "forest c h A (cs1 @ d # cs2) Z t2" and p: "pg t2 p = Some (innerNode (cs1 @ d # cs2))"
    "p \<notin> set (A @ fblocks (cs1 @ d # cs2) @ Z)" "0 < p" "p < numBlocks t2"
    and len: "2 \<le> length (cs1 @ d # cs2)" "length (cs1 @ d # cs2) \<le> entsPerInner c"
    using F by (auto simp: forest_Nd)
  have ne: "tents d \<noteq> []" using forestD(3)[OF Fc, of d] by simp
  show "fents (cs1 @ d' # cs2) = ins_after kcmp k v (fents (cs1 @ d # cs2))"
    using sel ne d'(2) by (rule fents_ins_after)
  show "set (fblocks (cs1 @ d' # cs2)) \<subseteq> set (fblocks (cs1 @ d # cs2)) \<union> {numBlocks t2..}"
    using d'(3) by auto
  have dis: "set (tblocks d) \<inter> set (fblocks cs1) = {}" "set (tblocks d) \<inter> set (fblocks cs2) = {}"
    using forestD(4)[OF Fc] by (auto simp del: set_concat set_map)
  have Fc3: "forest c h A (cs1 @ [d'] @ cs2) Z t3"
    by (rule forest_replace[of c h A cs1 "[d]" cs2 Z t2]) (use Fc F3 evo3 dis d'(3) in auto)
  have "p \<notin> set (tblocks d)" using p(2) by auto
  then have "sim (pg t2 p) (pg t3 p)" using evo3 p(4) by (auto simp: evo_def)
  then have "pg t3 p = Some (innerNode (cs1 @ d # cs2))"
    using p(1) sim_InnerN by (auto simp: innerNode_def)
  moreover have "innerNode (cs1 @ d' # cs2) = innerNode (cs1 @ d # cs2)"
    using d'(1) lastkey_ins_after[OF sel _ ne d'(2)] by (rule innerNode_replace)
  moreover have "p \<notin> set (A @ fblocks (cs1 @ d' # cs2) @ Z)" using p d'(3) by auto
  moreover have "numBlocks t2 \<le> numBlocks t3" using evo3 by (simp add: evo_def)
  ultimately show "forest c (Suc h) A [Nd p (cs1 @ d' # cs2)] Z t3"
    using Fc3 p(3,4) len by (simp add: forest_Nd del: set_concat set_map)
qed

text \<open>Storing a leaf whose entries have grown.\<close>

lemma forest_leaf_put:
  assumes F: "forest c 0 A [Lf b es] Z t2" and nd: "pg t2 b = Some (LeafN l r es)"
    and es': "es' \<noteq> []" "length es' < entsPerLeaf c"
    and t3: "pg t3 = (pg t2)(b \<mapsto> LeafN l r es')" "numBlocks t3 = numBlocks t2"
      "\<And>x. numBlocks t2 \<le> x \<Longrightarrow> use (store t3) x = 0"
  shows "forest c 0 A [Lf b es'] Z t3"
proof -
  note D = forestD[OF F]
  have "chain (pg t3) 0 (A @ fleaves [Lf b es] @ Z)"
  proof (rule chain_cong[OF D(6)])
    fix x l' r' e assume "x \<in> set (A @ fleaves [Lf b es] @ Z)" "pg t2 x = Some (LeafN l' r' e)"
    then show "\<exists>es'. pg t3 x = Some (LeafN l' r' es')" using nd t3(1) by (cases "x = b") auto
  qed
  then show ?thesis using D(4,5) es' t3 by (auto simp: forest_def)
qed

lemma evo_leaf_put:
  assumes "pg t3 = (pg t2)(b \<mapsto> nd)" "numBlocks t3 = numBlocks t2"
    "dirty (store t3) = (dirty (store t2))(b := True)"
  shows "evo {b} {} t2 t3"
  using assms by (auto simp: evo_def)

end

context key_order
begin

text \<open>Below a parent with room, insertion inserts into the entries of the parent's subtree.\<close>

lemma insertLoop_child:
  assumes "forest c (Suc h) A [Nd p cs] Z t" "cfg_ok c" "\<not> full c (Nd p cs)"
    "0 < use (store t) p" "sorted_ents kcmp (fents cs)" "h < f"
  shows "\<exists>t' cs'. insertLoop f c (\<lambda>e. kcmp e k) k v (Some p) t = Inr t'
    \<and> forest c (Suc h) A [Nd p cs'] Z t' \<and> fents cs' = ins_after kcmp k v (fents cs)
    \<and> set (fblocks cs') \<subseteq> set (fblocks cs) \<union> {numBlocks t..}
    \<and> evo (insert p (set (fblocks cs))) {} t t'
    \<and> use (store t') = (use (store t))(p := use (store t) p - 1)
    \<and> rootBlock t' = rootBlock t \<and> depth t' = depth t"
  using assms
proof (induction h arbitrary: f A p cs Z t)
  case (0 f A p cs Z t)
  then obtain f' where f: "f = Suc f'" by (cases f) auto
  obtain t2 cs1 d cs2 l r where
    M: "maybeSplitBlock c (\<lambda>e. kcmp e k) (Some p) t = Inr (blk d, node_of l r d, addUse (blk d) t2)"
      "forest c (Suc 0) A [Nd p (cs1 @ d # cs2)] Z t2" "fents (cs1 @ d # cs2) = fents cs"
      "selects kcmp k cs1 d cs2" "\<not> full c d"
      "set (fblocks (cs1 @ d # cs2)) \<subseteq> set (fblocks cs) \<union> {numBlocks t..}"
      "evo (insert p (set (fblocks cs))) {} t t2" "use (store t2) = use (store t)"
      "rootBlock t2 = rootBlock t" "depth t2 = depth t" "pg t2 (blk d) = Some (node_of l r d)"
    using maybeSplitBlock_child[OF 0(1,2,3,4,5)] by blast
  have F: "forest c 0 A (cs1 @ d # cs2) Z t2" and p: "p \<notin> set (A @ fblocks (cs1 @ d # cs2) @ Z)" "p < numBlocks t2"
    using M(2) by (auto simp: forest_Nd)
  have Fd: "forest c 0 (A @ fleaves cs1) [d] (fleaves cs2 @ Z) t2"
    using forest_sub[of c 0 A cs1 "[d]" cs2 Z t2] F by simp
  have le: "numBlocks t \<le> numBlocks t2" using M(7) by (simp add: evo_def)
  have srt: "sorted_ents kcmp (tents d)" using sorted_child[of cs1 d cs2] M(3) 0(5) by simp
  obtain b es where d: "d = Lf b es" using forestD(2)[OF F, of d] by (cases d) auto
  let ?d' = "Lf b (ins_after kcmp k v es)"
  have len: "length es + 1 < entsPerLeaf c" using M(5) d by (simp add: full_def)
  have pb: "p \<noteq> b" using p(1) d by auto
  let ?t' = "t2\<lparr>store := \<lparr>buf = (pg t2)(b \<mapsto> LeafN l r (ins_after kcmp k v es)),
       use = dropUse (Some p) (use (store t2)), dirty = (dirty (store t2))(b := True)\<rparr>\<rparr>"
  have run: "insertLoop f c (\<lambda>e. kcmp e k) k v (Some p) t = Inr ?t'"
    unfolding f using M(1,8) d len pb 0(4) srt
    by (intro insertLoop_leaf) (auto simp: node_of_def)
  have Fd': "forest c 0 (A @ fleaves cs1) [?d'] (fleaves cs2 @ Z) ?t'"
  proof (rule forest_leaf_put[of c _ b es _ t2 l r])
    show "forest c 0 (A @ fleaves cs1) [Lf b es] (fleaves cs2 @ Z) t2" using Fd d by simp
    show "pg t2 b = Some (LeafN l r es)" using M(11) d by (simp add: node_of_def)
    show "length (ins_after kcmp k v es) < entsPerLeaf c" using len by simp
    show "use (store ?t') x = 0" if "numBlocks t2 \<le> x" for x
      using forestD(7)[OF F that] p(2) that by simp
  qed simp_all
  have E: "evo (set (tblocks d)) {} t2 ?t'"
    using evo_leaf_put[of ?t' t2 b] d by simp
  note R = replace_child[OF M(2,4) Fd' E, of v]
  have sub: "set (fblocks (cs1 @ ?d' # cs2)) \<subseteq> set (fblocks cs) \<union> {numBlocks t..}" using M(6) d by simp
  have ev: "evo (insert p (set (fblocks cs))) {} t ?t'"
    using M(6) d by (intro evo_trans[OF M(7) E]) auto
  show ?case
    using run R d M(3,8,9,10) sub ev by (intro exI[of _ ?t'] exI[of _ "cs1 @ ?d' # cs2"]) simp
next
  case (Suc h f A p cs Z t)
  then obtain f' where f: "f = Suc f'" "h < f'" by (cases f) auto
  obtain t2 cs1 d cs2 l r where
    M: "maybeSplitBlock c (\<lambda>e. kcmp e k) (Some p) t = Inr (blk d, node_of l r d, addUse (blk d) t2)"
      "forest c (Suc (Suc h)) A [Nd p (cs1 @ d # cs2)] Z t2" "fents (cs1 @ d # cs2) = fents cs"
      "selects kcmp k cs1 d cs2" "\<not> full c d"
      "set (fblocks (cs1 @ d # cs2)) \<subseteq> set (fblocks cs) \<union> {numBlocks t..}"
      "evo (insert p (set (fblocks cs))) {} t t2" "use (store t2) = use (store t)"
      "rootBlock t2 = rootBlock t" "depth t2 = depth t" "pg t2 (blk d) = Some (node_of l r d)"
    using maybeSplitBlock_child[OF Suc.prems(1,2,3,4,5)] by blast
  have F: "forest c (Suc h) A (cs1 @ d # cs2) Z t2" and p: "p \<notin> set (A @ fblocks (cs1 @ d # cs2) @ Z)" "p < numBlocks t2"
    using M(2) by (auto simp: forest_Nd)
  have Fd: "forest c (Suc h) (A @ fleaves cs1) [d] (fleaves cs2 @ Z) t2"
    using forest_sub[of c "Suc h" A cs1 "[d]" cs2 Z t2] F by simp
  have le: "numBlocks t \<le> numBlocks t2" using M(7) by (simp add: evo_def)
  have srt: "sorted_ents kcmp (tents d)" using sorted_child[of cs1 d cs2] M(3) Suc.prems(5) by simp
  obtain b ds where d: "d = Nd b ds" using forestD(2)[OF F, of d] by (cases d) auto
  let ?t3 = "t2\<lparr>store := (store t2)\<lparr>use := (dropUse (Some p) (use (store t2)))(b := Suc (use (store t2) b))\<rparr>\<rparr>"
  have pb: "p \<noteq> b" using p(1) d by auto
  have len: "length ds - 1 < entsPerInner c" using M(5) d by (simp add: full_def)
  have run: "insertLoop f c (\<lambda>e. kcmp e k) k v (Some p) t = insertLoop f' c (\<lambda>e. kcmp e k) k v (Some b) ?t3"
    unfolding f(1) using M(1,8) d pb len Suc.prems(4)
    by (intro insertLoop_inner) (auto simp: node_of_def innerNode_def)
  have bn: "b < numBlocks t2" using forestD(5)[OF Fd, of b] d by auto
  have Fd3: "forest c (Suc h) (A @ fleaves cs1) [Nd b ds] (fleaves cs2 @ Z) ?t3"
  proof (rule forest_store_cong[of _ _ _ _ _ t2])
    show "forest c (Suc h) (A @ fleaves cs1) [Nd b ds] (fleaves cs2 @ Z) t2" using Fd d by simp
    show "use (store ?t3) x = 0" if "numBlocks t2 \<le> x" for x
      using forestD(7)[OF F that] p(2) bn that by simp
  qed simp_all
  have nfb: "\<not> full c (Nd b ds)" and u3: "0 < use (store ?t3) b" and sds: "sorted_ents kcmp (fents ds)"
    using M(5) d srt by simp_all
  obtain t' ds' where I: "insertLoop f' c (\<lambda>e. kcmp e k) k v (Some b) ?t3 = Inr t'"
    "forest c (Suc h) (A @ fleaves cs1) [Nd b ds'] (fleaves cs2 @ Z) t'"
    "fents ds' = ins_after kcmp k v (fents ds)" "set (fblocks ds') \<subseteq> set (fblocks ds) \<union> {numBlocks ?t3..}"
    "evo (insert b (set (fblocks ds))) {} ?t3 t'"
    "use (store t') = (use (store ?t3))(b := use (store ?t3) b - 1)"
    "rootBlock t' = rootBlock ?t3" "depth t' = depth ?t3"
    using Suc.IH[OF Fd3 Suc.prems(2) nfb u3 sds f(2)] by blast
  have E: "evo (set (tblocks d)) {} t2 t'" using I(5) d by (simp add: evo_def)
  have d': "blk (Nd b ds') = blk d" "tents (Nd b ds') = ins_after kcmp k v (tents d)"
      "set (tblocks (Nd b ds')) \<subseteq> set (tblocks d) \<union> {numBlocks t2..}"
    using I(3,4) d by auto
  note R = replace_child[OF M(2,4) I(2) E d']
  have sub: "set (fblocks (cs1 @ Nd b ds' # cs2)) \<subseteq> set (fblocks cs) \<union> {numBlocks t..}"
  proof -
    have "set (fblocks ds') \<subseteq> set (fblocks cs) \<union> {numBlocks t..}"
      using I(4) M(6) d le by (auto simp del: set_concat set_map)
    then show ?thesis using M(6) d by simp
  qed
  have ev: "evo (insert p (set (fblocks cs))) {} t t'"
    using M(6) d by (intro evo_trans[OF M(7) E]) auto
  have u: "use (store t') = (use (store t))(p := use (store t) p - 1)"
    using I(6) M(8) pb by auto
  show ?case
    using run I(1,7,8) R(1,2) M(3,9,10) sub ev u
    by (intro exI[of _ t'] exI[of _ "cs1 @ Nd b ds' # cs2"]) (simp del: map_append concat_append)
qed

end

section \<open>The root\<close>

lemma maybeSplitBlock_root:
  assumes F: "forest c h [] [T] [] t" and rt: "blk T = rootBlock t" and cfg: "cfg_ok c"
  shows "\<exists>t2 T2 h2 l r. maybeSplitBlock c cmp None t = Inr (blk T2, node_of l r T2, addUse (blk T2) t2)
   \<and> pg t2 (blk T2) = Some (node_of l r T2)
   \<and> forest c h2 [] [T2] [] t2 \<and> blk T2 = rootBlock t2 \<and> tents T2 = tents T \<and> \<not> full c T2
   \<and> set (tblocks T2) \<subseteq> set (tblocks T) \<union> {numBlocks t..}
   \<and> evo (set (tblocks T)) {} t t2 \<and> use (store t2) = use (store t)
   \<and> int h2 - depth t2 = int h - depth t \<and> h2 \<le> Suc h"
proof -
  obtain l r where nd: "pg t (blk T) = Some (node_of l r T)" using repr_node[OF forestD(1)[OF F]] by auto
  have rb: "readBlock cmp None t = Inr (0, blk T, node_of l r T, addUse (blk T) t)"
    using nd rt by (simp add: readBlock_def read_page_def)
  have b: "0 < blk T" "blk T < numBlocks t" using forestD(5)[OF F, of "blk T"] by auto
  show ?thesis
  proof (cases "full c T")
    case False
    then show ?thesis using rb F rt nd
      by (intro exI[of _ t] exI[of _ T] exI[of _ h] exI[of _ l] exI[of _ r])
        (auto simp: maybeSplitBlock_def blockIsFull_node_of evo_refl)
  next
    case True
    let ?t0 = "addUse (blk T) t"
    have F0: "forest c h [] [T] [] ?t0"
      using forestD(7)[OF F] b by (intro forest_store_cong[OF F]) auto
    obtain key n t1 dl dr where
      sr: "split_result c h [] T [] ?t0 (key, n, t1) dl dr"
      and sb: "\<And>par i. split_block c par i (blk T) ?t0 = fixParent c par i (blk T) key n t1"
      using split_block_result[OF F0 True cfg] by auto
    have S: "n = numBlocks t" "numBlocks t1 = n + 1" "depth t1 = depth t"
      "use (store t1) = use (store ?t0)" "forest c h [] [dl, dr] [] t1"
      "evo (set (tblocks T)) {blk T} ?t0 t1" "blk dl = blk T" "blk dr = n" "key = lastkey dl"
      "tents dl @ tents dr = tents T" "set (fblocks [dl, dr]) = insert n (set (tblocks T))"
      using sr by (auto simp: split_result_def)
    let ?R = "n + 1"
    let ?T2 = "Nd ?R [dl, dr]"
    let ?t2 = "t1\<lparr>rootBlock := ?R, numBlocks := n + 2, depth := depth t + 1,
        store := \<lparr>buf = (pg t1)(?R \<mapsto> innerNode [dl, dr]), use = use (store t),
          dirty = (dirty (store t1))(?R := True, blk T := True)\<rparr>\<rparr>"
    have u0: "use (store t) ?R = 0" using forestD(7)[OF F] S(1) by simp
    have E: "4 \<le> entsPerInner c" using cfg by (simp add: cfg_ok_def)
    have node: "InnerN (blk T) [(key, n)] = innerNode [dl, dr]" using S by (simp add: innerNode_def)
    have run: "maybeSplitBlock c cmp None t = Inr (blk ?T2, node_of l r ?T2, addUse (blk ?T2) ?t2)"
    proof -
      have ne: "?R \<noteq> blk T" using b(2) S(1) by simp
      have "split_block c None 0 (blk T) ?t0 = Inr (t1\<lparr>store := \<lparr>buf = (pg t1)(?R \<mapsto> innerNode [dl, dr]),
          use = use (store ?t0), dirty = (dirty (store t1))(?R := True)\<rparr>, rootBlock := ?R, numBlocks := n + 2,
          depth := depth t + 1\<rparr>)"
        unfolding sb using S(2-4) u0 ne node
        by (simp add: fixParent_def allocBlock_def onStore_def store_ops)
      moreover have "\<not> blockIsFull c (innerNode [dl, dr])" using E by (simp add: blockIsFull_def innerNode_def)
      moreover have "readBlock cmp None ?t2 = Inr (0, blk ?T2, node_of l r ?T2, addUse (blk ?T2) ?t2)"
        by (simp add: readBlock_def read_page_def node_of_def)
      moreover have "blockIsFull c (node_of l r T)" using True by (simp add: blockIsFull_node_of)
      ultimately show ?thesis unfolding maybeSplitBlock_def rb
        using ne u0 by (simp add: writeParent_def onStore_def store_ops node_of_def)
    qed
    have Rn: "?R \<notin> set (fblocks [dl, dr])" using S(1,11) forestD(5)[OF F] by force
    have "forest c h [] [dl, dr] [] ?t2"
      by (rule forest_upd_other[OF S(5), where p = ?R]) (use Rn S(1,2) forestD(7)[OF F] in auto)
    then have "forest c (Suc h) [] [?T2] [] ?t2"
      unfolding forest_Nd using Rn S(1) b E by simp
    moreover have "evo (set (tblocks T)) {} t ?t2"
      unfolding evo_def
    proof (intro conjI allI impI)
      fix x assume "x < numBlocks t" "x \<notin> set (tblocks T)"
      then show "sim (pg t x) (pg ?t2 x)" using S(1,6) by (auto simp: evo_def)
    next
      fix x assume "x \<notin> {}" "pg ?t2 x \<noteq> pg t x"
      then show "dirty (store ?t2) x" using S(6) by (auto simp: evo_def split: if_splits)
    qed (use S(1,6) in \<open>auto simp: evo_def\<close>)
    moreover have "set (tblocks ?T2) \<subseteq> set (tblocks T) \<union> {numBlocks t..}"
    proof -
      have "set (tblocks ?T2) = insert ?R (set (fblocks [dl, dr]))" by simp
      then show ?thesis using S(1,11) by auto
    qed
    moreover have "\<not> full c ?T2" using E by (simp add: full_def)
    moreover have "pg ?t2 (blk ?T2) = Some (node_of l r ?T2)" by (simp add: node_of_def)
    moreover have "tents ?T2 = tents T" using S(10) by simp
    ultimately show ?thesis using run
      by (intro exI[of _ ?t2] exI[of _ ?T2] exI[of _ "Suc h"] exI[of _ l] exI[of _ r]) simp
  qed
qed

text \<open>
  The invariant of a tree: \<open>T\<close> is the tree that the pages hold below the root; the tree without
  entries is the only one with an empty leaf.
\<close>

definition tree_inv :: "('k \<Rightarrow> 'k \<Rightarrow> int) \<Rightarrow> bt_cfg \<Rightarrow> ('k, 'v) tree \<Rightarrow> ('k, 'v) btree \<Rightarrow> bool" where
  "tree_inv kcmp c T t \<longleftrightarrow> blk T = rootBlock t \<and> sorted_ents kcmp (tents T) \<and>
     ((\<exists>h. forest c h [] [T] [] t \<and> depth t = int h + 1)
     \<or> (T = Lf (rootBlock t) [] \<and> pg t (rootBlock t) = Some (LeafN 0 0 []) \<and> depth t = 1
        \<and> 0 < rootBlock t \<and> rootBlock t < numBlocks t \<and> (\<forall>b \<ge> numBlocks t. use (store t) b = 0)))"

context key_order
begin

lemma tree_inv_node:
  assumes "tree_inv kcmp c T t"
  shows "\<exists>l r. pg t (blk T) = Some (node_of l r T)" "0 < blk T" "blk T < numBlocks t" "0 < depth t"
    "\<And>b. numBlocks t \<le> b \<Longrightarrow> use (store t) b = 0"
proof -
  from assms consider h where "forest c h [] [T] [] t" "depth t = int h + 1"
    | "T = Lf (rootBlock t) []" "pg t (rootBlock t) = Some (LeafN 0 0 [])" "depth t = 1"
      "0 < rootBlock t" "rootBlock t < numBlocks t" "\<forall>b \<ge> numBlocks t. use (store t) b = 0"
    by (auto simp: tree_inv_def)
  then have "(\<exists>l r. pg t (blk T) = Some (node_of l r T)) \<and> 0 < blk T \<and> blk T < numBlocks t \<and> 0 < depth t
      \<and> (\<forall>b. numBlocks t \<le> b \<longrightarrow> use (store t) b = 0)"
  proof cases
    case 1
    show ?thesis using forestD(5)[OF 1(1), of "blk T"] forestD(7)[OF 1(1)] 1(2)
        repr_node[OF forestD(1)[OF 1(1)]] by auto
  next
    case 2
    then show ?thesis by (auto simp: node_of_def)
  qed
  then show "\<exists>l r. pg t (blk T) = Some (node_of l r T)" "0 < blk T" "blk T < numBlocks t" "0 < depth t"
    "\<And>b. numBlocks t \<le> b \<Longrightarrow> use (store t) b = 0" by auto
qed

lemma insert_empty:
  assumes "T = Lf (rootBlock t) []" "pg t (rootBlock t) = Some (LeafN 0 0 [])" "depth t = 1"
    "0 < rootBlock t" "rootBlock t < numBlocks t" "\<forall>b \<ge> numBlocks t. use (store t) b = 0" "cfg_ok c"
  shows "\<exists>t' T'. btree_insert c (\<lambda>e. kcmp e k) k v t = Inr t' \<and> tree_inv kcmp c T' t'
    \<and> tents T' = [(k, v)] \<and> use (store t') = use (store t) \<and> evo {rootBlock t} {} t t'"
proof -
  let ?b = "rootBlock t"
  let ?t' = "t\<lparr>store := \<lparr>buf = (pg t)(?b \<mapsto> LeafN 0 0 [(k, v)]),
       use = use (store t), dirty = (dirty (store t))(?b := True)\<rparr>\<rparr>"
  have E: "4 \<le> entsPerLeaf c" using assms by (simp add: cfg_ok_def)
  have one: "ins_after kcmp k v [] = [(k, v)]" by (simp add: ins_after_def)
  have "maybeSplitBlock c (\<lambda>e. kcmp e k) None t = Inr (?b, LeafN 0 0 [], addUse ?b t)"
    using assms E by (simp add: maybeSplitBlock_def readBlock_def read_page_def blockIsFull_def)
  then have "btree_insert c (\<lambda>e. kcmp e k) k v t = Inr ?t'"
    unfolding btree_insert_def using insertLoop_leaf[of c k None t ?b 0 0 "[]" t "nat (depth t)" v] E one
    by (simp add: sorted_ents_def)
  moreover have "forest c 0 [] [Lf ?b [(k, v)]] [] ?t'"
    using assms E by (auto simp: forest_def)
  then have "tree_inv kcmp c (Lf ?b [(k, v)]) ?t'"
    using assms by (auto simp: tree_inv_def sorted_ents_def)
  moreover have "evo {?b} {} t ?t'" by (rule evo_leaf_put) auto
  ultimately show ?thesis by (intro exI[of _ ?t'] exI[of _ "Lf ?b [(k, v)]"]) auto
qed

lemma insert_forest:
  assumes F: "forest c h [] [T] [] t" and rt: "blk T = rootBlock t" and cfg: "cfg_ok c"
    and srt: "sorted_ents kcmp (tents T)" and dep: "depth t = int h + 1"
  shows "\<exists>t' T'. btree_insert c (\<lambda>e. kcmp e k) k v t = Inr t' \<and> tree_inv kcmp c T' t'
    \<and> tents T' = ins_after kcmp k v (tents T) \<and> use (store t') = use (store t) \<and> evo (set (tblocks T)) {} t t'"
proof -
  obtain t2 T2 h2 l r where M:
    "maybeSplitBlock c (\<lambda>e. kcmp e k) None t = Inr (blk T2, node_of l r T2, addUse (blk T2) t2)"
    "pg t2 (blk T2) = Some (node_of l r T2)" "forest c h2 [] [T2] [] t2" "blk T2 = rootBlock t2"
    "tents T2 = tents T" "\<not> full c T2" "set (tblocks T2) \<subseteq> set (tblocks T) \<union> {numBlocks t..}"
    "evo (set (tblocks T)) {} t t2" "use (store t2) = use (store t)"
    "int h2 - depth t2 = int h - depth t" "h2 \<le> Suc h"
    using maybeSplitBlock_root[OF F rt cfg, of "\<lambda>e. kcmp e k"] by blast
  have fuel: "btree_insert c (\<lambda>e. kcmp e k) k v t = insertLoop (Suc (Suc h)) c (\<lambda>e. kcmp e k) k v None t"
    using dep by (simp add: btree_insert_def nat_add_distrib)
  have dep2: "depth t2 = int h2 + 1" using M(10) dep by simp
  have srt': "sorted_ents kcmp (ins_after kcmp k v (tents T))" using srt by (rule sorted_ents_ins_after)
  have evo: "evo (set (tblocks T)) {} t t'" if "evo (set (tblocks T2)) {} t2 t'" for t'
    using M(7) by (intro evo_trans[OF M(8) that]) auto
  show ?thesis
  proof (cases T2)
    case (Lf b es)
    let ?t' = "t2\<lparr>store := \<lparr>buf = (pg t2)(b \<mapsto> LeafN l r (ins_after kcmp k v es)),
       use = dropUse None (use (store t2)), dirty = (dirty (store t2))(b := True)\<rparr>\<rparr>"
    let ?T' = "Lf b (ins_after kcmp k v es)"
    have es: "es = tents T" "length es + 1 < entsPerLeaf c" using M(5,6) Lf by (auto simp: full_def)
    have h2: "h2 = 0" using forestD(2)[OF M(3), of T2] Lf by simp
    have run: "btree_insert c (\<lambda>e. kcmp e k) k v t = Inr ?t'"
      unfolding fuel using M(1) Lf es srt by (intro insertLoop_leaf) (auto simp: node_of_def)
    have "forest c 0 [] [?T'] [] ?t'"
    proof (rule forest_leaf_put[of c _ b es _ t2 l r])
      show "forest c 0 [] [Lf b es] [] t2" using M(3) Lf h2 by simp
      show "pg t2 b = Some (LeafN l r es)" using M(2) Lf by (simp add: node_of_def)
      show "use (store ?t') x = 0" if "numBlocks t2 \<le> x" for x using forestD(7)[OF M(3) that] by simp
    qed (use es in simp_all)
    then have "tree_inv kcmp c ?T' ?t'" using M(4) Lf srt' es dep2 h2 by (auto simp: tree_inv_def)
    moreover have "evo (set (tblocks T2)) {} t2 ?t'" using evo_leaf_put[of ?t' t2 b] Lf by simp
    ultimately show ?thesis using run es M(9) evo by (intro exI[of _ ?t'] exI[of _ ?T']) auto
  next
    case (Nd b ds)
    then obtain h' where h': "h2 = Suc h'" using forestD(2)[OF M(3), of T2] by (cases h2) auto
    let ?t3 = "t2\<lparr>store := (store t2)\<lparr>use := (dropUse None (use (store t2)))(b := Suc (use (store t2) b))\<rparr>\<rparr>"
    have bn: "b < numBlocks t2" using forestD(5)[OF M(3), of b] Nd by auto
    have len: "length ds - 1 < entsPerInner c" using M(6) Nd by (simp add: full_def)
    have run: "btree_insert c (\<lambda>e. kcmp e k) k v t = insertLoop (Suc h) c (\<lambda>e. kcmp e k) k v (Some b) ?t3"
      unfolding fuel using M(1) Nd len by (intro insertLoop_inner) (auto simp: node_of_def innerNode_def)
    have F3: "forest c (Suc h') [] [Nd b ds] [] ?t3"
    proof (rule forest_store_cong[of _ _ _ _ _ t2])
      show "forest c (Suc h') [] [Nd b ds] [] t2" using M(3) Nd h' by simp
      show "use (store ?t3) x = 0" if "numBlocks t2 \<le> x" for x using forestD(7)[OF M(3) that] bn that by simp
    qed simp_all
    have nf: "\<not> full c (Nd b ds)" and u3: "0 < use (store ?t3) b" and sds: "sorted_ents kcmp (fents ds)"
      and hf: "h' < Suc h"
      using M(5,6,11) Nd srt h' by auto
    obtain t' ds' where I: "insertLoop (Suc h) c (\<lambda>e. kcmp e k) k v (Some b) ?t3 = Inr t'"
      "forest c (Suc h') [] [Nd b ds'] [] t'"
      "fents ds' = ins_after kcmp k v (fents ds)" "evo (insert b (set (fblocks ds))) {} ?t3 t'"
      "use (store t') = (use (store ?t3))(b := use (store ?t3) b - 1)"
      "rootBlock t' = rootBlock ?t3" "depth t' = depth ?t3"
      using insertLoop_child[OF F3 cfg nf u3 sds hf] by blast
    have "tree_inv kcmp c (Nd b ds') t'"
      unfolding tree_inv_def using I(2,3,6,7) M(4,5) Nd srt' dep2 h' by auto
    moreover have "evo (set (tblocks T2)) {} t2 t'" using I(4) Nd by (simp add: evo_def)
    moreover have "tents (Nd b ds') = ins_after kcmp k v (tents T)" using I(3) M(5) Nd by simp
    moreover have "use (store t') = use (store t)" using I(5) M(9) by simp
    ultimately show ?thesis using run I(1) evo by (intro exI[of _ t'] exI[of _ "Nd b ds'"]) auto
  qed
qed

lemma insert_correct:
  assumes "tree_inv kcmp c T t" "cfg_ok c"
  shows "\<exists>t' T'. btree_insert c (\<lambda>e. kcmp e k) k v t = Inr t' \<and> tree_inv kcmp c T' t'
    \<and> tents T' = ins_after kcmp k v (tents T) \<and> use (store t') = use (store t) \<and> evo (set (tblocks T)) {} t t'"
  using assms insert_forest[of c _ T t k v] insert_empty[of T t c k v]
  by (auto simp: tree_inv_def ins_after_def)

end

end
