(* ===== verification/Btree_Find.thy ===== *)
theory Btree_Find
  imports Btree_Insert
begin

text \<open>
  Correctness of the searches and of iteration. \<open>trefs T\<close> lists the references of all entries in
  key order, so that a search is right when it returns the reference at the index the sorted list
  of entries prescribes. Searches leave the pages alone; \<open>findFirst\<close> and \<open>findPrev\<close> release every
  page they read, \<open>findNext\<close> does not.
\<close>

section \<open>References of entries\<close>

fun trefs :: "('k, 'v) tree \<Rightarrow> bref list" where
  "trefs (Lf b es) = map (\<lambda>i. (b, int i)) [0..<length es]"
| "trefs (Nd b cs) = concat (map trefs cs)"

abbreviation "frefs ts \<equiv> concat (map trefs ts)"

lemma length_frefs_aux:
  "(\<And>T. T \<in> set ts \<Longrightarrow> length (trefs T) = length (tents T)) \<Longrightarrow> length (frefs ts) = length (fents ts)"
  by (induction ts) auto

lemma length_trefs [simp]: "length (trefs T) = length (tents T)"
proof (induction T)
  case (Nd b cs)
  then show ?case using length_frefs_aux[of cs] by simp
qed simp

lemma length_frefs: "length (frefs ts) = length (fents ts)"
  by (rule length_frefs_aux) simp

text \<open>The entry that a reference designates.\<close>

definition entry_at :: "('k, 'v) btree \<Rightarrow> bref \<Rightarrow> ('k \<times> 'v) option" where
  "entry_at t r = (case pg t (fst r) of
     Some (LeafN _ _ es) \<Rightarrow> if 0 \<le> snd r \<and> nat (snd r) < length es then Some (es ! nat (snd r)) else None
   | _ \<Rightarrow> None)"

lemma map_entry_at_aux:
  "(\<And>T. T \<in> set ts \<Longrightarrow> map (entry_at t) (trefs T) = map Some (tents T)) \<Longrightarrow>
   map (entry_at t) (frefs ts) = map Some (fents ts)"
  by (induction ts) auto

lemma map_entry_at: "repr (pg t) T \<Longrightarrow> map (entry_at t) (trefs T) = map Some (tents T)"
proof (induction T)
  case (Lf b es)
  then obtain l r where "pg t b = Some (LeafN l r es)" by auto
  then show ?case by (intro nth_equalityI) (auto simp: entry_at_def)
next
  case (Nd b cs)
  then have "map (entry_at t) (trefs T) = map Some (tents T)" if "T \<in> set cs" for T using that by simp
  then show ?case unfolding trefs.simps tents.simps by (rule map_entry_at_aux)
qed

section \<open>Reading and releasing a page\<close>

lemma release_addUse [simp]: "onStore (release_page b) (addUse b t) = Inr t"
  by (simp add: onStore_def release_page_def)

lemma read_page_some: "pg t b = Some nd \<Longrightarrow>
   read_page b (store t) = Inr (nd, (store t)\<lparr>use := (use (store t))(b := Suc (use (store t) b))\<rparr>)"
  by (simp add: read_page_def)

lemma wf_tree_0E:
  assumes "wf_tree c 0 T"
  obtains b es where "T = Lf b es" "es \<noteq> []"
  using assms by (cases T) auto

lemma wf_tree_SucE:
  assumes "wf_tree c (Suc h) T"
  obtains b cs where "T = Nd b cs" "2 \<le> length cs" "\<And>d. d \<in> set cs \<Longrightarrow> wf_tree c h d"
  using assms by (cases T) auto

lemma trefs_nonempty: "wf_tree c h T \<Longrightarrow> trefs T \<noteq> []"
  using wf_tents_nonempty[of c h T] length_trefs[of T] by fastforce

section \<open>findFirst\<close>

lemma findFirst_descend:
  "repr (pg t) T \<Longrightarrow> wf_tree c h T \<Longrightarrow>
   findFirstDescend (Suc h) (blk T) t = Inr (hd (trefs T), t)"
proof (induction h arbitrary: T)
  case 0
  from 0(2) obtain b es where "T = Lf b es" "es \<noteq> []" by (rule wf_tree_0E)
  then show ?case using 0 by (auto simp: read_page_some hd_map)
next
  case (Suc h)
  from Suc.prems(2) obtain b cs where T: "T = Nd b cs" "2 \<le> length cs" "\<And>d. d \<in> set cs \<Longrightarrow> wf_tree c h d"
    by (rule wf_tree_SucE) blast
  then obtain d cs' where cs: "cs = d # cs'" by (cases cs) auto
  then have d: "wf_tree c h d" "repr (pg t) d" using Suc.prems T by auto
  have "findFirstDescend (Suc (Suc h)) (blk T) t = findFirstDescend (Suc h) (blk d) t"
    using Suc.prems(1) T cs by (simp add: read_page_some innerNode_def del: findFirstDescend.simps(2)
      add: findFirstDescend.simps(2)[of "Suc h"])
  then show ?case using Suc.IH[OF d(2,1)] T cs trefs_nonempty[OF d(1)] by (simp add: hd_append)
qed

section \<open>findPrev\<close>

lemma last_leaf:
  "repr (pg t) T \<Longrightarrow> wf_tree c h T \<Longrightarrow>
   \<exists>l r es. pg t (last (tleaves T)) = Some (LeafN l r es) \<and> es \<noteq> []
     \<and> last (trefs T) = (last (tleaves T), int (length es) - 1) \<and> tleaves T \<noteq> []"
proof (induction h arbitrary: T)
  case 0
  from 0(2) obtain b es where "T = Lf b es" "es \<noteq> []" by (rule wf_tree_0E)
  then show ?case using 0 by (auto simp: last_map of_nat_diff Suc_le_eq)
next
  case (Suc h)
  from Suc.prems(2) obtain b cs where T: "T = Nd b cs" "2 \<le> length cs" "\<And>d. d \<in> set cs \<Longrightarrow> wf_tree c h d"
    by (rule wf_tree_SucE) blast
  then obtain d cs' where cs: "cs = cs' @ [d]" by (cases cs rule: rev_cases) auto
  then have d: "wf_tree c h d" "repr (pg t) d" using Suc.prems T by auto
  show ?case using Suc.IH[OF d(2,1)] T cs trefs_nonempty[OF d(1)] by (auto simp: last_append)
qed

text \<open>
  What \<open>findPrev\<close> returns when no entry of the subtree is small enough: the last entry of the leaf
  before the subtree, reached over the left link.
\<close>

definition prev_ref :: "int list \<Rightarrow> ('k, 'v) btree \<Rightarrow> bref \<Rightarrow> bool" where
  "prev_ref A t r \<longleftrightarrow> (if A = [] then r = no_ref
     else \<exists>l rr es. pg t (last A) = Some (LeafN l rr es) \<and> es \<noteq> [] \<and> r = (last A, int (length es) - 1))"

lemma prev_ref_snoc:
  assumes "forest c h A (cs1 @ cs2) Z t" "prev_ref A t r"
  shows "prev_ref (A @ fleaves cs1) t (if cs1 = [] then r else last (frefs cs1))"
proof (cases cs1 rule: rev_cases)
  case (snoc cs d)
  then have "repr (pg t) d" "wf_tree c h d" using assms(1) forestD(1,2)[of c h A "cs1 @ cs2"] by auto
  then show ?thesis using last_leaf[of t d c h] trefs_nonempty[of c h d] snoc by (auto simp: prev_ref_def)
qed (use assms in simp)

lemma pick_append:
  assumes "b \<le> length ys"
  shows "(if b = 0 then if xs = [] then r else last xs else ys ! (b - 1))
    = (if length xs + b = 0 then r else (xs @ ys @ zs) ! (length xs + b - 1))"
proof (cases "xs = []")
  case False
  then have "0 < length xs" by simp
  then show ?thesis using False assms by (auto simp: nth_append last_conv_nth)
qed (use assms in \<open>auto simp: nth_append\<close>)

context key_order
begin

definition count_le :: "'k \<Rightarrow> ('k \<times> 'v) list \<Rightarrow> nat" where
  "count_le k es = length (takeWhile (\<lambda>e. kcmp (fst e) k \<le> 0) es)"

lemma count_le_split:
  assumes "selects kcmp k cs1 d cs2" "tents d \<noteq> []"
  shows "count_le k (fents (cs1 @ d # cs2)) = length (fents cs1) + count_le k (tents d)"
proof -
  let ?P = "\<lambda>e. kcmp (fst e) k \<le> 0"
  have "takeWhile ?P (fents cs1 @ tents d @ fents cs2) = fents cs1 @ takeWhile ?P (tents d @ fents cs2)"
    using assms(1) by (intro takeWhile_append2) (auto simp: selects_def)
  moreover have "takeWhile ?P (tents d @ fents cs2) = takeWhile ?P (tents d)"
  proof (cases "cs2 = []")
    case False
    then have "last (tents d) \<in> set (tents d)" "\<not> ?P (last (tents d))"
      using assms by (auto simp: selects_def lastkey_def)
    then show ?thesis by (rule takeWhile_append1)
  qed simp
  ultimately show ?thesis by (simp add: count_le_def)
qed

text \<open>The inner case of a descent, for all searches that use the lower bound.\<close>

lemma lowerBound_select:
  assumes F: "forest c (Suc h) A [Nd p cs] Z t" and srt: "sorted_ents kcmp (fents cs)"
  shows "\<exists>cs1 d cs2. cs = cs1 @ d # cs2 \<and> selects kcmp k cs1 d cs2
    \<and> (\<exists>i. lowerBoundInner (\<lambda>e. kcmp e k) (innerNode cs) = Inr i \<and> innerRef (innerNode cs) i = Inr (blk d)
         \<and> (i = -1 \<longrightarrow> blk d = lref (innerNode cs)))"
proof -
  have Fc: "forest c h A cs Z t" and "cs \<noteq> []" using F by (auto simp: forest_Nd)
  show ?thesis
  proof (rule lowerBound_child[OF srt forestD(3)[OF Fc] \<open>cs \<noteq> []\<close>, where k = k])
    fix cs1 d cs2 assume s: "cs = cs1 @ d # cs2"
      "lowerBoundLoop (\<lambda>e. kcmp e k) (map fst (seps cs)) (length (seps cs)) = int (length cs1) - 1"
      "\<And>e. e \<in> set (fents cs1) \<Longrightarrow> kcmp (fst e) k \<le> 0" "cs2 \<noteq> [] \<Longrightarrow> 0 < kcmp (lastkey d) k"
    have "lowerBoundInner (\<lambda>e. kcmp e k) (innerNode cs) = Inr (int (length cs1) - 1)"
      using s(2) by (simp add: lowerBoundInner_def innerNode_def)
    moreover have "innerRef (innerNode cs) (int (length cs1) - 1) = Inr (blk d)"
      unfolding s(1) by (rule innerRef_innerNode)
    moreover have "int (length cs1) - 1 = -1 \<longrightarrow> blk d = lref (innerNode cs)"
      using s(1) by (simp add: innerNode_def)
    ultimately show ?thesis using s unfolding selects_def by blast
  qed
qed

lemma findPrev_descend:
  "forest c h A [T] Z t \<Longrightarrow> sorted_ents kcmp (tents T) \<Longrightarrow> prev_ref A t r \<Longrightarrow>
   findPrevDescend (Suc h) (\<lambda>e. kcmp e k) (blk T) t =
     Inr (if count_le k (tents T) = 0 then r else trefs T ! (count_le k (tents T) - 1), t)"
proof (induction h arbitrary: A T Z r)
  case 0
  then have "wf_tree c 0 T" by (simp add: forest_def)
  then obtain b es where T: "T = Lf b es" "es \<noteq> []" by (rule wf_tree_0E)
  have ch: "chain (pg t) 0 (A @ b # Z)" using forestD(6)[OF 0(1)] T by simp
  obtain l rr where nd: "pg t b = Some (LeafN l rr es)" using forestD(1)[OF 0(1), of T] T by auto
  have l: "l = last (0 # A)" using chain_links[OF ch] nd by auto
  let ?n = "count_le k es"
  have n: "?n \<le> length es" by (simp add: count_le_def length_takeWhile_le)
  have lb: "lowerBoundLeaf (\<lambda>e. kcmp e k) (LeafN l rr es) = Inr (int ?n - 1)"
    using lowerBound_leaf[of es k] 0(2) T by (simp add: lowerBoundLeaf_def count_le_def)
  have run: "findPrevDescend (Suc 0) (\<lambda>e. kcmp e k) b t = findPrevInLeaf b l (int ?n - 1) (addUse b t)"
    using nd lb by (simp add: read_page_some)
  show ?case
  proof (cases "?n = 0")
    case False
    then have "?n - 1 < length es" using n by simp
    then show ?thesis unfolding T blk.simps run using n False by (simp add: findPrevInLeaf_def of_nat_diff)
  next
    case True
    show ?thesis
    proof (cases "A = []")
      case True
      then show ?thesis unfolding T blk.simps run using l \<open>?n = 0\<close> 0(3) by (simp add: findPrevInLeaf_def prev_ref_def)
    next
      case False
      then obtain lz rz ez where z: "pg t l = Some (LeafN lz rz ez)" "ez \<noteq> []" "r = (l, int (length ez) - 1)"
        using 0(3) l by (auto simp: prev_ref_def)
      have "0 < l" using forestD(5)[OF 0(1), of l] l False by simp
      then show ?thesis unfolding T blk.simps run using z \<open>?n = 0\<close> by (simp add: findPrevInLeaf_def read_page_some)
    qed
  qed
next
  case (Suc h)
  have "wf_tree c (Suc h) T" "repr (pg t) T" using Suc.prems(1) by (simp_all add: forest_def)
  then obtain b cs where T: "T = Nd b cs" by (auto elim: wf_tree_SucE)
  have F: "forest c (Suc h) A [Nd b cs] Z t" and srt: "sorted_ents kcmp (fents cs)"
    using Suc.prems(1,2) T by simp_all
  obtain cs1 d cs2 i where s: "cs = cs1 @ d # cs2" "selects kcmp k cs1 d cs2"
    and i: "lowerBoundInner (\<lambda>e. kcmp e k) (innerNode cs) = Inr i" "innerRef (innerNode cs) i = Inr (blk d)"
      "i = -1 \<Longrightarrow> blk d = lref (innerNode cs)"
    using lowerBound_select[OF F srt, of k] by auto
  have Fc: "forest c h A cs Z t" and nd: "pg t b = Some (innerNode cs)" using F by (auto simp: forest_Nd)
  have Fd: "forest c h (A @ fleaves cs1) [d] (fleaves cs2 @ Z) t"
    using forest_sub[of c h A cs1 "[d]" cs2 Z t] Fc s(1) by simp
  have dne: "tents d \<noteq> []" using forestD(3)[OF Fd] by simp
  have pr: "prev_ref (A @ fleaves cs1) t (if cs1 = [] then r else last (frefs cs1))"
    by (rule prev_ref_snoc[of c h A cs1 "d # cs2"]) (use Fc s(1) Suc.prems(3) in simp_all)
  have "findPrevDescend (Suc (Suc h)) (\<lambda>e. kcmp e k) (blk T) t = findPrevDescend (Suc h) (\<lambda>e. kcmp e k) (blk d) t"
    using nd i T by (simp add: read_page_some innerNode_def findPrevDescend.simps(2)[of "Suc h"]
      del: findPrevDescend.simps(2))
  also have "\<dots> = Inr (if count_le k (tents d) = 0 then if cs1 = [] then r else last (frefs cs1)
      else trefs d ! (count_le k (tents d) - 1), t)"
    using Suc.IH[OF Fd _ pr] sorted_child[of cs1 d cs2] srt s(1) by simp
  also have "(if count_le k (tents d) = 0 then if cs1 = [] then r else last (frefs cs1)
      else trefs d ! (count_le k (tents d) - 1))
    = (if count_le k (tents T) = 0 then r else trefs T ! (count_le k (tents T) - 1))"
  proof -
    have fl: "length (frefs cs1) = length (fents cs1)" by (rule length_frefs)
    have cnt: "count_le k (tents T) = length (frefs cs1) + count_le k (tents d)"
      using count_le_split[OF s(2) dne] T s(1) fl by simp
    have tr: "trefs T = frefs cs1 @ trefs d @ frefs cs2" using T s(1) by simp
    have le: "count_le k (tents d) \<le> length (trefs d)" by (simp add: count_le_def length_takeWhile_le)
    have emp: "cs1 = [] \<longleftrightarrow> frefs cs1 = []"
      using forestD(2)[OF Fc, of "hd cs1"] s(1) trefs_nonempty[of c h "hd cs1"] by (cases cs1) auto
    show ?thesis unfolding cnt tr emp by (rule pick_append[OF le])
  qed
  finally show ?case .
qed

end

section \<open>findNext\<close>

lemma nextLoop_spec:
  "nextLoop cmp ks i = (if length (takeWhile (\<lambda>k. cmp k < 0) ks) < length ks
     then int (i + length (takeWhile (\<lambda>k. cmp k < 0) ks)) else -1)"
  by (induction cmp ks i rule: nextLoop.induct) auto

text \<open>The blocks of \<open>L\<close> have one use more.\<close>

definition addLeaks :: "int set \<Rightarrow> ('k, 'v) btree \<Rightarrow> ('k, 'v) btree" where
  "addLeaks L t = t\<lparr>store := (store t)\<lparr>use := (\<lambda>b. use (store t) b + of_bool (b \<in> L))\<rparr>\<rparr>"

lemma addLeaks_empty [simp]: "addLeaks {} t = t"
  by (simp add: addLeaks_def)

lemma pg_addLeaks [simp]: "pg (addLeaks L t) = pg t"
  by (simp add: addLeaks_def)

lemma addLeaks_addUse: "b \<notin> L \<Longrightarrow> addLeaks L (addUse b t) = addLeaks (insert b L) t"
  by (auto simp: addLeaks_def fun_eq_iff intro!: btree.equality pstore.equality)

lemma pick_append_lt:
  assumes "zs \<noteq> [] \<Longrightarrow> n < length ys"
  shows "(if n < length ys then ys ! n else r)
    = (if length xs + n < length (xs @ ys @ zs) then (xs @ ys @ zs) ! (length xs + n) else r)"
  using assms by (cases "zs = []") (auto simp: nth_append)

definition count_lt :: "('k \<Rightarrow> int) \<Rightarrow> ('k \<times> 'v) list \<Rightarrow> nat" where
  "count_lt f es = length (takeWhile (\<lambda>e. f (fst e) < 0) es)"

context key_order
begin

text \<open>What the search relies on: the entries for which the comparison is negative come first.\<close>

definition cut :: "('k \<Rightarrow> int) \<Rightarrow> bool" where
  "cut f \<longleftrightarrow> (\<forall>a b. kcmp a b \<le> 0 \<longrightarrow> f b < 0 \<longrightarrow> f a < 0)"

lemma cut_key: "cut (\<lambda>e. kcmp e k)"
  unfolding cut_def
proof (intro allI impI)
  fix a b assume "kcmp a b \<le> 0" "kcmp b k < 0"
  then show "kcmp a k < 0" using kcmp_sym[of k b] kcmp_sym[of k a] kcmp_trans[of k a b] by linarith
qed

lemma count_lt_split:
  assumes "\<And>e. e \<in> set (fents cs1) \<Longrightarrow> f (fst e) < 0"
    "cs2 \<noteq> [] \<Longrightarrow> 0 \<le> f (lastkey d)" "tents d \<noteq> []"
  shows "count_lt f (fents (cs1 @ d # cs2)) = length (fents cs1) + count_lt f (tents d)"
    "cs2 \<noteq> [] \<Longrightarrow> count_lt f (tents d) < length (tents d)"
proof -
  let ?P = "\<lambda>e. f (fst e) < 0"
  have "takeWhile ?P (fents cs1 @ tents d @ fents cs2) = fents cs1 @ takeWhile ?P (tents d @ fents cs2)"
    using assms(1) by (intro takeWhile_append2) auto
  moreover have *: "last (tents d) \<in> set (tents d)" "\<not> ?P (last (tents d))" if "cs2 \<noteq> []"
    using assms(2,3) that by (auto simp: lastkey_def)
  have "takeWhile ?P (tents d @ fents cs2) = takeWhile ?P (tents d)"
  proof (cases "cs2 = []")
    case False
    show ?thesis by (rule takeWhile_append1[of _ _ ?P, OF *(1)[OF False] *(2)[OF False]])
  qed simp
  ultimately show "count_lt f (fents (cs1 @ d # cs2)) = length (fents cs1) + count_lt f (tents d)"
    by (simp add: count_lt_def)
  show "count_lt f (tents d) < length (tents d)" if "cs2 \<noteq> []"
  proof -
    have "dropWhile ?P (tents d) \<noteq> []" using *[OF that] by auto
    then have "0 < length (dropWhile ?P (tents d))" by simp
    moreover have "length (tents d) = length (takeWhile ?P (tents d)) + length (dropWhile ?P (tents d))"
      by (metis length_append takeWhile_dropWhile_id)
    ultimately show ?thesis by (simp add: count_lt_def)
  qed
qed

lemma next_child:
  assumes cut: "cut f" and srt: "sorted_ents kcmp (fents cs)" and ne: "\<And>T. T \<in> set cs \<Longrightarrow> tents T \<noteq> []" and "cs \<noteq> []"
  obtains cs1 d cs2 where "cs = cs1 @ d # cs2"
    "nextInInner f (seps cs) = (if cs2 = [] then -1 else int (length cs1))"
    "\<And>e. e \<in> set (fents cs1) \<Longrightarrow> f (fst e) < 0" "cs2 \<noteq> [] \<Longrightarrow> 0 \<le> f (lastkey d)"
proof -
  define ks where "ks = map lastkey (butlast cs)"
  define n where "n = length (takeWhile (\<lambda>x. f x < 0) ks)"
  have len: "length ks = length cs - 1" by (simp add: ks_def)
  have n: "n \<le> length ks" unfolding n_def by (rule length_takeWhile_le)
  then have nl: "n < length cs" using len \<open>cs \<noteq> []\<close> by (cases cs) auto
  have eq: "cs = take n cs @ cs ! n # drop (Suc n) cs" using nl by (rule id_take_nth_drop)
  have ks_nth: "ks ! i = lastkey (cs ! i)" if "i < length cs - 1" for i
    using that by (simp add: ks_def nth_butlast)
  have "nextInInner f (seps cs) = (if drop (Suc n) cs = [] then -1 else int (length (take n cs)))"
    using nextLoop_spec[of f ks 0] nl len unfolding nextInInner_def map_fst_seps ks_def[symmetric]
    by (auto simp: n_def)
  moreover have "f (fst e) < 0" if e: "e \<in> set (fents (take n cs))" for e
  proof -
    from e obtain T where "T \<in> set (take n cs)" "e \<in> set (tents T)" by auto
    then obtain i where "i < n" "cs ! i = T" using nl by (auto simp: in_set_conv_nth)
    then have i: "i < n" "e \<in> set (tents (cs ! i))" using \<open>e \<in> set (tents T)\<close> by simp_all
    have "takeWhile (\<lambda>x. f x < 0) ks ! i \<in> set (takeWhile (\<lambda>x. f x < 0) ks)"
      using i(1) n_def by auto
    then have "f (ks ! i) < 0" using i(1) n_def takeWhile_nth set_takeWhileD by metis
    then have lk: "f (lastkey (cs ! i)) < 0" using ks_nth i n len by simp
    have "sorted_ents kcmp (tents (cs ! i))"
      using srt sorted_child[of "take i cs" "cs ! i" "drop (Suc i) cs"] id_take_nth_drop[of i cs] i nl by simp
    then have "kcmp (fst e) (lastkey (cs ! i)) \<le> 0" using i(2) sorted_ents_le_last unfolding lastkey_def by metis
    then show ?thesis using cut lk by (auto simp: cut_def)
  qed
  moreover have "0 \<le> f (lastkey (cs ! n))" if "drop (Suc n) cs \<noteq> []"
  proof -
    have "n < length ks" using that len by simp
    then have "\<not> f (ks ! n) < 0" unfolding n_def by (rule nth_length_takeWhile)
    then show ?thesis using ks_nth \<open>n < length ks\<close> len by simp
  qed
  ultimately show ?thesis by (rule that[OF eq])
qed

lemma findNext_descend:
  assumes cut: "cut f"
  shows "repr (pg t) T \<Longrightarrow> wf_tree c h T \<Longrightarrow> distinct (tblocks T) \<Longrightarrow> sorted_ents kcmp (tents T) \<Longrightarrow>
   \<exists>L. findNextDescend (Suc h) f (blk T) t =
     Inr (if count_lt f (tents T) < length (tents T) then trefs T ! count_lt f (tents T) else no_ref, addLeaks L t)
     \<and> L \<subseteq> set (tblocks T) - set (tleaves T)"
proof (induction h arbitrary: T t)
  case 0
  from 0(2) obtain b es where T: "T = Lf b es" "es \<noteq> []" by (rule wf_tree_0E)
  obtain l r where nd: "pg t b = Some (LeafN l r es)" using 0(1) T by auto
  have "nextInLeaf f es = (if count_lt f es < length es then int (count_lt f es) else -1)"
    using nextLoop_spec[of f "map fst es" 0]
    by (simp add: nextInLeaf_def count_lt_def takeWhile_map comp_def)
  then show ?case using nd T by (intro exI[of _ "{}"]) (simp add: read_page_some)
next
  case (Suc h)
  from Suc.prems(2) obtain b cs where T: "T = Nd b cs" "2 \<le> length cs" "\<And>d. d \<in> set cs \<Longrightarrow> wf_tree c h d"
    by (rule wf_tree_SucE) blast
  have nd: "pg t b = Some (innerNode cs)" using Suc.prems(1) T by simp
  have ne: "tents d \<noteq> []" if "d \<in> set cs" for d using wf_tents_nonempty[OF T(3)[OF that]] .
  have srt: "sorted_ents kcmp (fents cs)" and cne: "cs \<noteq> []" using Suc.prems(4) T by auto
  obtain cs1 d cs2 where s: "cs = cs1 @ d # cs2"
    "nextInInner f (seps cs) = (if cs2 = [] then -1 else int (length cs1))"
    "\<And>e. e \<in> set (fents cs1) \<Longrightarrow> f (fst e) < 0" "cs2 \<noteq> [] \<Longrightarrow> 0 \<le> f (lastkey d)"
    using next_child[OF cut srt ne cne] by blast
  have d: "repr (pg t') d" if "pg t' = pg t" for t' using Suc.prems(1) T s(1) that by simp
  have dd: "distinct (tblocks d)" "sorted_ents kcmp (tents d)" "wf_tree c h d" "tents d \<noteq> []"
    using Suc.prems(3) T s(1) sorted_child[of cs1 d cs2] srt ne by auto
  have bd: "b \<notin> set (tblocks d)" using Suc.prems(3) T s(1) by simp
  have ref: "innerRef (innerNode cs) (int (length cs1) - 1) = Inr (blk d)"
    unfolding s(1) by (rule innerRef_innerNode)
  have rest: "(if count_lt f (tents d) < length (tents d) then trefs d ! count_lt f (tents d) else no_ref)
    = (if count_lt f (tents T) < length (tents T) then trefs T ! count_lt f (tents T) else no_ref)"
  proof -
    have cnt: "count_lt f (tents T) = length (frefs cs1) + count_lt f (tents d)"
      using count_lt_split(1)[OF s(3,4) dd(4)] T s(1) length_frefs[of cs1] by simp
    have tr: "trefs T = frefs cs1 @ trefs d @ frefs cs2" using T s(1) by simp
    have "cs2 = [] \<Longrightarrow> frefs cs2 = []" by simp
    then have "frefs cs2 \<noteq> [] \<Longrightarrow> count_lt f (tents d) < length (trefs d)"
      using count_lt_split(2)[of cs1 f cs2 d, OF s(3,4) dd(4)] length_trefs[of d] by metis
    then show ?thesis
      using pick_append_lt[of "frefs cs2" "count_lt f (tents d)" "trefs d" no_ref "frefs cs1"]
      unfolding length_trefs[symmetric] cnt tr by simp
  qed
  let ?go = "findNextDescend (Suc (Suc h)) f (blk T) t"
  have step: "?go = findNextDescend (Suc h) f (blk d) t \<or>
        ?go = findNextDescend (Suc h) f (blk d) (addUse b t)"
  proof -
    have go: "?go = (let i = nextInInner f (seps cs) in
      if i = -1 then
        res_bind (if seps cs = [] then Inl BadPage else innerRef (innerNode cs) (int (length (seps cs)) - 1))
          (\<lambda>ch. findNextDescend (Suc h) f ch t)
      else if i = 0 then findNextDescend (Suc h) f (blk (hd cs)) t
      else res_bind (innerRef (innerNode cs) (i - 1))
        (\<lambda>ch. findNextDescend (Suc h) f ch (addUse b t)))"
      using nd T(1) by (simp add: read_page_some innerNode_def Let_def findNextDescend.simps(2)[of "Suc h"]
        del: findNextDescend.simps(2))
    consider "cs2 = []" | "cs2 \<noteq> []" "cs1 = []" | "cs2 \<noteq> []" "cs1 \<noteq> []" by blast
    then show ?thesis
    proof cases
      case 1
      have "length (seps cs) = length cs1" "seps cs \<noteq> []" using s(1) 1 T(2) by (auto simp flip: length_0_conv)
      then show ?thesis unfolding go s(2) using 1 ref by simp
    next
      case 2
      then show ?thesis unfolding go s(2) using s(1) by simp
    next
      case 3
      then show ?thesis unfolding go s(2) using ref by simp
    qed
  qed
  have sub: "set (tblocks d) - set (tleaves d) \<subseteq> set (tblocks T) - set (tleaves T)"
  proof -
    have "set (tblocks d) \<inter> set (fblocks cs1) = {}" "set (tblocks d) \<inter> set (fblocks cs2) = {}"
      using Suc.prems(3) T s(1) by (auto simp del: set_concat set_map)
    then show ?thesis using T s(1) fleaves_subset[of cs1] fleaves_subset[of cs2]
      by (auto simp del: set_concat set_map)
  qed
  from step show ?case
  proof
    assume go: "?go = findNextDescend (Suc h) f (blk d) t"
    from Suc.IH[OF d dd(3,1,2), of t, OF refl] show ?thesis
      unfolding go rest using sub by blast
  next
    assume go: "?go = findNextDescend (Suc h) f (blk d) (addUse b t)"
    from Suc.IH[OF d dd(3,1,2), of "addUse b t"] obtain L where
      L: "findNextDescend (Suc h) f (blk d) (addUse b t) =
        Inr (if count_lt f (tents T) < length (tents T) then trefs T ! count_lt f (tents T) else no_ref,
          addLeaks L (addUse b t))" "L \<subseteq> set (tblocks d) - set (tleaves d)"
      unfolding rest by auto
    have "b \<notin> L" using L(2) bd by auto
    moreover have "b \<in> set (tblocks T) - set (tleaves T)"
      using Suc.prems(3) T s(1) fleaves_subset[of cs] by (auto simp del: set_concat set_map)
    ultimately show ?thesis unfolding go L(1) using L(2) sub
      by (intro exI[of _ "insert b L"]) (auto simp: addLeaks_addUse)
  qed
qed

end

section \<open>Searches from the root\<close>

context key_order
begin

lemma inv_cases:
  assumes "tree_inv kcmp c T t"
  obtains h where "forest c h [] [T] [] t" "nat (depth t) = Suc h" "blk T = rootBlock t" "sorted_ents kcmp (tents T)"
    "tents T \<noteq> []"
  | b where "T = Lf b []" "rootBlock t = b" "pg t b = Some (LeafN 0 0 [])" "nat (depth t) = Suc 0"
  using assms forestD(3)[of c _ "[]" "[T]" "[]" t T] by (auto simp: tree_inv_def nat_add_distrib)

lemma findFirst_correct:
  assumes "tree_inv kcmp c T t"
  shows "findFirst t = Inr (if tents T = [] then no_ref else hd (trefs T), t)"
  using assms
proof (cases rule: inv_cases)
  case (1 h)
  then have "repr (pg t) T" "wf_tree c h T" by (simp_all add: forest_def)
  then show ?thesis using findFirst_descend[of t T c h] 1 by (simp add: findFirst_def)
next
  case (2 b)
  then show ?thesis by (simp add: findFirst_def read_page_some)
qed

lemma findPrev_correct:
  assumes "tree_inv kcmp c T t"
  shows "findPrev (\<lambda>e. kcmp e k) t =
    Inr (if count_le k (tents T) = 0 then no_ref else trefs T ! (count_le k (tents T) - 1), t)"
  using assms
proof (cases rule: inv_cases)
  case (1 h)
  then show ?thesis using findPrev_descend[of c h "[]" T "[]" t no_ref k] by (simp add: findPrev_def prev_ref_def)
next
  case (2 b)
  then show ?thesis by (simp add: findPrev_def read_page_some lowerBoundLeaf_def findPrevInLeaf_def count_le_def)
qed

lemma findNext_correct:
  assumes cut: "cut f" and "tree_inv kcmp c T t"
  shows "\<exists>L. findNext f t =
      Inr (if count_lt f (tents T) < length (tents T) then trefs T ! count_lt f (tents T) else no_ref, addLeaks L t)
    \<and> L \<subseteq> set (tblocks T) - set (tleaves T)"
  using assms(2)
proof (cases rule: inv_cases)
  case (1 h)
  then have "repr (pg t) T" "wf_tree c h T" "distinct (tblocks T)" by (simp_all add: forest_def)
  then show ?thesis using findNext_descend[OF cut, of t T c h] 1 by (simp add: findNext_def)
next
  case (2 b)
  then show ?thesis by (intro exI[of _ "{}"]) (simp add: findNext_def read_page_some nextInLeaf_def)
qed

end

section \<open>Iteration\<close>

text \<open>The references by leaf: \<open>cnt t b\<close> is the number of entries in leaf \<open>b\<close>.\<close>

definition cnt :: "('k, 'v) btree \<Rightarrow> int \<Rightarrow> nat" where
  "cnt t b = (case pg t b of Some (LeafN _ _ es) \<Rightarrow> length es | _ \<Rightarrow> 0)"

definition leaf_refs :: "('k, 'v) btree \<Rightarrow> int list \<Rightarrow> bref list" where
  "leaf_refs t bs = concat (map (\<lambda>b. map (\<lambda>i. (b, int i)) [0..<cnt t b]) bs)"

lemma leaf_refs_append: "leaf_refs t (xs @ ys) = leaf_refs t xs @ leaf_refs t ys"
  by (simp add: leaf_refs_def)

lemma frefs_leaf_refs_aux:
  "(\<And>T. T \<in> set ts \<Longrightarrow> trefs T = leaf_refs t (tleaves T)) \<Longrightarrow> frefs ts = leaf_refs t (fleaves ts)"
  by (induction ts) (auto simp: leaf_refs_append, simp add: leaf_refs_def)

lemma trefs_leaf_refs: "repr (pg t) T \<Longrightarrow> trefs T = leaf_refs t (tleaves T)"
proof (induction T)
  case (Lf b es)
  then show ?case by (auto simp: leaf_refs_def cnt_def)
next
  case (Nd b cs)
  then show ?case using frefs_leaf_refs_aux[of cs t] by simp
qed

lemma cnt_pos: "repr (pg t) T \<Longrightarrow> wf_tree c h T \<Longrightarrow> b \<in> set (tleaves T) \<Longrightarrow> 0 < cnt t b"
proof (induction T arbitrary: h)
  case (Nd p cs)
  then show ?case by (cases h) auto
qed (auto simp: cnt_def)

lemma leaf_refs_step:
  assumes "\<And>b. b \<in> set bs \<Longrightarrow> 0 < cnt t b" "j < length (leaf_refs t bs)"
  shows "\<exists>xs b ys i. bs = xs @ b # ys \<and> leaf_refs t bs ! j = (b, int i) \<and> i < cnt t b
    \<and> (if Suc i < cnt t b then Suc j < length (leaf_refs t bs) \<and> leaf_refs t bs ! Suc j = (b, int (Suc i))
       else if ys = [] then Suc j = length (leaf_refs t bs)
       else Suc j < length (leaf_refs t bs) \<and> leaf_refs t bs ! Suc j = (hd ys, 0))"
  using assms
proof (induction bs arbitrary: j)
  case (Cons a bs)
  have e: "leaf_refs t (a # bs) = map (\<lambda>i. (a, int i)) [0..<cnt t a] @ leaf_refs t bs" by (simp add: leaf_refs_def)
  show ?case
  proof (cases "j < cnt t a")
    case True
    have "leaf_refs t bs \<noteq> [] \<and> leaf_refs t bs ! 0 = (hd bs, 0)" if "bs \<noteq> []"
      using that Cons.prems(1)[of "hd bs"] by (cases bs) (auto simp: leaf_refs_def nth_append)
    then consider "Suc j < cnt t a" | "cnt t a = Suc j" "bs = []"
      | "cnt t a = Suc j" "bs \<noteq> []" "leaf_refs t bs \<noteq> []" "leaf_refs t bs ! 0 = (hd bs, 0)"
      using True by linarith
    then have "if Suc j < cnt t a
       then Suc j < length (leaf_refs t (a # bs)) \<and> leaf_refs t (a # bs) ! Suc j = (a, int (Suc j))
       else if bs = [] then Suc j = length (leaf_refs t (a # bs))
       else Suc j < length (leaf_refs t (a # bs)) \<and> leaf_refs t (a # bs) ! Suc j = (hd bs, 0)"
    proof cases
      case 1
      then show ?thesis by (simp add: e nth_append)
    next
      case 2
      then show ?thesis by (simp add: leaf_refs_def)
    next
      case 3
      have "length (map (\<lambda>i. (a, int i)) [0..<cnt t a]) = Suc j" using 3(1) by simp
      then show ?thesis using 3 unfolding e by (simp add: nth_append)
    qed
    moreover have "leaf_refs t (a # bs) ! j = (a, int j)" using True by (simp add: e nth_append)
    ultimately show ?thesis using True
      by (rule_tac exI[of _ "[]"], rule_tac exI[of _ a], rule_tac exI[of _ bs], rule_tac exI[of _ j]) simp
  next
    case False
    define j' where "j' = j - cnt t a"
    have j: "j = cnt t a + j'" using False by (simp add: j'_def)
    have len: "j' < length (leaf_refs t bs)" using Cons.prems(2) j by (simp add: e)
    have nth: "leaf_refs t (a # bs) ! j = leaf_refs t bs ! j'" "leaf_refs t (a # bs) ! Suc j = leaf_refs t bs ! Suc j'"
      by (simp_all add: e nth_append j)
    obtain xs b ys i where "bs = xs @ b # ys" "leaf_refs t bs ! j' = (b, int i)" "i < cnt t b"
      "if Suc i < cnt t b then Suc j' < length (leaf_refs t bs) \<and> leaf_refs t bs ! Suc j' = (b, int (Suc i))
       else if ys = [] then Suc j' = length (leaf_refs t bs)
       else Suc j' < length (leaf_refs t bs) \<and> leaf_refs t bs ! Suc j' = (hd ys, 0)"
      using Cons.IH[OF _ len] Cons.prems(1) by auto
    moreover have "length (leaf_refs t (a # bs)) = cnt t a + length (leaf_refs t bs)" by (simp add: e)
    ultimately show ?thesis unfolding nth
      by (rule_tac exI[of _ "a # xs"], rule_tac exI[of _ b], rule_tac exI[of _ ys], rule_tac exI[of _ i])
          (auto simp add: j split: if_splits)
  qed
qed (simp add: leaf_refs_def)

definition iter_of :: "bref \<Rightarrow> iter" where
  "iter_of r = \<lparr>it_block = fst r, it_entry = snd r\<rparr>"

lemma tree_inv_entry:
  assumes "tree_inv kcmp c T t" "j < length (tents T)"
  shows "entry_at t (trefs T ! j) = Some (tents T ! j)"
proof -
  have "repr (pg t) T" using assms by (auto simp: tree_inv_def forest_def)
  then show ?thesis using map_entry_at[of t T] assms(2) nth_map[of j "trefs T" "entry_at t"] by simp
qed

lemma iter_forward_correct:
  assumes "tree_inv kcmp c T t" "j < length (tents T)"
  shows "iter_forward (iter_of (trefs T ! j)) (addUse (fst (trefs T ! j)) t) =
    Inr (if Suc j < length (tents T) then (iter_of (trefs T ! Suc j), addUse (fst (trefs T ! Suc j)) t)
         else (iter_of no_ref, t))"
proof -
  obtain h where F: "forest c h [] [T] [] t" using assms by (auto simp: tree_inv_def)
  have R: "repr (pg t) T" "wf_tree c h T" using F by (simp_all add: forest_def)
  have tr: "trefs T = leaf_refs t (tleaves T)" using R(1) by (rule trefs_leaf_refs)
  have jl: "j < length (leaf_refs t (tleaves T))" using assms(2) tr length_trefs[of T] by simp
  from leaf_refs_step[OF cnt_pos[OF R] jl] obtain xs b ys i where
    S: "tleaves T = xs @ b # ys" "trefs T ! j = (b, int i)" "i < cnt t b"
      "if Suc i < cnt t b then Suc j < length (tents T) \<and> trefs T ! Suc j = (b, int (Suc i))
       else if ys = [] then Suc j = length (tents T)
       else Suc j < length (tents T) \<and> trefs T ! Suc j = (hd ys, 0)"
    unfolding tr[symmetric] length_trefs by blast
  have ch: "chain (pg t) 0 (xs @ b # ys)" using forestD(6)[OF F] S(1) by simp
  obtain es where nd: "pg t b = Some (LeafN (last (0 # xs)) (hd (ys @ [0])) es)" using chain_links[OF ch] by blast
  have c: "cnt t b = length es" using nd by (simp add: cnt_def)
  have pos: "0 < x" if "x \<in> set (tleaves T)" for x
    using forestD(5)[OF F, of x] that tleaves_subset_tblocks[of T] by auto
  have bp: "0 < b" using pos S(1) by simp
  consider "Suc i < length es" | "\<not> Suc i < length es" "ys = []" | y ys' where "\<not> Suc i < length es" "ys = y # ys'"
    by (cases ys) auto
  then show ?thesis
  proof cases
    case 1
    then show ?thesis using S nd c bp by (auto simp: iter_forward_def iter_of_def peek_page_def)
  next
    case 2
    then show ?thesis using S nd c bp
      by (auto simp: iter_forward_def iter_of_def peek_page_def no_ref_def not_less_eq less_Suc_eq)
  next
    case 3
    then have "0 < y" "y \<in> set (xs @ b # ys)" using pos[of y] S(1) by simp_all
    then obtain l r e where "pg t y = Some (LeafN l r e)" using chain_leaf[OF ch] by blast
    then show ?thesis using S nd c bp 3 \<open>0 < y\<close>
      by (auto simp: iter_forward_def iter_of_def peek_page_def read_page_some)
  qed
qed

lemma tree_inv_ref_pos:
  assumes "tree_inv kcmp c T t" "j < length (tents T)"
  shows "0 < fst (trefs T ! j)" "0 \<le> snd (trefs T ! j)"
proof -
  obtain h where F: "forest c h [] [T] [] t" using assms by (auto simp: tree_inv_def)
  have "repr (pg t) T" using F by (simp add: forest_def)
  then have tr: "trefs T = leaf_refs t (tleaves T)" by (rule trefs_leaf_refs)
  have "trefs T ! j \<in> set (leaf_refs t (tleaves T))" using assms(2) tr length_trefs[of T] nth_mem by metis
  then obtain b i where b: "b \<in> set (tleaves T)" "trefs T ! j = (b, int i)" by (auto simp: leaf_refs_def)
  then have "0 < b" using forestD(5)[OF F, of b] tleaves_subset_tblocks[of T] by auto
  then show "0 < fst (trefs T ! j)" "0 \<le> snd (trefs T ! j)" using b by auto
qed

end
