(* ===== verification/Btree_Spec.thy ===== *)
theory Btree_Spec
  imports Btree_Find
begin

text \<open>
  What the B+-tree promises to its clients, over the invariant \<open>tree_inv\<close>: every entry list that
  insertions build is kept, searches return the references the order prescribes, and iteration
  enumerates the entries. The tree \<open>tree0\<close> is the one \<open>createTree\<close> makes.
\<close>

section \<open>A tree as it is created\<close>

definition tree0 :: "('k, 'v) btree" where
  "tree0 = \<lparr>store = \<lparr>buf = [1 \<mapsto> LeafN 0 0 []], use = (\<lambda>_. 0), dirty = (\<lambda>_. False)(1 := True)\<rparr>,
     rootBlock = 1, numBlocks = 2, depth = 1\<rparr>"

lemma createTree_tree0: "createTree = Inr tree0"
  by (simp add: createTree_def tree0_def onStore_def store_ops empty_store_def fun_eq_iff)

lemma tree0_inv: "tree_inv kcmp c (Lf 1 []) tree0"
  by (simp add: tree_inv_def tree0_def sorted_ents_def)

section \<open>Sequences of insertions\<close>

fun insert_all :: "bt_cfg \<Rightarrow> ('k \<Rightarrow> 'k \<Rightarrow> int) \<Rightarrow> ('k \<times> 'v) list \<Rightarrow> ('k, 'v) btree \<Rightarrow> ('k, 'v) btree res" where
  "insert_all c kcmp [] t = Inr t"
| "insert_all c kcmp ((k, v) # ps) t =
     res_bind (btree_insert c (\<lambda>e. kcmp e k) k v t) (insert_all c kcmp ps)"

context key_order
begin

lemma insert_all_correct:
  "tree_inv kcmp c T t \<Longrightarrow> cfg_ok c \<Longrightarrow>
   \<exists>t' T'. insert_all c kcmp ps t = Inr t' \<and> tree_inv kcmp c T' t'
     \<and> tents T' = fold (\<lambda>(k, v). ins_after kcmp k v) ps (tents T) \<and> use (store t') = use (store t)"
proof (induction ps arbitrary: T t)
  case Nil
  then show ?case by auto
next
  case (Cons p ps)
  obtain k v where p: "p = (k, v)" by (cases p)
  obtain t1 T1 where "btree_insert c (\<lambda>e. kcmp e k) k v t = Inr t1" "tree_inv kcmp c T1 t1"
    "tents T1 = ins_after kcmp k v (tents T)" "use (store t1) = use (store t)"
    using insert_correct[OF Cons.prems, of k v] by blast
  then show ?case using Cons.IH[of T1 t1] Cons.prems(2) p by auto
qed

end

section \<open>Scanning\<close>

text \<open>A client's loop over the entries from an iterator on, as in the callers of \<open>IterateClosure\<close>.\<close>

fun scan :: "nat \<Rightarrow> iter \<Rightarrow> ('k, 'v) btree \<Rightarrow> (('k \<times> 'v) list \<times> ('k, 'v) btree) res" where
  "scan 0 it t = Inl OutOfFuel"
| "scan (Suc f) it t =
     (if iter_valid it then
        res_bind (iter_entry it t) (\<lambda>e.
        res_bind (iter_forward it t) (\<lambda>(it, t).
        res_bind (scan f it t) (\<lambda>(es, t). Inr (e # es, t))))
      else res_bind (iter_destroy it t) (\<lambda>t. Inr ([], t)))"

definition scan_from :: "nat \<Rightarrow> bref \<Rightarrow> ('k, 'v) btree \<Rightarrow> (('k \<times> 'v) list \<times> ('k, 'v) btree) res" where
  "scan_from f r t = res_bind (iter_seek r new_iter t) (\<lambda>(it, t). scan f it t)"

lemma iter_entry_correct:
  assumes "tree_inv kcmp c T t" "j < length (tents T)"
  shows "iter_entry (iter_of (trefs T ! j)) (addUse (fst (trefs T ! j)) t) = Inr (tents T ! j)"
  using tree_inv_entry[OF assms] tree_inv_ref_pos[OF assms]
  by (auto simp: entry_at_def iter_entry_def iter_of_def peek_page_def split: option.splits node.splits if_splits)

lemma iter_seek_correct:
  assumes "tree_inv kcmp c T t" "j < length (tents T)"
  shows "iter_seek (trefs T ! j) new_iter t = Inr (iter_of (trefs T ! j), addUse (fst (trefs T ! j)) t)"
proof -
  have "entry_at t (trefs T ! j) \<noteq> None" using tree_inv_entry[OF assms] by simp
  then obtain nd where "pg t (fst (trefs T ! j)) = Some nd" by (auto simp: entry_at_def split: option.splits)
  then show ?thesis using tree_inv_ref_pos[OF assms] by (simp add: iter_seek_def new_iter_def iter_of_def read_page_some)
qed

lemma iter_destroy_correct:
  assumes "tree_inv kcmp c T t" "j < length (tents T)"
  shows "iter_destroy (iter_of (trefs T ! j)) (addUse (fst (trefs T ! j)) t) = Inr t"
  using tree_inv_ref_pos[OF assms] by (simp add: iter_destroy_def iter_of_def)

lemma scan_correct:
  assumes "tree_inv kcmp c T t"
  shows "j < length (tents T) \<Longrightarrow> length (tents T) < f + j \<Longrightarrow>
   scan f (iter_of (trefs T ! j)) (addUse (fst (trefs T ! j)) t) = Inr (drop j (tents T), t)"
proof (induction f arbitrary: j)
  case (Suc f)
  let ?it = "iter_of (trefs T ! j)" and ?t = "addUse (fst (trefs T ! j)) t"
  have valid: "iter_valid ?it"
    using tree_inv_ref_pos[OF assms Suc.prems(1)] by (simp add: iter_valid_def iter_of_def)
  note entry = iter_entry_correct[OF assms Suc.prems(1)]
  have step: "scan (Suc f) ?it ?t = res_bind (iter_forward ?it ?t) (\<lambda>(it, t).
      res_bind (scan f it t) (\<lambda>(es, t). Inr (tents T ! j # es, t)))"
    using valid entry by simp
  show ?case
  proof (cases "Suc j < length (tents T)")
    case True
    have "scan f (iter_of (trefs T ! Suc j)) (addUse (fst (trefs T ! Suc j)) t) = Inr (drop (Suc j) (tents T), t)"
      using Suc.prems True by (intro Suc.IH) simp_all
    then show ?thesis unfolding step iter_forward_correct[OF assms Suc.prems(1)]
      using True Suc.prems(1) by (simp add: Cons_nth_drop_Suc)
  next
    case False
    then obtain f' where "f = Suc f'" using Suc.prems by (cases f) auto
    then have "scan f (iter_of no_ref) t = Inr ([], t)"
      by (simp add: iter_of_def no_ref_def iter_valid_def iter_destroy_def)
    then show ?thesis unfolding step iter_forward_correct[OF assms Suc.prems(1)]
      using False Suc.prems(1) by (simp add: Cons_nth_drop_Suc[symmetric])
  qed
qed simp

lemma scan_from_correct:
  assumes "tree_inv kcmp c T t" "j < length (tents T)" "length (tents T) < f + j"
  shows "scan_from f (trefs T ! j) t = Inr (drop j (tents T), t)"
  using iter_seek_correct[OF assms(1,2)] scan_correct[OF assms] by (simp add: scan_from_def)

lemma scan_from_no_ref: "scan_from (Suc f) no_ref t = Inr ([], t)"
  by (simp add: scan_from_def iter_seek_def new_iter_def no_ref_def iter_valid_def iter_destroy_def)

lemma tree_inv_entries:
  assumes "tree_inv kcmp c T t"
  shows "map (entry_at t) (trefs T) = map Some (tents T)"
proof -
  have "tents T = [] \<or> repr (pg t) T" using assms by (auto simp: tree_inv_def forest_def)
  moreover have "trefs T = []" if "tents T = []" using that by (metis length_0_conv length_trefs)
  ultimately show ?thesis using map_entry_at[of t T] by auto
qed

section \<open>Properties\<close>

text \<open>A configuration and an order for the concrete instances: 64-byte blocks, 4-byte keys and values.\<close>

definition cfg0 :: bt_cfg where
  "cfg0 = \<lparr>blockSize = 64, keySize = 4, valSize = 4\<rparr>"

definition icmp :: "int \<Rightarrow> int \<Rightarrow> int" where
  "icmp a b = a - b"

lemma icmp_order: "key_order icmp"
  by unfold_locales (auto simp: icmp_def)

lemma cfg0_ok: "cfg_ok cfg0"
  by (simp add: cfg_ok_def cfg0_def entsPerInner_def entsPerLeaf_def)

text \<open>
  C6. Insertion into a valid tree never fails, keeps the invariant (balance, node sizes, leaf links,
  separators), puts the new entry after all entries that are not greater, leaves every use count as
  it was and marks every page it changes dirty.
\<close>

theorem btree_insert_correct:
  assumes "key_order kcmp" "cfg_ok c" "tree_inv kcmp c T t"
  shows "\<exists>t' T'. btree_insert c (\<lambda>e. kcmp e k) k v t = Inr t' \<and> tree_inv kcmp c T' t'
    \<and> tents T' = ins_after kcmp k v (tents T) \<and> use (store t') = use (store t)
    \<and> (\<forall>b. buf (store t') b \<noteq> buf (store t) b \<longrightarrow> dirty (store t') b)"
  using key_order.insert_correct[OF assms(1,3,2), of k v] by (auto simp: evo_def)

theorem btree_insert_correct_witness:
  "\<exists>t' T'. btree_insert cfg0 (\<lambda>e. icmp e 5) 5 ''v'' (tree0 :: (int, string) btree) = Inr t' \<and> tree_inv icmp cfg0 T' t'
    \<and> tents T' = [(5, ''v'')] \<and> use (store t') = use (store (tree0 :: (int, string) btree))
    \<and> (\<forall>b. buf (store t') b \<noteq> buf (store (tree0 :: (int, string) btree)) b \<longrightarrow> dirty (store t') b)"
  using btree_insert_correct[where k = 5 and v = "''v''", OF icmp_order cfg0_ok tree0_inv] by (simp add: ins_after_def)

text \<open>
  C7. Any sequence of insertions into a new tree succeeds, and reading the tree back from
  \<open>findFirst\<close> with the iterator yields exactly the inserted entries, in key order, equal keys in
  insertion order, with all pages released.
\<close>

theorem btree_insert_scan:
  assumes "key_order kcmp" "cfg_ok c"
  shows "\<exists>t r. res_bind createTree (insert_all c kcmp ps) = Inr t \<and> findFirst t = Inr (r, t)
    \<and> scan_from (Suc (length ps)) r t = Inr (fold (\<lambda>(k, v). ins_after kcmp k v) ps [], t)
    \<and> sorted_ents kcmp (fold (\<lambda>(k, v). ins_after kcmp k v) ps [])
    \<and> (\<forall>b. use (store t) b = 0)"
proof -
  let ?es = "fold (\<lambda>(k, v). ins_after kcmp k v) ps []"
  obtain t T where t: "insert_all c kcmp ps tree0 = Inr t" "tree_inv kcmp c T t" "tents T = ?es"
    "use (store t) = use (store (tree0 :: ('a, 'b) btree))"
    using key_order.insert_all_correct[OF assms(1) tree0_inv assms(2), of ps] by auto
  have len: "length (fold (\<lambda>(k, v). ins_after kcmp k v) ps es) = length ps + length es" for es
    by (induction ps arbitrary: es) auto
  have ff: "findFirst t = Inr (if ?es = [] then no_ref else hd (trefs T), t)"
    using key_order.findFirst_correct[OF assms(1) t(2)] t(3) by simp
  have "scan_from (Suc (length ps)) (if ?es = [] then no_ref else hd (trefs T)) t = Inr (?es, t)"
  proof (cases "?es = []")
    case False
    then have "trefs T \<noteq> []" "ps \<noteq> []" using t(3) length_trefs[of T] by fastforce+
    then show ?thesis using scan_from_correct[OF t(2), of 0 "Suc (length ps)"] len[of "[]"] False t(3)
      by (simp add: hd_conv_nth split_def)
  qed (use scan_from_no_ref[of "length ps" t] in simp)
  moreover have "sorted_ents kcmp ?es" using t(2,3) by (simp add: tree_inv_def)
  ultimately show ?thesis using t(1,4) ff by (intro exI[of _ t]) (simp add: createTree_tree0 tree0_def)
qed

theorem btree_insert_scan_witness:
  "\<exists>t r. res_bind createTree (insert_all cfg0 icmp [(7, ''a''), (3, ''b''), (7, ''c'')]) = Inr t
    \<and> findFirst t = Inr (r, t) \<and> scan_from 4 r t = Inr ([(3, ''b''), (7, ''a''), (7, ''c'')], t)
    \<and> sorted_ents icmp [(3, ''b''), (7, ''a''), (7, ''c'')] \<and> (\<forall>b. use (store t) b = 0)"
  using btree_insert_scan[OF icmp_order cfg0_ok, of "[(7, ''a''), (3, ''b''), (7, ''c'')]"]
  by (simp add: ins_after_def icmp_def eval_nat_numeral)

text \<open>A tree of one leaf with three entries.\<close>

abbreviation "ents1 \<equiv> [(3, ''b''), (7, ''a''), (7, ''c'')]"

definition tree1 :: "(int, string) btree" where
  "tree1 = \<lparr>store = \<lparr>buf = [1 \<mapsto> LeafN 0 0 ents1], use = (\<lambda>_. 0), dirty = (\<lambda>_. True)\<rparr>,
     rootBlock = 1, numBlocks = 2, depth = 1\<rparr>"

lemma tree1_inv: "tree_inv icmp cfg0 (Lf 1 ents1) tree1"
  by (simp add: tree_inv_def tree1_def sorted_ents_def icmp_def forest_def cfg0_def entsPerLeaf_def)

text \<open>
  C10. \<open>findPrev\<close> on a valid tree returns the last entry that is not greater than the sought key, also
  when it stands in the leaf to the left of the one the descent ends in, and the invalid reference
  when there is none; every page it used is released and nothing is changed.
\<close>

theorem btree_findPrev_correct:
  assumes "key_order kcmp" "tree_inv kcmp c T t"
  shows "findPrev (\<lambda>e. kcmp e k) t =
    (let n = length (takeWhile (\<lambda>e. kcmp (fst e) k \<le> 0) (tents T)) in
     Inr (if n = 0 then no_ref else trefs T ! (n - 1), t))
    \<and> map (entry_at t) (trefs T) = map Some (tents T)"
  using key_order.findPrev_correct[OF assms, of k] tree_inv_entries[OF assms(2)]
  by (simp add: key_order.count_le_def[OF assms(1)])

theorem btree_findPrev_correct_witness:
  "findPrev (\<lambda>e. icmp e 8) tree1 = Inr ((1, 2), tree1)
    \<and> map (entry_at tree1) [(1, 0), (1, 1), (1, 2)] = map Some ents1"
  using btree_findPrev_correct[OF icmp_order tree1_inv, of 8]
  by (simp add: icmp_def eval_nat_numeral upt_rec[of 0] upt_rec[of 1] upt_rec[of "Suc 0"])

text \<open>
  C11. \<open>findNext\<close> on a valid tree returns the first entry that is not smaller than the sought key, or
  the invalid reference; it changes no page, but on the way it may keep one use of inner blocks
  (the set \<open>L\<close>), which its caller has no means to release.
\<close>

theorem btree_findNext_correct:
  assumes "key_order kcmp" "tree_inv kcmp c T t"
  shows "\<exists>L. findNext (\<lambda>e. kcmp e k) t =
    (let n = length (takeWhile (\<lambda>e. kcmp (fst e) k < 0) (tents T)) in
     Inr (if n < length (tents T) then trefs T ! n else no_ref, addLeaks L t))
    \<and> L \<subseteq> set (tblocks T) - set (tleaves T)"
  unfolding Let_def
  by (rule key_order.findNext_correct[OF assms(1) key_order.cut_key[OF assms(1)] assms(2), of k, unfolded count_lt_def])

theorem btree_findNext_correct_witness:
  "\<exists>L. findNext (\<lambda>e. icmp e 4) tree1 = Inr ((1, 1), addLeaks L tree1) \<and> L \<subseteq> {}"
  using btree_findNext_correct[OF icmp_order tree1_inv, of 4] by (simp add: icmp_def eval_nat_numeral)

text \<open>
  The leak is real: in a tree of three leaves built by nine insertions from \<open>createTree\<close>, with no
  page in use, \<open>findNext\<close> for key 4 finds the entry in the middle leaf and returns with the root
  still in use, whereas \<open>findPrev\<close> for the same key leaves no page in use.
\<close>

theorem btree_findNext_leaks:
  "res_bind createTree (\<lambda>t.
   res_bind (insert_all cfg0 icmp (map (\<lambda>i. (i, ())) [1, 2, 3, 4, 5, 6, 7, 8, 9]) t) (\<lambda>t.
   res_bind (findNext (\<lambda>e. icmp e 4) t) (\<lambda>(r, t').
   res_bind (findPrev (\<lambda>e. icmp e 4) t) (\<lambda>(r2, t2).
   Inr (r, r2, rootBlock t, map (use (store t)) [1, 2, 3, 4], map (use (store t')) [1, 2, 3, 4],
     map (use (store t2)) [1, 2, 3, 4])))))
   = Inr ((2, 1), (2, 1), 3, [0, 0, 0, 0], [0, 0, 1, 0], [0, 0, 0, 0])"
  by code_simp

text \<open>
  \<open>forward\<close> moves an iterator that holds entry \<open>j\<close> to entry \<open>j + 1\<close>, across leaf boundaries, and
  at the last entry to the invalid position; it holds exactly one use, of the block it stands on.
\<close>

theorem btree_forward_correct:
  assumes "tree_inv kcmp c T t" "j < length (tents T)"
  shows "iter_forward (iter_of (trefs T ! j)) (addUse (fst (trefs T ! j)) t) =
    Inr (if Suc j < length (tents T) then (iter_of (trefs T ! Suc j), addUse (fst (trefs T ! Suc j)) t)
         else (iter_of no_ref, t))"
  using assms by (rule iter_forward_correct)

theorem btree_forward_correct_witness:
  "iter_forward (iter_of (1, 2)) (addUse 1 tree1) = Inr (iter_of no_ref, tree1)"
  using btree_forward_correct[OF tree1_inv, of 2] by (simp add: eval_nat_numeral)

end
