(* ===== verification/Bytes.thy ===== *)
theory Bytes
  imports Prelude "HOL-Library.Word"
begin

text \<open>
  The integer packing helpers of \<open>shard/include/os/linux.hpp\<close>. The memory of the host is a list
  of bytes; a \<open>uint32_t\<close> or \<open>uint64_t\<close> store through a pointer writes the bytes of the word in the
  byte order of the host. The code is compiled in one of two byte orders; the 32-bit helpers are
  given for both (the 64-bit ones only compile on a little-endian host, see the findings).
\<close>

unbundle bit_operations_syntax

type_synonym byte = "8 word"

section \<open>Little-endian byte sequences\<close>

fun of_le :: "byte list \<Rightarrow> 'a::len word" where
  "of_le [] = 0"
| "of_le (b # bs) = ucast b OR push_bit 8 (of_le bs)"

definition to_le :: "nat \<Rightarrow> 'a::len word \<Rightarrow> byte list" where
  "to_le n w = map (\<lambda>i. ucast (drop_bit (8 * i) w)) [0..<n]"

lemma length_to_le [simp]: "length (to_le n w) = n"
  by (simp add: to_le_def)

lemma bit_of_le:
  "bit (of_le bs :: 'a::len word) n \<longleftrightarrow>
    n < LENGTH('a) \<and> n div 8 < length bs \<and> bit (bs ! (n div 8)) (n mod 8)"
proof (induction bs arbitrary: n)
  case Nil
  then show ?case by simp
next
  case (Cons b bs)
  show ?case
  proof (cases "n < 8")
    case True
    then show ?thesis by (auto simp: bit_or_iff bit_ucast_iff bit_push_bit_iff dest: bit_imp_le_length)
  next
    case False
    then obtain m where m: "n = m + 8" by (metis add.commute le_Suc_ex not_less)
    have nb: "\<not> bit b n" using False bit_imp_le_length[of b n] by auto
    have "(m + 8) div 8 = Suc (m div 8)" by simp
    with nb show ?thesis using Cons[of m] by (auto simp: m bit_or_iff bit_ucast_iff bit_push_bit_iff)
  qed
qed

lemma of_le_to_le:
  assumes "LENGTH('a::len) = 8 * n"
  shows "of_le (to_le n w) = (w :: 'a word)"
proof (rule bit_word_eqI)
  fix k assume k: "k < LENGTH('a)"
  then have "k div 8 < n" using assms by (simp add: less_mult_imp_div_less mult.commute)
  moreover have "8 * (k div 8) + k mod 8 = k" by simp
  ultimately show "bit (of_le (to_le n w) :: 'a word) k = bit w k"
    using k by (simp add: bit_of_le to_le_def bit_ucast_iff bit_drop_bit_eq)
qed

lemma to_le_of_le:
  assumes "LENGTH('a::len) = 8 * length bs"
  shows "to_le (length bs) (of_le bs :: 'a word) = bs"
proof (rule nth_equalityI)
  fix i assume "i < length (to_le (length bs) (of_le bs :: 'a word))"
  then have i: "i < length bs" by simp
  show "to_le (length bs) (of_le bs :: 'a word) ! i = bs ! i"
  proof (rule bit_word_eqI)
    fix k assume k: "k < LENGTH(8)"
    then have "(8 * i + k) div 8 = i" "(8 * i + k) mod 8 = k" "8 * i + k < LENGTH('a)"
      using i assms by auto
    then show "bit (to_le (length bs) (of_le bs :: 'a word) ! i) k = bit (bs ! i) k"
      using i k by (simp add: to_le_def bit_ucast_iff bit_drop_bit_eq bit_of_le)
  qed
qed simp

section \<open>Host byte order\<close>

datatype byte_order = LittleEndian | BigEndian

definition store_u32 :: "byte_order \<Rightarrow> 32 word \<Rightarrow> byte list" where
  "store_u32 order v = (case order of LittleEndian \<Rightarrow> to_le 4 v | BigEndian \<Rightarrow> rev (to_le 4 v))"

definition load_u32 :: "byte_order \<Rightarrow> byte list \<Rightarrow> 32 word" where
  "load_u32 order bs = (case order of LittleEndian \<Rightarrow> of_le bs | BigEndian \<Rightarrow> of_le (rev bs))"

definition toLeU32 :: "byte_order \<Rightarrow> 32 word \<Rightarrow> 32 word" where
  "toLeU32 order v = (case order of
     LittleEndian \<Rightarrow> v
   | BigEndian \<Rightarrow> push_bit 24 (v AND 0x000000FF) OR push_bit 8 (v AND 0x0000FF00)
       OR drop_bit 8 (v AND 0x00FF0000) OR drop_bit 24 (v AND 0xFF000000))"

definition fromLeU32 :: "byte_order \<Rightarrow> 32 word \<Rightarrow> 32 word" where
  "fromLeU32 order v = (case order of
     LittleEndian \<Rightarrow> v
   | BigEndian \<Rightarrow> push_bit 24 (v AND 0x000000FF) OR push_bit 8 (v AND 0x0000FF00)
       OR drop_bit 8 (v AND 0x00FF0000) OR drop_bit 24 (v AND 0xFF000000))"

definition packLe32_on :: "byte_order \<Rightarrow> 32 word \<Rightarrow> byte list" where
  "packLe32_on order v = store_u32 order (toLeU32 order v)"

section \<open>The little-endian build\<close>

definition packLe32 :: "32 word \<Rightarrow> byte list" where
  "packLe32 v = to_le 4 v"

definition unpackLe32 :: "byte list \<Rightarrow> 32 word" where
  "unpackLe32 bs = ucast (ucast (of_le bs :: 32 word) :: 64 word)"

definition packLe64 :: "64 word \<Rightarrow> byte list" where
  "packLe64 v = to_le 8 v"

definition unpackLe64 :: "byte list \<Rightarrow> 64 word" where
  "unpackLe64 bs = of_le bs"

text \<open>
  \<open>OS::toLe\<close> and \<open>OS::fromLe\<close> take and return \<open>uint64_t\<close>; the write-ahead log calls them on an
  \<open>int\<close> (converted with sign extension) and keeps the low 32 bits of the result.
\<close>

definition toLe :: "64 word \<Rightarrow> 64 word" where
  "toLe v = v"

definition fromLe :: "64 word \<Rightarrow> 64 word" where
  "fromLe v = v"

lemma length_packLe [simp]: "length (packLe32 v) = 4" "length (packLe64 w) = 8"
  by (simp_all add: packLe32_def packLe64_def)

lemma packLe32_on_LittleEndian: "packLe32_on LittleEndian v = packLe32 v"
  by (simp add: packLe32_on_def packLe32_def store_u32_def toLeU32_def)

lemma widen_narrow: "ucast (ucast (w :: 32 word) :: 64 word) = w"
  by (rule bit_word_eqI) (simp add: bit_simps)

lemma unpack_packLe32 [simp]: "unpackLe32 (packLe32 v) = v"
  by (simp add: unpackLe32_def packLe32_def of_le_to_le widen_narrow)

lemma unpack_packLe64 [simp]: "unpackLe64 (packLe64 v) = v"
  by (simp add: unpackLe64_def packLe64_def of_le_to_le)

lemma pack_unpackLe32: "length bs = 4 \<Longrightarrow> packLe32 (unpackLe32 bs) = bs"
  using to_le_of_le[of bs, where 'a = 32]
  by (simp add: unpackLe32_def packLe32_def widen_narrow)

lemma pack_unpackLe64: "length bs = 8 \<Longrightarrow> packLe64 (unpackLe64 bs) = bs"
  using to_le_of_le[of bs, where 'a = 64] by (simp add: unpackLe64_def packLe64_def)

lemma byte_masks:
  "(0x000000FF :: 32 word) = mask 8" "(0x0000FF00 :: 32 word) = push_bit 8 (mask 8)"
  "(0x00FF0000 :: 32 word) = push_bit 16 (mask 8)" "(0xFF000000 :: 32 word) = push_bit 24 (mask 8)"
  by (simp_all add: mask_eq_exp_minus_1 push_bit_eq_mult)

lemma bit_toLeU32_BigEndian:
  "bit (toLeU32 BigEndian v) n \<longleftrightarrow>
     n < 32 \<and> (24 \<le> n \<and> bit v (n - 24) \<or> 16 \<le> n \<and> n < 24 \<and> bit v (n - 8)
      \<or> 8 \<le> n \<and> n < 16 \<and> bit v (n + 8) \<or> n < 8 \<and> bit v (n + 24))"
proof -
  have "bit (push_bit 24 (v AND mask 8)) n \<longleftrightarrow> n < 32 \<and> 24 \<le> n \<and> bit v (n - 24)"
    by (auto simp: bit_simps)
  moreover have "bit (push_bit 8 (v AND push_bit 8 (mask 8))) n \<longleftrightarrow> 16 \<le> n \<and> n < 24 \<and> bit v (n - 8)"
    by (auto simp: bit_simps)
  moreover have "bit (drop_bit 8 (v AND push_bit 16 (mask 8))) n \<longleftrightarrow> 8 \<le> n \<and> n < 16 \<and> bit v (n + 8)"
    by (auto simp: bit_simps add.commute)
  moreover have "bit (drop_bit 24 (v AND push_bit 24 (mask 8))) n \<longleftrightarrow> n < 8 \<and> bit v (n + 24)"
    by (auto simp: bit_simps add.commute)
  ultimately show ?thesis
    by (auto simp: toLeU32_def byte_masks bit_or_iff)
qed

lemma byteswap_byte:
  assumes "i < 4"
  shows "(ucast (drop_bit (8 * i) (toLeU32 BigEndian v)) :: byte) = ucast (drop_bit (8 * (3 - i)) v)"
proof (rule bit_word_eqI)
  fix k assume "k < LENGTH(8)"
  then have k: "k < 8" by simp
  consider "i = 0" | "i = 1" | "i = 2" | "i = 3" using assms by linarith
  then show "bit (ucast (drop_bit (8 * i) (toLeU32 BigEndian v)) :: byte) k
      = bit (ucast (drop_bit (8 * (3 - i)) v) :: byte) k"
    by cases (use k in \<open>simp_all add: bit_ucast_iff bit_drop_bit_eq bit_toLeU32_BigEndian add.commute\<close>)
qed

text \<open>
  \<open>packLe32\<close> does not depend on the host: on a host of either byte order it stores the same four
  bytes, the little-endian ones.
\<close>

theorem packLe32_on_any: "packLe32_on order v = packLe32 v"
proof (cases order)
  case LittleEndian
  then show ?thesis by (simp add: packLe32_on_LittleEndian)
next
  case BigEndian
  have "rev (to_le 4 (toLeU32 BigEndian v)) = to_le 4 v"
    by (rule nth_equalityI) (auto simp: rev_nth to_le_def byteswap_byte)
  then show ?thesis by (simp add: BigEndian packLe32_on_def packLe32_def store_u32_def)
qed

text \<open>
  What the packing helpers write is read back: \<open>unpackLe32\<close> and \<open>unpackLe64\<close> invert \<open>packLe32\<close> and
  \<open>packLe64\<close>, and packing what was unpacked from four or eight bytes gives the same bytes again.
\<close>

theorem packLe_roundtrip:
  "unpackLe32 (packLe32 v) = v \<and> unpackLe64 (packLe64 w) = w
    \<and> packLe32 (unpackLe32 [a, b, c, d]) = [a, b, c, d]
    \<and> packLe64 (unpackLe64 [a, b, c, d, e, f, g, h]) = [a, b, c, d, e, f, g, h]"
  by (simp add: pack_unpackLe32 pack_unpackLe64)

section \<open>Signed 64-bit values\<close>

definition in_int64 :: "int \<Rightarrow> bool" where
  "in_int64 i \<longleftrightarrow> - (2 ^ 63) \<le> i \<and> i < 2 ^ 63"

lemma sint_word_of_int64 [simp]: "in_int64 x \<Longrightarrow> sint (word_of_int x :: 64 word) = x"
  using signed_take_bit_int_eq_self[of 63 x] by (simp add: in_int64_def sint_sbintrunc' del: power_numeral)

end
