(* ===== verification/Random_Access.thy ===== *)
theory Random_Access
  imports Page_Store Bytes
begin

text \<open>
  \<open>Ll::RandomAccessFile\<close> (\<open>shard/src/ll/random-access-file.cpp\<close>): byte ranges on top of a page
  cache with pages of 4096 bytes. Reads and writes are cut at page boundaries; each part fetches its
  page, copies, marks the page dirty and releases it. The page cache zero-fills pages it has not
  written before and \<open>createFile\<close> truncates the file, so a page always has a content. Positions are
  the data pointers of the storage, which are not negative. The contract of the file is \<open>byte_at\<close>:
  the byte at an address.
\<close>

definition page_size :: nat where
  "page_size = 4096"

type_synonym raf = "byte list pstore"

text \<open>\<open>createFile\<close>: the file is truncated, a page that is read is zero.\<close>

definition raf_create :: raf where
  "raf_create = \<lparr>buf = (\<lambda>_. Some (replicate page_size 0)), use = (\<lambda>_. 0), dirty = (\<lambda>_. False)\<rparr>"

section \<open>ReadClosure and WriteClosure\<close>

text \<open>The length of the part that starts at offset \<open>off\<close> of a transfer of \<open>len\<close> bytes at \<open>pos\<close>.\<close>

definition chunk_size :: "nat \<Rightarrow> nat \<Rightarrow> nat \<Rightarrow> nat" where
  "chunk_size pos len off = min (len - off) (page_size - (pos + off) mod page_size)"

lemma chunk_size_pos: "off < len \<Longrightarrow> 0 < chunk_size pos len off"
  by (simp add: chunk_size_def page_size_def)

lemma chunk_size_le: "off \<le> len \<Longrightarrow> off + chunk_size pos len off \<le> len"
  by (simp add: chunk_size_def)

lemma chunk_size_decr: "\<not> len \<le> off \<Longrightarrow> len - (off + chunk_size pos len off) < len - off"
  using chunk_size_pos[of off len pos] by linarith

lemma chunk_size_page: "(pos + off) mod page_size + chunk_size pos len off \<le> page_size"
proof -
  have "(pos + off) mod page_size < page_size" by (simp add: page_size_def)
  then show ?thesis by (simp add: chunk_size_def)
qed

text \<open>
  \<open>fetchPage\<close> and \<open>onPageLoad\<close>. The loop is entered with \<open>off < len\<close> and ends when \<open>off\<close> has reached
  \<open>len\<close>; the first branch makes the recursion total and is never taken from \<open>raf_read\<close>.
\<close>

function raf_read_loop :: "nat \<Rightarrow> nat \<Rightarrow> nat \<Rightarrow> byte list \<Rightarrow> raf \<Rightarrow> (byte list \<times> raf) res" where
  "raf_read_loop pos len off out s =
     (if len \<le> off then Inl OutOfFuel
      else
        let page_number = int ((pos + off) div page_size);
            page_offset = (pos + off) mod page_size;
            chunk = chunk_size pos len off in
        res_bind (read_page page_number s) (\<lambda>(page, s).
        let out = blit off (bslice page_offset chunk page) out in
        res_bind (write_page page_number s) (\<lambda>s.
        res_bind (release_page page_number s) (\<lambda>s.
        if off + chunk = len then Inr (out, s)
        else raf_read_loop pos len (off + chunk) out s))))"
  by auto
termination
  by (relation "measure (\<lambda>(pos, len, off, out, s). len - off)")
    (auto simp: chunk_size_decr)

definition raf_read :: "nat \<Rightarrow> nat \<Rightarrow> raf \<Rightarrow> (byte list \<times> raf) res" where
  "raf_read pos len s =
     (if len = 0 then Inr ([], s) else raf_read_loop pos len 0 (replicate len 0) s)"

function raf_write_loop :: "nat \<Rightarrow> byte list \<Rightarrow> nat \<Rightarrow> raf \<Rightarrow> raf res" where
  "raf_write_loop pos src off s =
     (if length src \<le> off then Inl OutOfFuel
      else
        let page_number = int ((pos + off) div page_size);
            page_offset = (pos + off) mod page_size;
            chunk = chunk_size pos (length src) off in
        res_bind (read_page page_number s) (\<lambda>(page, s).
        res_bind (put_page page_number (blit page_offset (bslice off chunk src) page) s) (\<lambda>s.
        res_bind (write_page page_number s) (\<lambda>s.
        res_bind (release_page page_number s) (\<lambda>s.
        if off + chunk = length src then Inr s
        else raf_write_loop pos src (off + chunk) s)))))"
  by auto
termination
  by (relation "measure (\<lambda>(pos, src, off, s). length src - off)")
    (auto simp: chunk_size_decr)

definition raf_write :: "nat \<Rightarrow> byte list \<Rightarrow> raf \<Rightarrow> raf res" where
  "raf_write pos src s = (if length src = 0 then Inr s else raf_write_loop pos src 0 s)"

declare raf_read_loop.simps [simp del] raf_write_loop.simps [simp del]

section \<open>The contract\<close>

definition raf_ok :: "raf \<Rightarrow> bool" where
  "raf_ok s \<longleftrightarrow> (\<forall>p. \<exists>page. buf s p = Some page \<and> length page = page_size)"

definition byte_at :: "raf \<Rightarrow> nat \<Rightarrow> byte" where
  "byte_at s a = the (buf s (int (a div page_size))) ! (a mod page_size)"

lemma raf_create_ok: "raf_ok raf_create" "byte_at raf_create a = 0"
  by (simp_all add: raf_ok_def raf_create_def byte_at_def page_size_def)

text \<open>The addresses of a part lie on one page.\<close>

lemma chunk_address:
  assumes "i < chunk_size pos len off"
  shows "(pos + off + i) div page_size = (pos + off) div page_size"
    "(pos + off + i) mod page_size = (pos + off) mod page_size + i"
proof -
  let ?q = "(pos + off) div page_size" and ?r = "(pos + off) mod page_size"
  have "?r + i < page_size" using assms chunk_size_page[of pos off len] by linarith
  moreover have "pos + off + i = ?q * page_size + (?r + i)" by simp
  ultimately show "(pos + off + i) div page_size = ?q" "(pos + off + i) mod page_size = ?r + i"
    by (metis div_mult_self3 div_less add.commute add_0 mult_eq_0_iff less_nat_zero_code,
        metis mod_mult_self3 mod_less)
qed

lemma same_page_addr:
  assumes "a div page_size = (pos + off) div page_size"
  shows "(pos + off \<le> a \<and> a < pos + off + n) \<longleftrightarrow>
    ((pos + off) mod page_size \<le> a mod page_size \<and> a mod page_size < (pos + off) mod page_size + n)"
proof -
  define b where "b = pos + off"
  have "a = a div page_size * page_size + a mod page_size" "b = b div page_size * page_size + b mod page_size"
    by simp_all
  then have "\<exists>q. a = q + a mod page_size \<and> b = q + b mod page_size" using assms unfolding b_def by metis
  then show ?thesis unfolding b_def[symmetric] by linarith
qed

section \<open>Correctness\<close>

text \<open>One part of a write and of a read.\<close>

definition write_part :: "nat \<Rightarrow> byte list \<Rightarrow> nat \<Rightarrow> raf \<Rightarrow> raf" where
  "write_part pos src off s =
    (let p = int ((pos + off) div page_size);
         page = blit ((pos + off) mod page_size) (bslice off (chunk_size pos (length src) off) src) (the (buf s p)) in
     s\<lparr>buf := (buf s)(p \<mapsto> page), dirty := (dirty s)(p := True)\<rparr>)"

lemma raf_write_loop_step:
  assumes "raf_ok s" "off < length src"
  shows "raf_write_loop pos src off s =
    (if off + chunk_size pos (length src) off = length src then Inr (write_part pos src off s)
     else raf_write_loop pos src (off + chunk_size pos (length src) off) (write_part pos src off s))"
proof -
  obtain page where "buf s (int ((pos + off) div page_size)) = Some page"
    using assms(1) by (auto simp: raf_ok_def)
  then show ?thesis using assms(2)
    by (subst raf_write_loop.simps) (simp add: Let_def store_ops write_part_def fun_upd_def[symmetric] if_distrib cong: if_cong)
qed

lemma write_part_ok:
  assumes "raf_ok s" "off < length src"
  shows "raf_ok (write_part pos src off s)"
proof -
  obtain page where "buf s (int ((pos + off) div page_size)) = Some page" "length page = page_size"
    using assms(1) unfolding raf_ok_def by blast
  moreover have "length (bslice off (chunk_size pos (length src) off) src) = chunk_size pos (length src) off"
    using assms(2) chunk_size_le[of off "length src" pos] by simp
  ultimately show ?thesis using assms(1) chunk_size_page[of pos off "length src"]
    by (simp add: raf_ok_def write_part_def Let_def)
qed

lemma byte_at_write_part:
  assumes "raf_ok s" "off < length src"
  shows "byte_at (write_part pos src off s) a =
    (if pos + off \<le> a \<and> a < pos + off + chunk_size pos (length src) off then src ! (a - pos) else byte_at s a)"
proof (cases "a div page_size = (pos + off) div page_size")
  case True
  let ?n = "chunk_size pos (length src) off" and ?r = "(pos + off) mod page_size"
  obtain page where pg: "buf s (int ((pos + off) div page_size)) = Some page" "length page = page_size"
    using assms(1) unfolding raf_ok_def by blast
  have len: "length (bslice off ?n src) = ?n"
    using assms(2) chunk_size_le[of off "length src" pos] by simp
  have a: "a mod page_size < length page" using pg(2) by (simp add: page_size_def)
  have "byte_at (write_part pos src off s) a = blit ?r (bslice off ?n src) page ! (a mod page_size)"
    using True pg by (simp add: byte_at_def write_part_def Let_def)
  also have "\<dots> = (if ?r \<le> a mod page_size \<and> a mod page_size < ?r + ?n
      then bslice off ?n src ! (a mod page_size - ?r) else page ! (a mod page_size))"
    using nth_blit[of ?r "bslice off ?n src" page "a mod page_size"] a len pg(2) chunk_size_page[of pos off "length src"]
    by simp
  also have "\<dots> = (if pos + off \<le> a \<and> a < pos + off + ?n then src ! (a - pos) else byte_at s a)"
  proof (cases "pos + off \<le> a \<and> a < pos + off + ?n")
    case T: True
    then have "a mod page_size - ?r = a - (pos + off)"
      using same_page_addr[OF True, of ?n] T True
      by (metis (no_types, lifting) add_diff_cancel_left' chunk_address(2) le_iff_add nat_add_left_cancel_less)
    then have "bslice off ?n src ! (a mod page_size - ?r) = src ! (a - pos)"
      using T assms(2) chunk_size_le[of off "length src" pos] by (auto simp: bslice_def)
    then show ?thesis using T same_page_addr[OF True, of ?n] by simp
  next
    case False
    then have "\<not> (?r \<le> a mod page_size \<and> a mod page_size < ?r + ?n)" using same_page_addr[OF True, of ?n] by blast
    then show ?thesis using False pg True by (simp only: if_False byte_at_def option.sel)
  qed
  finally show ?thesis .
next
  case False
  have "\<not> (pos + off \<le> a \<and> a < pos + off + chunk_size pos (length src) off)"
    using False chunk_address(1)[of "a - (pos + off)" pos "length src" off] by (auto simp: le_iff_add)
  moreover have "int (a div page_size) \<noteq> int ((pos + off) div page_size)" using False by simp
  ultimately show ?thesis by (auto simp: byte_at_def write_part_def Let_def)
qed

lemma raf_write_loop_correct:
  "raf_ok s \<Longrightarrow> off < length src \<Longrightarrow>
   \<exists>s'. raf_write_loop pos src off s = Inr s' \<and> raf_ok s' \<and> use s' = use s
     \<and> (\<forall>a. byte_at s' a = (if pos + off \<le> a \<and> a < pos + length src then src ! (a - pos) else byte_at s a))"
proof (induction "length src - off" arbitrary: off s rule: less_induct)
  case less
  let ?n = "chunk_size pos (length src) off" and ?s = "write_part pos src off s"
  have n: "0 < ?n" "off + ?n \<le> length src"
    using chunk_size_pos[of off "length src" pos] chunk_size_le[of off "length src" pos] less.prems(2) by auto
  have ok: "raf_ok ?s" using less.prems by (rule write_part_ok)
  have use: "use ?s = use s" by (simp add: write_part_def Let_def)
  show ?case
  proof (cases "off + ?n = length src")
    case True
    then show ?thesis
      using raf_write_loop_step[OF less.prems, of pos] ok use byte_at_write_part[OF less.prems, of pos]
      by (intro exI[of _ ?s]) (auto simp: add.assoc)
  next
    case False
    then have lt: "off + ?n < length src" using n by simp
    have "length src - (off + ?n) < length src - off" using n lt by simp
    from less.hyps[OF this ok lt] obtain s' where s': "raf_write_loop pos src (off + ?n) ?s = Inr s'" "raf_ok s'"
      "use s' = use ?s" "\<And>a. byte_at s' a = (if pos + (off + ?n) \<le> a \<and> a < pos + length src then src ! (a - pos) else byte_at ?s a)"
      by blast
    have "byte_at s' a = (if pos + off \<le> a \<and> a < pos + length src then src ! (a - pos) else byte_at s a)" for a
      unfolding s'(4) byte_at_write_part[OF less.prems] using n by auto
    then show ?thesis using raf_write_loop_step[OF less.prems, of pos] False s'(1-3) use by auto
  qed
qed

lemma raf_write_correct:
  assumes "raf_ok s"
  shows "\<exists>s'. raf_write pos src s = Inr s' \<and> raf_ok s' \<and> use s' = use s
     \<and> (\<forall>a. byte_at s' a = (if pos \<le> a \<and> a < pos + length src then src ! (a - pos) else byte_at s a))"
  using raf_write_loop_correct[OF assms, of 0 src pos] assms
  by (cases "src = []") (auto simp: raf_write_def)

lemma raf_read_loop_step:
  assumes "raf_ok s" "off < len"
  shows "raf_read_loop pos len off out s =
    (let p = int ((pos + off) div page_size); n = chunk_size pos len off;
         out' = blit off (bslice ((pos + off) mod page_size) n (the (buf s p))) out;
         s' = s\<lparr>dirty := (dirty s)(p := True)\<rparr> in
     if off + n = len then Inr (out', s') else raf_read_loop pos len (off + n) out' s')"
proof -
  obtain page where "buf s (int ((pos + off) div page_size)) = Some page"
    using assms(1) by (auto simp: raf_ok_def)
  then show ?thesis using assms(2)
    by (subst raf_read_loop.simps) (simp add: Let_def store_ops fun_upd_def[symmetric] cong: if_cong)
qed

lemma raf_read_loop_correct:
  "raf_ok s \<Longrightarrow> off < len \<Longrightarrow> length out = len \<Longrightarrow>
   \<exists>out' s'. raf_read_loop pos len off out s = Inr (out', s') \<and> buf s' = buf s \<and> use s' = use s
     \<and> length out' = len \<and> (\<forall>i < len. out' ! i = (if off \<le> i then byte_at s (pos + i) else out ! i))"
proof (induction "len - off" arbitrary: off out s rule: less_induct)
  case less
  let ?n = "chunk_size pos len off" and ?p = "int ((pos + off) div page_size)"
  let ?out = "blit off (bslice ((pos + off) mod page_size) ?n (the (buf s ?p))) out"
  let ?s = "s\<lparr>dirty := (dirty s)(?p := True)\<rparr>"
  have n: "0 < ?n" "off + ?n \<le> len"
    using chunk_size_pos[of off len pos] chunk_size_le[of off len pos] less.prems(2) by auto
  obtain page where pg: "buf s ?p = Some page" "length page = page_size"
    using less.prems(1) unfolding raf_ok_def by blast
  have sl: "length (bslice ((pos + off) mod page_size) ?n page) = ?n"
    using chunk_size_page[of pos off len] pg(2) by simp
  have lo: "length ?out = len" using sl n pg less.prems(3) by simp
  have val: "?out ! i = (if off \<le> i \<and> i < off + ?n then byte_at s (pos + i) else out ! i)" if "i < len" for i
  proof -
    have "?out ! i = (if off \<le> i \<and> i < off + ?n then page ! ((pos + off) mod page_size + (i - off)) else out ! i)"
      using nth_blit[of off "bslice ((pos + off) mod page_size) ?n page" out i] sl n that less.prems(3) pg
        chunk_size_page[of pos off len] by auto
    moreover have "page ! ((pos + off) mod page_size + (i - off)) = byte_at s (pos + i)" if "off \<le> i" "i < off + ?n"
      using chunk_address[of "i - off" pos len off] that pg by (simp add: byte_at_def)
    ultimately show ?thesis by simp
  qed
  have ok: "raf_ok ?s" using less.prems(1) by (simp add: raf_ok_def)
  note step = raf_read_loop_step[OF less.prems(1,2), of pos out, unfolded Let_def]
  show ?case
  proof (cases "off + ?n = len")
    case True
    then show ?thesis using step lo val by (intro exI[of _ ?out] exI[of _ ?s]) auto
  next
    case False
    then have lt: "off + ?n < len" using n by simp
    have "len - (off + ?n) < len - off" using n lt by simp
    from less.hyps[OF this ok lt lo] obtain out' s' where I: "raf_read_loop pos len (off + ?n) ?out ?s = Inr (out', s')"
      "buf s' = buf ?s" "use s' = use ?s" "length out' = len"
      "\<And>i. i < len \<Longrightarrow> out' ! i = (if off + ?n \<le> i then byte_at ?s (pos + i) else ?out ! i)" by blast
    have "out' ! i = (if off \<le> i then byte_at s (pos + i) else out ! i)" if "i < len" for i
      using I(5)[OF that] val[OF that] by (auto simp: byte_at_def)
    then show ?thesis using step False I(1-4) by auto
  qed
qed

lemma raf_read_correct:
  assumes "raf_ok s"
  shows "\<exists>s'. raf_read pos len s = Inr (map (\<lambda>i. byte_at s (pos + i)) [0..<len], s')
    \<and> buf s' = buf s \<and> use s' = use s"
proof (cases "len = 0")
  case False
  then obtain out' s' where R: "raf_read_loop pos len 0 (replicate len 0) s = Inr (out', s')" "buf s' = buf s"
    "use s' = use s" "length out' = len" "\<And>i. i < len \<Longrightarrow> out' ! i = byte_at s (pos + i)"
    using raf_read_loop_correct[OF assms, of 0 len "replicate len 0" pos] by auto
  have "out' = map (\<lambda>i. byte_at s (pos + i)) [0..<len]" using R(4,5) by (intro nth_equalityI) auto
  then show ?thesis using R False by (simp add: raf_read_def)
qed (simp add: raf_read_def)

lemma raf_ok_buf: "buf s' = buf s \<Longrightarrow> raf_ok s' = raf_ok s"
  "buf s' = buf s \<Longrightarrow> byte_at s' a = byte_at s a"
  by (simp_all add: raf_ok_def byte_at_def)

section \<open>Properties\<close>

text \<open>
  C27. A write followed by a read, both of any length at any position and across any number of pages,
  returns the written bytes where the ranges overlap and the previous content elsewhere; both
  succeed and release every page they use.
\<close>

theorem raf_read_after_write:
  assumes "raf_ok s"
  shows "\<exists>s1 s2. raf_write pos src s = Inr s1
    \<and> raf_read pos' len s1 = Inr (map (\<lambda>i. if pos \<le> pos' + i \<and> pos' + i < pos + length src
        then src ! (pos' + i - pos) else byte_at s (pos' + i)) [0..<len], s2)
    \<and> raf_ok s2 \<and> use s2 = use s"
proof -
  obtain s1 where W: "raf_write pos src s = Inr s1" "raf_ok s1" "use s1 = use s"
    "\<And>a. byte_at s1 a = (if pos \<le> a \<and> a < pos + length src then src ! (a - pos) else byte_at s a)"
    using raf_write_correct[OF assms, of pos src] by blast
  obtain s2 where "raf_read pos' len s1 = Inr (map (\<lambda>i. byte_at s1 (pos' + i)) [0..<len], s2)"
    "buf s2 = buf s1" "use s2 = use s1"
    using raf_read_correct[OF W(2), of pos' len] by blast
  then show ?thesis using W raf_ok_buf(1)[of s2 s1] by auto
qed

theorem raf_read_after_write_witness:
  "\<exists>s1 s2. raf_write 4095 [1, 2] raf_create = Inr s1 \<and> raf_read 4094 4 s1 = Inr ([0, 1, 2, 0], s2)
    \<and> raf_ok s2 \<and> use s2 = use raf_create"
  using raf_read_after_write[OF raf_create_ok(1), of 4095 "[1, 2]" 4094 4]
  by (simp add: eval_nat_numeral upt_rec raf_create_ok(2))

text \<open>Reading marks the page dirty: \<open>ReadClosure::onPageLoad\<close> calls \<open>writePage\<close>.\<close>

lemma raf_read_marks_dirty:
  "case raf_read 0 1 raf_create of Inr (out, s) \<Rightarrow> out = [0] \<and> dirty s 0 | Inl _ \<Rightarrow> False"
  using raf_read_loop_step[OF raf_create_ok(1), of 0 1 0 "[0]"]
  by (simp add: raf_read_def chunk_size_def page_size_def raf_create_def blit_def bslice_def)

end
