(* ===== verification/Db_Types.thy ===== *)
theory Db_Types
  imports Bytes
begin

text \<open>
  The data of \<open>shard/include/db/types.hpp\<close>: mutations and constraints. Document, transaction and
  sequence ids are \<open>int64_t\<close> counters that start near zero and are only incremented; they are \<open>int\<close>
  here. A document is a \<open>std::string\<close>, a byte sequence. The text of names and paths is \<open>string\<close>.
\<close>

datatype mut_type = MutNone | MutInsert | MutModify

record mutation =
  mutType :: mut_type
  mutStorage :: int
  mutDocument :: int
  mutBuffer :: "byte list"

datatype con_type = ConNone | ConDocumentState

record constraint =
  conType :: con_type
  conStorage :: int
  conDocument :: int
  conSequence :: int
  mustExist :: bool
  matchSequenceId :: bool

text \<open>The outcome of a fetch: the callback's error code, with the data reported before success.\<close>

datatype fetch_result = DocumentNotFound | FetchData int "byte list"

end
