(* ===== verification/Versions.thy ===== *)
theory Versions
  imports Db_Types
begin

text \<open>
  The abstract document store: a history of versions, and the version of a document that a reader at
  a given sequence id has to see. It is the specification of the document storage and of what the
  engine makes of committed transactions.
\<close>

text \<open>A version is written: document id, sequence id, content.\<close>

type_synonym version = "int \<times> int \<times> byte list"

text \<open>
  The specification: of the versions of a document that are not newer than the requested sequence
  id, the one with the greatest sequence id; of several with that id, the one written last.
\<close>

fun newer :: "int \<Rightarrow> int \<Rightarrow> version \<Rightarrow> fetch_result \<Rightarrow> fetch_result" where
  "newer d s (d', s', b) best =
     (if d' = d \<and> s' \<le> s \<and> (case best of DocumentNotFound \<Rightarrow> True | FetchData s0 _ \<Rightarrow> s0 \<le> s')
      then FetchData s' b else best)"

definition visible :: "int \<Rightarrow> int \<Rightarrow> version list \<Rightarrow> fetch_result" where
  "visible d s vs = fold (newer d s) vs DocumentNotFound"

definition bytes_of :: "version list \<Rightarrow> nat" where
  "bytes_of vs = sum_list (map (\<lambda>(d, s, b). length b) vs)"

lemma bytes_of_simps [simp]: "bytes_of [] = 0" "bytes_of (v # vs) = length (snd (snd v)) + bytes_of vs"
  "bytes_of (vs @ ws) = bytes_of vs + bytes_of ws"
  by (auto simp: bytes_of_def split_def)

text \<open>The versions that a mutation or a transaction with a sequence id writes.\<close>

definition version_of :: "int \<times> mutation \<Rightarrow> version" where
  "version_of x = (mutDocument (snd x), fst x, mutBuffer (snd x))"

definition versions_in :: "int \<Rightarrow> mutation list \<Rightarrow> version list" where
  "versions_in s ms = map (\<lambda>m. version_of (s, m)) ms"

lemma versions_in_simps [simp]: "versions_in s [] = []" "versions_in s (m # ms) = version_of (s, m) # versions_in s ms"
  "versions_in s (ms @ ns) = versions_in s ms @ versions_in s ns"
  by (simp_all add: versions_in_def)

end
