(* ===== verification/Flex_Storage.thy ===== *)
theory Flex_Storage
  imports Btree_Spec Random_Access Versions
begin

text \<open>
  \<open>FlexStorage\<close> (\<open>shard/src/db/flex-storage.cpp\<close>): the multi-version document store. Every insert or
  modification appends the document to the data file and adds an entry to the B+-tree whose key is
  the pair of document id and sequence id; a fetch looks for the last version that is not newer than
  the requested sequence id. The theory interprets the order interface of the tree on the comparison
  of this file and shows that the store refines the abstract history of versions.
\<close>

section \<open>Index and Reference\<close>

record index =
  documentId :: int
  sequenceId :: int

definition writeIndex :: "index \<Rightarrow> byte list" where
  "writeIndex i = packLe64 (word_of_int (documentId i)) @ packLe64 (word_of_int (sequenceId i))"

definition readIndex :: "byte list \<Rightarrow> index" where
  "readIndex buffer = \<lparr>documentId = sint (unpackLe64 (take 8 buffer)),
     sequenceId = sint (unpackLe64 (take 8 (drop 8 buffer)))\<rparr>"

text \<open>The reference buffer of an entry: offset and length of the document in the data file.\<close>

definition packRef :: "nat \<Rightarrow> nat \<Rightarrow> byte list" where
  "packRef offset len = packLe64 (word_of_nat offset) @ packLe64 (word_of_nat len)"

definition ref_offset :: "byte list \<Rightarrow> nat" where
  "ref_offset r = unat (unpackLe64 (take 8 r))"

definition ref_length :: "byte list \<Rightarrow> nat" where
  "ref_length r = unat (unpackLe64 (take 8 (drop 8 r)))"

lemma readIndex_writeIndex:
  assumes "in_int64 (documentId i)" "in_int64 (sequenceId i)"
  shows "readIndex (writeIndex i) = i"
  using assms by (simp add: readIndex_def writeIndex_def)

lemma ref_packRef [simp]:
  "off < 2 ^ 64 \<Longrightarrow> ref_offset (packRef off len) = off"
  "len < 2 ^ 64 \<Longrightarrow> ref_length (packRef off len) = len"
  by (simp_all add: ref_offset_def ref_length_def packRef_def unat_of_nat)

text \<open>\<open>compareToInserted\<close> and \<open>compareToFetched\<close>, the same lexicographic comparison.\<close>

definition compareIndex :: "index \<Rightarrow> index \<Rightarrow> int" where
  "compareIndex other own =
     (if documentId other < documentId own then -1
      else if documentId other > documentId own then 1
      else if sequenceId other < sequenceId own then -1
      else if sequenceId other > sequenceId own then 1
      else 0)"

interpretation flex: key_order compareIndex
  by unfold_locales (auto simp: compareIndex_def split: if_splits)

section \<open>The storage\<close>

record flex =
  lastDocumentId :: int
  dataPointer :: nat
  indexTree :: "(index, byte list) btree"
  dataFile :: raf

definition flex_cfg :: bt_cfg where
  "flex_cfg = \<lparr>blockSize = 4096, keySize = 16, valSize = 16\<rparr>"

lemma flex_cfg_ok: "cfg_ok flex_cfg"
  by (simp add: cfg_ok_def flex_cfg_def entsPerInner_def entsPerLeaf_def)

text \<open>\<open>createStorage\<close>; \<open>loadStorage\<close> also starts with an empty tree and data file.\<close>

definition flex_create :: "flex res" where
  "flex_create = res_bind createTree (\<lambda>t. Inr \<lparr>lastDocumentId = 0, dataPointer = 0, indexTree = t, dataFile = raf_create\<rparr>)"

definition flex_allocate :: "flex \<Rightarrow> int \<times> flex" where
  "flex_allocate f = (lastDocumentId f + 1, f\<lparr>lastDocumentId := lastDocumentId f + 1\<rparr>)"

definition flex_reinspect :: "mutation \<Rightarrow> flex \<Rightarrow> flex" where
  "flex_reinspect m f =
     (if mutType m = MutInsert \<and> lastDocumentId f < mutDocument m
      then f\<lparr>lastDocumentId := mutDocument m\<rparr> else f)"

text \<open>\<open>InsertClosure\<close>, which \<open>processInsert\<close> and \<open>processModify\<close> both run.\<close>

definition insertClosure :: "int \<Rightarrow> int \<Rightarrow> byte list \<Rightarrow> flex \<Rightarrow> flex res" where
  "insertClosure doc sq buffer f =
    (let data_pointer = dataPointer f;
         f = f\<lparr>dataPointer := dataPointer f + length buffer\<rparr>;
         idx = \<lparr>documentId = doc, sequenceId = sq\<rparr>;
         refb = packRef data_pointer (length buffer) in
     res_bind (raf_write data_pointer buffer (dataFile f)) (\<lambda>df.
     res_bind (btree_insert flex_cfg (\<lambda>other. compareIndex other idx) idx refb (indexTree f)) (\<lambda>t.
     Inr (f\<lparr>dataFile := df, indexTree := t\<rparr>))))"

definition processInsert :: "int \<Rightarrow> mutation \<Rightarrow> flex \<Rightarrow> flex res" where
  "processInsert sq m f = insertClosure (mutDocument m) sq (mutBuffer m) f"

definition processModify :: "int \<Rightarrow> mutation \<Rightarrow> flex \<Rightarrow> flex res" where
  "processModify sq m f = insertClosure (mutDocument m) sq (mutBuffer m) f"

text \<open>
  \<open>FetchClosure\<close>. The result is the sequence id and the content of the version, or none for
  \<open>kFetchDocumentNotFound\<close>. Deleting the closure destroys its iterator.
\<close>

definition fetchOnSeek :: "int \<Rightarrow> iter \<Rightarrow> flex \<Rightarrow> (fetch_result \<times> flex) res" where
  "fetchOnSeek doc it f =
     res_bind (iter_getKey it (indexTree f)) (\<lambda>idx.
     if documentId idx \<noteq> doc then
       res_bind (iter_destroy it (indexTree f)) (\<lambda>t. Inr (DocumentNotFound, f\<lparr>indexTree := t\<rparr>))
     else
       res_bind (iter_getValue it (indexTree f)) (\<lambda>r.
       res_bind (raf_read (ref_offset r) (ref_length r) (dataFile f)) (\<lambda>(data, df).
       res_bind (iter_destroy it (indexTree f)) (\<lambda>t.
       Inr (FetchData (sequenceId idx) data, f\<lparr>indexTree := t, dataFile := df\<rparr>)))))"

definition processFetch :: "int \<Rightarrow> int \<Rightarrow> flex \<Rightarrow> (fetch_result \<times> flex) res" where
  "processFetch doc sq f =
     res_bind (findPrev (\<lambda>other. compareIndex other \<lparr>documentId = doc, sequenceId = sq\<rparr>) (indexTree f)) (\<lambda>(r, t).
     if \<not> ref_valid r then
       res_bind (iter_destroy new_iter t) (\<lambda>t. Inr (DocumentNotFound, f\<lparr>indexTree := t\<rparr>))
     else
       res_bind (iter_seek r new_iter t) (\<lambda>(it, t). fetchOnSeek doc it (f\<lparr>indexTree := t\<rparr>)))"

section \<open>The invariant\<close>

text \<open>The reference \<open>r\<close> designates the document \<open>b\<close> in the data file.\<close>

definition refers :: "flex \<Rightarrow> byte list \<Rightarrow> byte list \<Rightarrow> bool" where
  "refers f r b \<longleftrightarrow> ref_length r = length b \<and> ref_offset r + length b \<le> dataPointer f
     \<and> (\<forall>i < length b. byte_at (dataFile f) (ref_offset r + i) = b ! i)"

text \<open>\<open>flex_inv es f\<close>: the storage holds the versions \<open>es\<close>, in the order of their keys.\<close>

definition flex_inv :: "(index \<times> byte list) list \<Rightarrow> flex \<Rightarrow> bool" where
  "flex_inv es f \<longleftrightarrow> raf_ok (dataFile f) \<and> use (dataFile f) = (\<lambda>_. 0)
     \<and> use (store (indexTree f)) = (\<lambda>_. 0)
     \<and> (\<exists>T. tree_inv compareIndex flex_cfg T (indexTree f)
           \<and> list_all2 (\<lambda>x y. fst x = fst y \<and> refers f (snd x) (snd y)) (tents T) es)"

lemma flex_create_inv: "\<exists>f. flex_create = Inr f \<and> flex_inv [] f \<and> dataPointer f = 0"
proof -
  let ?f = "\<lparr>lastDocumentId = 0, dataPointer = 0, indexTree = tree0, dataFile = raf_create\<rparr>"
  have "flex_create = Inr ?f" by (simp add: flex_create_def createTree_tree0)
  moreover have "flex_inv [] ?f"
    using tree0_inv raf_create_ok(1)
    by (auto simp: flex_inv_def raf_create_def tree0_def intro!: exI[of _ "Lf 1 []"])
  ultimately show ?thesis by auto
qed

lemma list_all2_takeWhile:
  assumes "list_all2 (\<lambda>x y. fst x = fst y \<and> P x y) xs ys"
  shows "list_all2 (\<lambda>x y. fst x = fst y \<and> P x y) (takeWhile (\<lambda>e. Q (fst e)) xs) (takeWhile (\<lambda>e. Q (fst e)) ys)"
    "list_all2 (\<lambda>x y. fst x = fst y \<and> P x y) (dropWhile (\<lambda>e. Q (fst e)) xs) (dropWhile (\<lambda>e. Q (fst e)) ys)"
  using assms by (induction rule: list_all2_induct) auto

lemma list_all2_ins_after:
  assumes "list_all2 (\<lambda>x y. fst x = fst y \<and> P x y) xs ys" "P (k, v) (k, w)"
  shows "list_all2 (\<lambda>x y. fst x = fst y \<and> P x y) (ins_after cmp k v xs) (ins_after cmp k w ys)"
  unfolding ins_after_def
  using list_all2_takeWhile[OF assms(1), of "\<lambda>e. cmp e k \<le> 0"] assms(2) by (auto intro: list_all2_appendI)

lemma insertClosure_correct:
  assumes inv: "flex_inv es f" and bound: "dataPointer f + length buffer < 2 ^ 64"
  shows "\<exists>f'. insertClosure doc sq buffer f = Inr f'
    \<and> flex_inv (ins_after compareIndex \<lparr>documentId = doc, sequenceId = sq\<rparr> buffer es) f'
    \<and> dataPointer f' = dataPointer f + length buffer \<and> lastDocumentId f' = lastDocumentId f"
proof -
  let ?idx = "\<lparr>documentId = doc, sequenceId = sq\<rparr>"
  let ?r = "packRef (dataPointer f) (length buffer)"
  obtain T where I: "raf_ok (dataFile f)" "use (dataFile f) = (\<lambda>_. 0)" "use (store (indexTree f)) = (\<lambda>_. 0)"
    "tree_inv compareIndex flex_cfg T (indexTree f)"
    "list_all2 (\<lambda>x y. fst x = fst y \<and> refers f (snd x) (snd y)) (tents T) es"
    using inv by (auto simp: flex_inv_def)
  obtain df where W: "raf_write (dataPointer f) buffer (dataFile f) = Inr df" "raf_ok df" "use df = use (dataFile f)"
    "\<And>a. byte_at df a = (if dataPointer f \<le> a \<and> a < dataPointer f + length buffer
        then buffer ! (a - dataPointer f) else byte_at (dataFile f) a)"
    using raf_write_correct[OF I(1), of "dataPointer f" buffer] by blast
  obtain t T' where B: "btree_insert flex_cfg (\<lambda>e. compareIndex e ?idx) ?idx ?r (indexTree f) = Inr t"
    "tree_inv compareIndex flex_cfg T' t" "tents T' = ins_after compareIndex ?idx ?r (tents T)"
    "use (store t) = use (store (indexTree f))"
    using flex.insert_correct[OF I(4) flex_cfg_ok, of ?idx ?r] by blast
  let ?f = "f\<lparr>dataPointer := dataPointer f + length buffer, dataFile := df, indexTree := t\<rparr>"
  have run: "insertClosure doc sq buffer f = Inr ?f"
    using W(1) B(1) by (simp add: insertClosure_def Let_def)
  have new: "refers ?f ?r buffer" using bound W(4) by (simp add: refers_def)
  have old: "refers ?f r b" if "refers f r b" for r b
    using that W(4) by (auto simp: refers_def)
  have "list_all2 (\<lambda>x y. fst x = fst y \<and> refers ?f (snd x) (snd y)) (tents T) es"
    using I(5) old by (auto intro: list_all2_mono)
  then have "list_all2 (\<lambda>x y. fst x = fst y \<and> refers ?f (snd x) (snd y)) (tents T') (ins_after compareIndex ?idx buffer es)"
    unfolding B(3) using new by (intro list_all2_ins_after) auto
  then have "flex_inv (ins_after compareIndex ?idx buffer es) ?f"
    unfolding flex_inv_def using W(2,3) B(2,4) I(2,3) by (intro conjI exI[of _ T']) auto
  then show ?thesis using run by (intro exI[of _ ?f]) simp
qed

text \<open>The version a fetch has to return.\<close>

definition lookup_version :: "int \<Rightarrow> int \<Rightarrow> (index \<times> byte list) list \<Rightarrow> fetch_result" where
  "lookup_version doc sq es =
    (let below = takeWhile (\<lambda>e. compareIndex (fst e) \<lparr>documentId = doc, sequenceId = sq\<rparr> \<le> 0) es in
     if below = [] then DocumentNotFound
     else let (i, b) = last below in
       if documentId i = doc then FetchData (sequenceId i) b else DocumentNotFound)"

lemma processFetch_correct:
  assumes inv: "flex_inv es f"
  shows "\<exists>f'. processFetch doc sq f = Inr (lookup_version doc sq es, f') \<and> flex_inv es f'
    \<and> dataPointer f' = dataPointer f \<and> lastDocumentId f' = lastDocumentId f"
proof -
  let ?k = "\<lparr>documentId = doc, sequenceId = sq\<rparr>"
  obtain T where I: "raf_ok (dataFile f)" "use (dataFile f) = (\<lambda>_. 0)" "use (store (indexTree f)) = (\<lambda>_. 0)"
    "tree_inv compareIndex flex_cfg T (indexTree f)"
    "list_all2 (\<lambda>x y. fst x = fst y \<and> refers f (snd x) (snd y)) (tents T) es"
    using inv by (auto simp: flex_inv_def)
  let ?t = "indexTree f"
  define n where "n = length (takeWhile (\<lambda>e. compareIndex (fst e) ?k \<le> 0) (tents T))"
  have fp: "findPrev (\<lambda>other. compareIndex other ?k) ?t = Inr (if n = 0 then no_ref else trefs T ! (n - 1), ?t)"
    using flex.findPrev_correct[OF I(4), of ?k] by (simp add: flex.count_le_def n_def)
  have tw: "list_all2 (\<lambda>x y. fst x = fst y \<and> refers f (snd x) (snd y))
      (takeWhile (\<lambda>e. compareIndex (fst e) ?k \<le> 0) (tents T)) (takeWhile (\<lambda>e. compareIndex (fst e) ?k \<le> 0) es)"
    using list_all2_takeWhile(1)[OF I(5), of "\<lambda>e. compareIndex e ?k \<le> 0"] .
  have len: "length (takeWhile (\<lambda>e. compareIndex (fst e) ?k \<le> 0) es) = n"
    using list_all2_lengthD[OF tw] n_def by simp
  show ?thesis
  proof (cases "n = 0")
    case True
    then have "lookup_version doc sq es = DocumentNotFound" using len by (simp add: lookup_version_def)
    then show ?thesis using True fp inv
      by (simp add: processFetch_def no_ref_def ref_valid_def iter_destroy_def new_iter_def)
  next
    case False
    have "n \<le> length (tents T)" unfolding n_def by (rule length_takeWhile_le)
    then have nl: "n - 1 < length (tents T)" using False by simp
    let ?r = "trefs T ! (n - 1)"
    obtain i r b where e: "tents T ! (n - 1) = (i, r)" "es ! (n - 1) = (i, b)" "refers f r b"
      using list_all2_nthD[OF I(5) nl] by (metis prod.collapse)
    have below: "last (takeWhile (\<lambda>e. compareIndex (fst e) ?k \<le> 0) es) = (i, b)"
      using False len e(2) takeWhile_nth[of "n - 1" "\<lambda>e. compareIndex (fst e) ?k \<le> 0" es]
      by (subst last_conv_nth) auto
    have look: "lookup_version doc sq es = (if documentId i = doc then FetchData (sequenceId i) b else DocumentNotFound)"
      using below False len by (auto simp: lookup_version_def Let_def)
    have rv: "ref_valid ?r" using tree_inv_ref_pos[OF I(4) nl] by (simp add: ref_valid_def)
    obtain df where R: "raf_read (ref_offset r) (ref_length r) (dataFile f)
        = Inr (map (\<lambda>j. byte_at (dataFile f) (ref_offset r + j)) [0..<ref_length r], df)"
      "buf df = buf (dataFile f)" "use df = use (dataFile f)"
      using raf_read_correct[OF I(1)] by blast
    have data: "map (\<lambda>j. byte_at (dataFile f) (ref_offset r + j)) [0..<ref_length r] = b"
      using e(3) by (intro nth_equalityI) (auto simp: refers_def)
    let ?f1 = "f\<lparr>indexTree := ?t\<rparr>" and ?f2 = "f\<lparr>indexTree := ?t, dataFile := df\<rparr>"
    have seek: "processFetch doc sq f = fetchOnSeek doc (iter_of ?r) (f\<lparr>indexTree := addUse (fst ?r) ?t\<rparr>)"
      using fp False rv iter_seek_correct[OF I(4) nl] by (simp add: processFetch_def)
    have key: "iter_getKey (iter_of ?r) (addUse (fst ?r) ?t) = Inr i"
      "iter_getValue (iter_of ?r) (addUse (fst ?r) ?t) = Inr r"
      using iter_entry_correct[OF I(4) nl] e(1) by (simp_all add: iter_getKey_def iter_getValue_def)
    have inv2: "flex_inv es ?f2"
      using I R(2,3) raf_ok_buf[of df "dataFile f"] unfolding flex_inv_def refers_def by auto
    show ?thesis
    proof (cases "documentId i = doc")
      case True
      then have "processFetch doc sq f = Inr (FetchData (sequenceId i) b, ?f2)"
        unfolding seek fetchOnSeek_def using key R(1) data iter_destroy_correct[OF I(4) nl] by simp
      then show ?thesis using look True inv2 by (intro exI[of _ ?f2]) simp
    next
      case F: False
      then have "processFetch doc sq f = Inr (DocumentNotFound, ?f1)"
        unfolding seek fetchOnSeek_def using key(1) iter_destroy_correct[OF I(4) nl] by simp
      then show ?thesis using look F inv by (intro exI[of _ ?f1]) simp
    qed
  qed
qed

section \<open>Histories\<close>

text \<open>A sequence of versions is written.\<close>

fun apply_versions :: "version list \<Rightarrow> flex \<Rightarrow> flex res" where
  "apply_versions [] f = Inr f"
| "apply_versions ((d, s, b) # vs) f = res_bind (insertClosure d s b f) (apply_versions vs)"

abbreviation "ix d s \<equiv> \<lparr>documentId = d, sequenceId = s\<rparr>"

definition ins_version :: "version \<Rightarrow> (index \<times> byte list) list \<Rightarrow> (index \<times> byte list) list" where
  "ins_version v es = (case v of (d, s, b) \<Rightarrow> ins_after compareIndex (ix d s) b es)"

lemma sorted_ins_version: "sorted_ents compareIndex es \<Longrightarrow> sorted_ents compareIndex (ins_version v es)"
  by (auto simp: ins_version_def flex.sorted_ents_ins_after split: prod.splits)

lemma compareIndex_le:
  "compareIndex a b \<le> 0 \<longleftrightarrow> documentId a < documentId b \<or> documentId a = documentId b \<and> sequenceId a \<le> sequenceId b"
  by (auto simp: compareIndex_def)

lemma lookup_version_ins:
  assumes srt: "sorted_ents compareIndex es"
  shows "lookup_version d s (ins_version v es) = newer d s v (lookup_version d s es)"
proof -
  obtain d' s' b where v: "v = (d', s', b)" by (cases v)
  let ?P = "\<lambda>e. compareIndex (fst e) (ix d s) \<le> 0" and ?k = "ix d' s'"
  let ?xs = "filter ?P es"
  have tw: "takeWhile ?P es = ?xs" "takeWhile ?P (ins_version v es) = filter ?P (ins_version v es)"
    using srt sorted_ins_version[OF srt, of v] by (simp_all add: flex.takeWhile_eq_filter)
  have fi: "filter ?P (ins_version v es) = (if compareIndex ?k (ix d s) \<le> 0 then ins_after compareIndex ?k b ?xs else ?xs)"
    using flex.filter_ins_after[OF srt, of ?P] by (simp add: ins_version_def v)
  have look: "lookup_version d s es = (if ?xs = [] then DocumentNotFound else
      if documentId (fst (last ?xs)) = d then FetchData (sequenceId (fst (last ?xs))) (snd (last ?xs)) else DocumentNotFound)"
    unfolding lookup_version_def tw by (simp add: Let_def split: prod.split)
  show ?thesis
  proof (cases "compareIndex ?k (ix d s) \<le> 0")
    case False
    then have "lookup_version d s (ins_version v es) = lookup_version d s es"
      unfolding lookup_version_def tw fi by simp
    moreover have "\<not> (d' = d \<and> s' \<le> s)" using False by (auto simp: compareIndex_le)
    ultimately show ?thesis by (auto simp: v)
  next
    case True
    let ?ys = "ins_after compareIndex ?k b ?xs"
    have new: "lookup_version d s (ins_version v es) =
        (if documentId (fst (last ?ys)) = d then FetchData (sequenceId (fst (last ?ys))) (snd (last ?ys)) else DocumentNotFound)"
      unfolding lookup_version_def tw fi using True by (simp add: Let_def split: prod.split)
    have below: "compareIndex (fst (last ?xs)) (ix d s) \<le> 0" if "?xs \<noteq> []"
      using last_in_set[OF that] by simp
    show ?thesis
    proof (cases "?xs = [] \<or> compareIndex (fst (last ?xs)) ?k \<le> 0")
      case le: True
      then have "last ?ys = (?k, b)" using srt by (intro flex.last_ins_after_le flex.sorted_ents_filter)
      then show ?thesis using new look True le by (auto simp: v compareIndex_le)
    next
      case gt: False
      then have "last ?ys = last ?xs" by (intro last_ins_after) auto
      then show ?thesis using new look True gt below by (auto simp: v compareIndex_le)
    qed
  qed
qed

lemma lookup_version_fold:
  "sorted_ents compareIndex es \<Longrightarrow>
   lookup_version d s (fold ins_version vs es) = fold (newer d s) vs (lookup_version d s es)"
proof (induction vs arbitrary: es)
  case (Cons v vs)
  then show ?case using sorted_ins_version[of es v] lookup_version_ins[of es d s v] by simp
qed simp

lemma apply_versions_correct:
  "flex_inv es f \<Longrightarrow> dataPointer f + bytes_of vs < 2 ^ 64 \<Longrightarrow>
   \<exists>f'. apply_versions vs f = Inr f' \<and> flex_inv (fold ins_version vs es) f'
     \<and> dataPointer f' = dataPointer f + bytes_of vs \<and> lastDocumentId f' = lastDocumentId f"
proof (induction vs arbitrary: es f)
  case (Cons v vs)
  obtain d s b where v: "v = (d, s, b)" by (cases v)
  have "dataPointer f + length b < 2 ^ 64" using Cons.prems(2) by (simp add: bytes_of_def v)
  from insertClosure_correct[OF Cons.prems(1) this, of d s] obtain f1 where
    f1: "insertClosure d s b f = Inr f1" "flex_inv (ins_version v es) f1" "dataPointer f1 = dataPointer f + length b"
      "lastDocumentId f1 = lastDocumentId f"
    by (auto simp: ins_version_def v)
  moreover have "dataPointer f1 + bytes_of vs < 2 ^ 64" using Cons.prems(2) f1(3) by (simp add: bytes_of_def v)
  ultimately show ?case using Cons.IH[OF f1(2)] f1 by (auto simp: v bytes_of_def)
qed (simp add: bytes_of_def)

lemma flex_inv_sorted: "flex_inv es f \<Longrightarrow> sorted_ents compareIndex es"
proof -
  assume "flex_inv es f"
  then obtain T where "sorted_ents compareIndex (tents T)"
    "list_all2 (\<lambda>x y. fst x = fst y \<and> refers f (snd x) (snd y)) (tents T) es"
    by (auto simp: flex_inv_def tree_inv_def)
  note srt = this(1) and rel = this(2)
  show ?thesis
    unfolding sorted_ents_def sorted_wrt_iff_nth_less
  proof (intro allI impI)
    fix i j assume ij: "i < j" "j < length es"
    then have "i < length (tents T)" "j < length (tents T)" using list_all2_lengthD[OF rel] by simp_all
    then have "fst (es ! i) = fst (tents T ! i)" "fst (es ! j) = fst (tents T ! j)"
      using list_all2_nthD[OF rel] by metis+
    moreover have "compareIndex (fst (tents T ! i)) (fst (tents T ! j)) \<le> 0"
      using srt ij \<open>j < length (tents T)\<close> unfolding sorted_ents_def sorted_wrt_iff_nth_less by blast
    ultimately show "compareIndex (fst (es ! i)) (fst (es ! j)) \<le> 0" by simp
  qed
qed

section \<open>Properties\<close>

text \<open>
  C12. The storage is a multi-version store: after any sequence of writes of versions into a new storage
  (less than \<open>2^64\<close> bytes in total), a fetch of document \<open>d\<close> at sequence id \<open>s\<close> returns the visible
  version of the specification with exactly its bytes, or not found; no operation fails and no page
  stays in use.
\<close>

theorem flex_fetch_visible:
  assumes "bytes_of vs < 2 ^ 64"
  shows "\<exists>f f'. res_bind flex_create (apply_versions vs) = Inr f
    \<and> processFetch d s f = Inr (visible d s vs, f')
    \<and> use (store (indexTree f')) = (\<lambda>_. 0) \<and> use (dataFile f') = (\<lambda>_. 0)"
proof -
  obtain f0 where f0: "flex_create = Inr f0" "flex_inv [] f0" "dataPointer f0 = 0"
    using flex_create_inv by blast
  obtain f where f: "apply_versions vs f0 = Inr f" "flex_inv (fold ins_version vs []) f"
    using apply_versions_correct[OF f0(2), of vs] assms f0(3) by auto
  have srt: "sorted_ents compareIndex ([] :: (index \<times> byte list) list)" by (simp add: sorted_ents_def)
  have "lookup_version d s (fold ins_version vs []) = visible d s vs"
    using lookup_version_fold[OF srt, of d s vs] by (simp add: visible_def lookup_version_def)
  moreover obtain f' where "processFetch d s f = Inr (lookup_version d s (fold ins_version vs []), f')"
    "flex_inv (fold ins_version vs []) f'"
    using processFetch_correct[OF f(2), of d s] by blast
  moreover have "res_bind flex_create (apply_versions vs) = Inr f" unfolding f0(1) using f(1) by simp
  ultimately show ?thesis unfolding flex_inv_def by metis
qed

theorem flex_fetch_visible_witness:
  "\<exists>f f'. res_bind flex_create (apply_versions [(1, 5, [10]), (2, 6, [20, 21]), (1, 9, [30])]) = Inr f
    \<and> processFetch 1 8 f = Inr (FetchData 5 [10], f')
    \<and> use (store (indexTree f')) = (\<lambda>_. 0) \<and> use (dataFile f') = (\<lambda>_. 0)"
  using flex_fetch_visible[of "[(1, 5, [10]), (2, 6, [20, 21]), (1, 9, [30])]" 1 8]
  by (simp add: bytes_of_def visible_def)

text \<open>
  C13. Snapshots are stable: writing a version of any document with a sequence id above \<open>s\<close> changes no
  result of a fetch at \<open>s\<close>.
\<close>

theorem flex_snapshot_stable:
  assumes "flex_inv es f" "dataPointer f + length b < 2 ^ 64" "s < sq"
  shows "\<exists>f1 f2 f3. insertClosure d' sq b f = Inr f1
    \<and> processFetch d s f = Inr (lookup_version d s es, f2) \<and> processFetch d s f1 = Inr (lookup_version d s es, f3)"
proof -
  obtain f1 where f1: "insertClosure d' sq b f = Inr f1" "flex_inv (ins_version (d', sq, b) es) f1"
    using insertClosure_correct[OF assms(1,2), of d' sq] by (auto simp: ins_version_def)
  have "lookup_version d s (ins_version (d', sq, b) es) = lookup_version d s es"
    using lookup_version_ins[OF flex_inv_sorted[OF assms(1)], of d s "(d', sq, b)"] assms(3) by simp
  then show ?thesis
    using f1 processFetch_correct[OF assms(1), of d s] processFetch_correct[OF f1(2), of d s] by auto
qed

definition flex0 :: flex where
  "flex0 = \<lparr>lastDocumentId = 0, dataPointer = 0, indexTree = tree0, dataFile = raf_create\<rparr>"

lemma flex0_inv: "flex_inv [] flex0"
  using flex_create_inv by (simp add: flex_create_def createTree_tree0 flex0_def)

theorem flex_snapshot_stable_witness:
  "\<exists>f1 f2 f3. insertClosure 1 4 [7] flex0 = Inr f1
    \<and> processFetch 1 3 flex0 = Inr (DocumentNotFound, f2) \<and> processFetch 1 3 f1 = Inr (DocumentNotFound, f3)"
  using flex_snapshot_stable[OF flex0_inv, of "[7]" 3 4 1 1] by (simp add: flex0_def lookup_version_def)

text \<open>The index key survives the byte form it has in a node: \<open>readIndex\<close> inverts \<open>writeIndex\<close>.\<close>

theorem flex_index_roundtrip:
  assumes "in_int64 (documentId i)" "in_int64 (sequenceId i)"
  shows "readIndex (writeIndex i) = i \<and> length (writeIndex i) = keySize flex_cfg"
  using readIndex_writeIndex[OF assms] by (simp add: writeIndex_def flex_cfg_def)

theorem flex_index_roundtrip_witness:
  "readIndex (writeIndex (ix 3 (-5))) = ix 3 (-5) \<and> length (writeIndex (ix 3 (-5))) = 16"
  using flex_index_roundtrip[of "ix 3 (-5)"] by (simp add: in_int64_def flex_cfg_def)

end
