(* ===== verification/Queued_Driver.thy ===== *)
theory Queued_Driver
  imports Db_Types
begin

text \<open>
  \<open>QueuedStorageDriver\<close> (\<open>shard/src/db/storage-driver.cpp\<close>) and, with other names for the same
  code, \<open>QueuedViewDriver\<close> (\<open>shard/src/db/view-driver.cpp\<close>): a driver alternates between a request
  phase, in which requests run concurrently, and a sequence phase, in which committed transactions
  are applied one after the other. The methods are given one by one, as functions on the driver's
  state; the process closure waits on an event counter or has tasks queued, which is its control
  point. An inductive relation interleaves the callers with the closure. The document store behind
  the driver is the argument \<open>H\<close>, with the virtual methods as components; requests and results are
  of arbitrary types, so that the model serves storages (\<open>fetch\<close>) and views (\<open>query\<close>).
\<close>

section \<open>State\<close>

record ('d, 'q, 'r) hooks =
  hkInsert :: "int \<Rightarrow> mutation \<Rightarrow> 'd \<Rightarrow> 'd res"
  hkModify :: "int \<Rightarrow> mutation \<Rightarrow> 'd \<Rightarrow> 'd res"
  hkRequest :: "'q \<Rightarrow> 'd \<Rightarrow> ('r \<times> 'd) res"

type_synonym seq_item = "int \<times> mutation list"

text \<open>
  Where the process closure continues: at \<open>process\<close> or \<open>endRequestPhase\<close> when the event counter is
  positive, at \<open>sequencePhase\<close> from the local task queue, at \<open>processSequence\<close> after a mutation, or
  at \<open>unqueueRequest\<close>, of which the given number of tasks are in the process pool.
\<close>

datatype control = AtProcess | AtEndRequest | AtSequencePhase | AtMutation seq_item nat | AtUnqueue nat

record ('d, 'q) qdriver =
  qcurrentSeq :: int
  sequenceQueue :: "seq_item list"
  requestQueue :: "'q list"
  eventCount :: nat
  activeRequests :: int
  requestPhase :: bool
  flying :: "'q list"
  inner :: 'd
  ctl :: control

text \<open>The constructor, and \<open>processQueue\<close> run once: the closure waits at \<open>process\<close>.\<close>

definition q_init :: "'d \<Rightarrow> ('d, 'q) qdriver" where
  "q_init d = \<lparr>qcurrentSeq = 0, sequenceQueue = [], requestQueue = [], eventCount = 0,
     activeRequests = 0, requestPhase = True, flying = [], inner = d, ctl = AtProcess\<rparr>"

section \<open>Methods called from outside\<close>

definition q_sequence :: "int \<Rightarrow> mutation list \<Rightarrow> ('d, 'q) qdriver \<Rightarrow> ('d, 'q) qdriver" where
  "q_sequence sid muts q = q\<lparr>sequenceQueue := sequenceQueue q @ [(sid, muts)], eventCount := eventCount q + 1\<rparr>"

text \<open>\<open>fetch\<close>: in the request phase the request starts at once (it is \<open>flying\<close> until it finishes).\<close>

definition q_request :: "'q \<Rightarrow> ('d, 'q) qdriver \<Rightarrow> ('d, 'q) qdriver" where
  "q_request r q =
    (let q = (if requestPhase q
       then q\<lparr>activeRequests := activeRequests q + 1, flying := flying q @ [r]\<rparr>
       else q\<lparr>requestQueue := requestQueue q @ [r]\<rparr>) in
     q\<lparr>eventCount := eventCount q + 1\<rparr>)"

definition finishRequest :: "('d, 'q) qdriver \<Rightarrow> ('d, 'q) qdriver" where
  "finishRequest q = q\<lparr>activeRequests := activeRequests q - 1\<rparr>"

text \<open>Request \<open>i\<close> of those in progress reads the store, reports its result and finishes.\<close>

definition complete_request :: "('d, 'q, 'r) hooks \<Rightarrow> nat \<Rightarrow> ('d, 'q) qdriver \<Rightarrow> ('r \<times> ('d, 'q) qdriver) res" where
  "complete_request H i q =
     res_bind (hkRequest H (flying q ! i) (inner q)) (\<lambda>(r, d).
     Inr (r, finishRequest (q\<lparr>inner := d, flying := take i (flying q) @ drop (Suc i) (flying q)\<rparr>)))"

section \<open>ProcessClosure\<close>

definition sequencePhase :: "('d, 'q) qdriver \<Rightarrow> ('d, 'q) qdriver" where
  "sequencePhase q = (case sequenceQueue q of
     [] \<Rightarrow> q\<lparr>requestPhase := True, ctl := AtUnqueue (length (requestQueue q) + 1)\<rparr>
   | item # rest \<Rightarrow> q\<lparr>sequenceQueue := rest, ctl := AtMutation item 0\<rparr>)"

definition endRequestPhase :: "('d, 'q) qdriver \<Rightarrow> ('d, 'q) qdriver" where
  "endRequestPhase q =
     (if activeRequests q = 0 then sequencePhase q else q\<lparr>ctl := AtEndRequest\<rparr>)"

definition process :: "('d, 'q) qdriver \<Rightarrow> ('d, 'q) qdriver" where
  "process q =
     (if sequenceQueue q \<noteq> [] then endRequestPhase (q\<lparr>requestPhase := False\<rparr>)
      else q\<lparr>ctl := AtProcess\<rparr>)"

definition unqueueRequest :: "nat \<Rightarrow> ('d, 'q) qdriver \<Rightarrow> ('d, 'q) qdriver" where
  "unqueueRequest tasks q = (case requestQueue q of
     [] \<Rightarrow> process q
   | r # rest \<Rightarrow> q\<lparr>requestQueue := rest, activeRequests := activeRequests q + 1,
       flying := flying q @ [r], ctl := AtUnqueue tasks\<rparr>)"

text \<open>\<open>processSequence\<close>, with \<open>onSequenceItem\<close> as the step from one mutation to the next.\<close>

definition apply_mutation :: "('d, 'q, 'r) hooks \<Rightarrow> int \<Rightarrow> mutation \<Rightarrow> 'd \<Rightarrow> 'd res" where
  "apply_mutation H sid m d = (case mutType m of
     MutInsert \<Rightarrow> hkInsert H sid m d
   | MutModify \<Rightarrow> hkModify H sid m d
   | MutNone \<Rightarrow> Inl (LogicError ''Illegal mutation type''))"

definition processSequence :: "('d, 'q, 'r) hooks \<Rightarrow> seq_item \<Rightarrow> nat \<Rightarrow> ('d, 'q) qdriver \<Rightarrow> ('d, 'q) qdriver res" where
  "processSequence H item i q =
     (if i = length (snd item) then Inr (q\<lparr>qcurrentSeq := fst item, ctl := AtSequencePhase\<rparr>)
      else res_bind (apply_mutation H (fst item) (snd item ! i) (inner q)) (\<lambda>d.
        Inr (q\<lparr>inner := d, ctl := AtMutation item (Suc i)\<rparr>)))"

text \<open>The next step of the closure, none while it waits for an event.\<close>

definition q_internal :: "('d, 'q, 'r) hooks \<Rightarrow> ('d, 'q) qdriver \<Rightarrow> ('d, 'q) qdriver res option" where
  "q_internal H q = (case ctl q of
     AtProcess \<Rightarrow> if eventCount q > 0 then Some (Inr (process (q\<lparr>eventCount := 0\<rparr>))) else None
   | AtEndRequest \<Rightarrow> if eventCount q > 0 then Some (Inr (endRequestPhase (q\<lparr>eventCount := 0\<rparr>))) else None
   | AtSequencePhase \<Rightarrow> Some (Inr (sequencePhase q))
   | AtMutation item i \<Rightarrow> Some (processSequence H item i q)
   | AtUnqueue 0 \<Rightarrow> None
   | AtUnqueue (Suc n) \<Rightarrow> Some (Inr (unqueueRequest n q)))"

section \<open>Runs\<close>

text \<open>
  \<open>qrun H d0 ss q\<close>: from the initial state over the store \<open>d0\<close>, with the calls \<open>ss\<close> of \<open>sequence\<close> and
  any requests, the driver can reach the state \<open>q\<close>.
\<close>

inductive qrun :: "('d, 'q, 'r) hooks \<Rightarrow> 'd \<Rightarrow> seq_item list \<Rightarrow> ('d, 'q) qdriver \<Rightarrow> bool"
  for H :: "('d, 'q, 'r) hooks" and d0 :: 'd where
  Init: "qrun H d0 [] (q_init d0)"
| Sequence: "qrun H d0 ss q \<Longrightarrow> qrun H d0 (ss @ [(sid, muts)]) (q_sequence sid muts q)"
| Request: "qrun H d0 ss q \<Longrightarrow> qrun H d0 ss (q_request r q)"
| Complete: "qrun H d0 ss q \<Longrightarrow> i < length (flying q) \<Longrightarrow> complete_request H i q = Inr (r, q') \<Longrightarrow> qrun H d0 ss q'"
| Internal: "qrun H d0 ss q \<Longrightarrow> q_internal H q = Some (Inr q') \<Longrightarrow> qrun H d0 ss q'"

section \<open>Phases\<close>

text \<open>
  The phase invariant: \<open>activeRequests\<close> counts the requests in progress, none is in progress while
  the sequence phase runs, requests wait only outside the request phase or while they are being
  restarted, and there is exactly one restart task more than there are waiting requests.
\<close>

fun phase_ok :: "('d, 'q) qdriver \<Rightarrow> bool" where
  "phase_ok q \<longleftrightarrow> activeRequests q = int (length (flying q)) \<and> (case ctl q of
     AtProcess \<Rightarrow> requestPhase q \<and> requestQueue q = []
   | AtEndRequest \<Rightarrow> \<not> requestPhase q \<and> sequenceQueue q \<noteq> []
   | AtSequencePhase \<Rightarrow> \<not> requestPhase q \<and> flying q = []
   | AtMutation item i \<Rightarrow> \<not> requestPhase q \<and> flying q = [] \<and> i \<le> length (snd item)
   | AtUnqueue n \<Rightarrow> requestPhase q \<and> n = length (requestQueue q) + 1)"

declare phase_ok.simps [simp del]

lemma phase_ok_init: "phase_ok (q_init d)"
  by (simp add: phase_ok.simps q_init_def)

lemma phase_ok_sequence: "phase_ok q \<Longrightarrow> phase_ok (q_sequence sid muts q)"
  by (auto simp: phase_ok.simps q_sequence_def split: control.splits)

lemma phase_ok_request: "phase_ok q \<Longrightarrow> phase_ok (q_request r q)"
  by (auto simp: phase_ok.simps q_request_def Let_def split: control.splits)

lemma complete_request_cases:
  assumes "complete_request H i q = Inr (r, q')"
  obtains d where "hkRequest H (flying q ! i) (inner q) = Inr (r, d)"
    "q' = q\<lparr>activeRequests := activeRequests q - 1, inner := d,
      flying := take i (flying q) @ drop (Suc i) (flying q)\<rparr>"
  using assms by (auto simp: complete_request_def finishRequest_def res_bind_Inr_conv)

lemma phase_ok_complete:
  assumes "phase_ok q" "i < length (flying q)" "complete_request H i q = Inr (r, q')"
  shows "phase_ok q'"
proof -
  from assms(3) obtain d where "q' = q\<lparr>activeRequests := activeRequests q - 1, inner := d,
      flying := take i (flying q) @ drop (Suc i) (flying q)\<rparr>"
    by (rule complete_request_cases)
  then show ?thesis using assms(1,2)
    by (auto simp: phase_ok.simps of_nat_diff Suc_le_eq split: control.splits)
qed

lemma phase_ok_process: "activeRequests q = int (length (flying q)) \<Longrightarrow> requestPhase q \<Longrightarrow> requestQueue q = [] \<Longrightarrow>
   phase_ok (process q)"
  by (auto simp: phase_ok.simps process_def endRequestPhase_def sequencePhase_def split: list.splits)

lemma phase_ok_internal:
  assumes "phase_ok q" "q_internal H q = Some (Inr q')"
  shows "phase_ok q'"
proof (cases "ctl q")
  case AtProcess
  then show ?thesis using assms phase_ok_process[of "q\<lparr>eventCount := 0\<rparr>"]
    by (auto simp: q_internal_def phase_ok.simps[of q] split: if_splits)
next
  case AtEndRequest
  then show ?thesis using assms
    by (auto simp: q_internal_def endRequestPhase_def sequencePhase_def phase_ok.simps split: if_splits list.splits)
next
  case AtSequencePhase
  then show ?thesis using assms
    by (auto simp: q_internal_def sequencePhase_def phase_ok.simps split: list.splits)
next
  case (AtMutation item i)
  then show ?thesis using assms
    by (auto simp: q_internal_def processSequence_def phase_ok.simps res_bind_Inr_conv split: if_splits)
next
  case (AtUnqueue n)
  then obtain m where "n = Suc m" using assms by (cases n) (auto simp: q_internal_def)
  then show ?thesis using assms AtUnqueue phase_ok_process[of q]
    by (auto simp: q_internal_def unqueueRequest_def phase_ok.simps split: list.splits)
qed

lemma qrun_phase_ok: "qrun H d0 ss q \<Longrightarrow> phase_ok q"
  by (induction rule: qrun.induct)
    (auto intro: phase_ok_init phase_ok_sequence phase_ok_request phase_ok_complete phase_ok_internal)

section \<open>What the store goes through\<close>

definition flat :: "seq_item list \<Rightarrow> (int \<times> mutation) list" where
  "flat ss = concat (map (\<lambda>(s, ms). map (Pair s) ms) ss)"

lemma flat_simps [simp]: "flat [] = []" "flat (x # ss) = map (Pair (fst x)) (snd x) @ flat ss"
  "flat (ss @ ts) = flat ss @ flat ts"
  by (auto simp: flat_def split_def)

text \<open>The transaction that is being applied, and the part of it that has been.\<close>

definition current_item :: "('d, 'q) qdriver \<Rightarrow> seq_item list" where
  "current_item q = (case ctl q of AtMutation item i \<Rightarrow> [item] | _ \<Rightarrow> [])"

definition applied_part :: "('d, 'q) qdriver \<Rightarrow> (int \<times> mutation) list" where
  "applied_part q = (case ctl q of AtMutation item i \<Rightarrow> map (Pair (fst item)) (take i (snd item)) | _ \<Rightarrow> [])"

text \<open>
  The contract of a store behind the queue. \<open>rel a d\<close> relates the abstract content to the state of
  the store, \<open>app\<close> is the effect of a mutation, \<open>answer\<close> the result of a request, \<open>fits\<close> the mutations
  the store has room for.
\<close>

locale queued_store =
  fixes H :: "('d, 'q, 'r) hooks" and rel :: "'a \<Rightarrow> 'd \<Rightarrow> bool"
    and app :: "int \<Rightarrow> mutation \<Rightarrow> 'a \<Rightarrow> 'a" and answer :: "'q \<Rightarrow> 'a \<Rightarrow> 'r"
    and fits :: "'a \<Rightarrow> int \<Rightarrow> mutation \<Rightarrow> bool"
  assumes request_law: "rel a d \<Longrightarrow> \<exists>d'. hkRequest H r d = Inr (answer r a, d') \<and> rel a d'"
    and mutation_law: "rel a d \<Longrightarrow> fits a s m \<Longrightarrow> mutType m \<noteq> MutNone \<Longrightarrow>
      \<exists>d'. apply_mutation H s m d = Inr d' \<and> rel (app s m a) d'"
begin

definition app_all :: "(int \<times> mutation) list \<Rightarrow> 'a \<Rightarrow> 'a" where
  "app_all ms a = fold (\<lambda>(s, m). app s m) ms a"

definition all_fit :: "'a \<Rightarrow> (int \<times> mutation) list \<Rightarrow> bool" where
  "all_fit a ms \<longleftrightarrow> (\<forall>xs s m ys. ms = xs @ (s, m) # ys \<longrightarrow> mutType m \<noteq> MutNone \<and> fits (app_all xs a) s m)"

lemma all_fit_prefix: "all_fit a (ms @ ns) \<Longrightarrow> all_fit a ms"
  unfolding all_fit_def by (metis append_Cons append_assoc)

lemma app_all_snoc [simp]: "app_all (ms @ [(s, m)]) a = app s m (app_all ms a)"
  by (simp add: app_all_def)

definition progress :: "'a \<Rightarrow> seq_item list \<Rightarrow> ('d, 'q) qdriver \<Rightarrow> bool" where
  "progress a ss q \<longleftrightarrow> (\<exists>past. ss = past @ current_item q @ sequenceQueue q
     \<and> rel (app_all (flat past @ applied_part q) a) (inner q)
     \<and> (current_item q = [] \<longrightarrow> qcurrentSeq q = fst (last ((0, []) # past))))"

lemma progress_mutation:
  assumes "progress a ss q" "all_fit a (flat ss)" "ctl q = AtMutation item i" "i \<le> length (snd item)"
  shows "\<exists>q'. processSequence H item i q = Inr q' \<and> progress a ss q'"
proof -
  obtain past where P: "ss = past @ item # sequenceQueue q"
    "rel (app_all (flat past @ map (Pair (fst item)) (take i (snd item))) a) (inner q)"
    using assms(1,3) by (auto simp: progress_def current_item_def applied_part_def)
  show ?thesis
  proof (cases "i = length (snd item)")
    case True
    then have "progress a ss (q\<lparr>qcurrentSeq := fst item, ctl := AtSequencePhase\<rparr>)"
      unfolding progress_def using P
      by (intro exI[of _ "past @ [item]"]) (simp add: current_item_def applied_part_def)
    then show ?thesis using True by (simp add: processSequence_def)
  next
    case False
    then have i: "i < length (snd item)" using assms(4) by simp
    let ?m = "snd item ! i" and ?pre = "flat past @ map (Pair (fst item)) (take i (snd item))"
    have tk: "take (Suc i) (snd item) = take i (snd item) @ [?m]" using i by (simp add: take_Suc_conv_app_nth)
    have "snd item = take i (snd item) @ ?m # drop (Suc i) (snd item)" using i by (rule id_take_nth_drop)
    then have "flat ss = ?pre @ (fst item, ?m) # (map (Pair (fst item)) (drop (Suc i) (snd item)) @ flat (sequenceQueue q))"
      unfolding P(1) by (metis append_Cons append_assoc flat_simps(2,3) list.simps(9) map_append)
    then have "mutType ?m \<noteq> MutNone" "fits (app_all ?pre a) (fst item) ?m" using assms(2) unfolding all_fit_def by blast+
    then obtain d where d: "apply_mutation H (fst item) ?m (inner q) = Inr d" "rel (app (fst item) ?m (app_all ?pre a)) d"
      using mutation_law[OF P(2)] by blast
    have "app_all (flat past @ map (Pair (fst item)) (take (Suc i) (snd item))) a = app (fst item) ?m (app_all ?pre a)"
      unfolding tk by (simp flip: append_assoc)
    then have "progress a ss (q\<lparr>inner := d, ctl := AtMutation item (Suc i)\<rparr>)"
      unfolding progress_def using P(1) d(2)
      by (intro exI[of _ past]) (simp add: current_item_def applied_part_def)
    then show ?thesis using False d(1) by (simp add: processSequence_def)
  qed
qed

lemma progress_same:
  "progress a ss q \<Longrightarrow> ctl q' = ctl q \<Longrightarrow> sequenceQueue q' = sequenceQueue q \<Longrightarrow> inner q' = inner q \<Longrightarrow>
   qcurrentSeq q' = qcurrentSeq q \<Longrightarrow> progress a ss q'"
  by (auto simp: progress_def current_item_def applied_part_def)

lemma progress_idle:
  assumes "current_item q = []" "current_item q' = []" "sequenceQueue q' = sequenceQueue q" "inner q' = inner q"
    "qcurrentSeq q' = qcurrentSeq q" "progress a ss q"
  shows "progress a ss q'"
  using assms by (auto simp: progress_def current_item_def applied_part_def split: control.splits)

lemma progress_sequencePhase:
  assumes "progress a ss q" "current_item q = []"
  shows "progress a ss (sequencePhase q)"
proof (cases "sequenceQueue q")
  case Nil
  then show ?thesis using assms
    by (intro progress_idle[OF assms(2) _ _ _ _ assms(1)]) (auto simp: sequencePhase_def current_item_def)
next
  case (Cons item rest)
  have "applied_part q = []" using assms(2) by (auto simp: current_item_def applied_part_def split: control.splits)
  then show ?thesis using assms Cons unfolding progress_def sequencePhase_def
    by (auto simp: current_item_def applied_part_def)
qed

lemma progress_process:
  assumes "progress a ss q" "current_item q = []"
  shows "progress a ss (process q)"
proof -
  have 1: "progress a ss (q\<lparr>requestPhase := False\<rparr>)" "current_item (q\<lparr>requestPhase := False\<rparr>) = []"
    using assms by (auto intro: progress_same simp: current_item_def)
  have 2: "progress a ss (q\<lparr>ctl := AtProcess\<rparr>)" "progress a ss (q\<lparr>requestPhase := False, ctl := AtEndRequest\<rparr>)"
    by (rule progress_idle[OF assms(2) _ _ _ _ assms(1)]; simp add: current_item_def)+
  show ?thesis using progress_sequencePhase[OF 1] 2 by (simp add: process_def endRequestPhase_def)
qed

lemma progress_internal:
  assumes "progress a ss q" "all_fit a (flat ss)" "phase_ok q" "q_internal H q = Some r"
  shows "\<exists>q'. r = Inr q' \<and> progress a ss q'"
proof (cases "ctl q")
  case AtProcess
  have "progress a ss (q\<lparr>eventCount := 0\<rparr>)" "current_item (q\<lparr>eventCount := 0\<rparr>) = []"
    using AtProcess assms(1) by (auto intro: progress_same simp: current_item_def)
  then show ?thesis using progress_process[of a ss "q\<lparr>eventCount := 0\<rparr>"] AtProcess assms(4)
    by (auto simp: q_internal_def split: if_splits)
next
  case AtEndRequest
  have 1: "progress a ss (q\<lparr>eventCount := 0\<rparr>)" "current_item (q\<lparr>eventCount := 0\<rparr>) = []"
    using AtEndRequest assms(1) by (auto intro: progress_same simp: current_item_def)
  have "progress a ss (q\<lparr>eventCount := 0, ctl := AtEndRequest\<rparr>)"
    by (rule progress_idle[OF 1(2) _ _ _ _ 1(1)]) (simp_all add: current_item_def)
  then show ?thesis using progress_sequencePhase[OF 1] AtEndRequest assms(4)
    by (auto simp: q_internal_def endRequestPhase_def split: if_splits)
next
  case AtSequencePhase
  then show ?thesis using progress_sequencePhase[OF assms(1)] assms(4)
    by (auto simp: q_internal_def current_item_def)
next
  case (AtMutation item i)
  then show ?thesis using progress_mutation[OF assms(1,2) AtMutation] assms(3,4)
    by (auto simp: q_internal_def phase_ok.simps)
next
  case (AtUnqueue n)
  then obtain m where n: "n = Suc m" "r = Inr (unqueueRequest m q)"
    using assms(4) by (cases n) (auto simp: q_internal_def)
  have c: "current_item q = []" using AtUnqueue by (simp add: current_item_def)
  show ?thesis
  proof (cases "requestQueue q")
    case Nil
    then show ?thesis using n progress_process[OF assms(1) c] by (simp add: unqueueRequest_def)
  next
    case (Cons x xs)
    have "progress a ss (unqueueRequest m q)"
      by (rule progress_idle[OF c _ _ _ _ assms(1)]) (simp_all add: unqueueRequest_def Cons current_item_def)
    then show ?thesis using n by simp
  qed
qed

lemma progress_complete:
  assumes "progress a ss q" "phase_ok q" "i < length (flying q)"
  shows "\<exists>q' past. complete_request H i q = Inr (answer (flying q ! i) (app_all (flat past) a), q')
    \<and> ss = past @ sequenceQueue q \<and> progress a ss q'"
proof -
  have c: "current_item q = []" "applied_part q = []"
    using assms(2,3) by (auto simp: phase_ok.simps current_item_def applied_part_def split: control.splits)
  then obtain past where P: "ss = past @ sequenceQueue q" "rel (app_all (flat past) a) (inner q)"
    "qcurrentSeq q = fst (last ((0, []) # past))"
    using assms(1) by (auto simp: progress_def)
  obtain d where d: "hkRequest H (flying q ! i) (inner q) = Inr (answer (flying q ! i) (app_all (flat past) a), d)"
    "rel (app_all (flat past) a) d"
    using request_law[OF P(2)] by blast
  let ?q = "q\<lparr>activeRequests := activeRequests q - 1, inner := d,
      flying := take i (flying q) @ drop (Suc i) (flying q)\<rparr>"
  have "complete_request H i q = Inr (answer (flying q ! i) (app_all (flat past) a), ?q)"
    using d(1) by (simp add: complete_request_def finishRequest_def)
  moreover have "progress a ss ?q"
    unfolding progress_def using P d(2) c
    by (intro exI[of _ past]) (simp add: current_item_def applied_part_def)
  ultimately show ?thesis using P(1) by blast
qed

lemma progress_init: "rel a d0 \<Longrightarrow> progress a [] (q_init d0)"
  by (simp add: progress_def current_item_def applied_part_def q_init_def app_all_def)

lemma qrun_progress:
  "qrun H d0 ss q \<Longrightarrow> rel a d0 \<Longrightarrow> all_fit a (flat ss) \<Longrightarrow> progress a ss q"
proof (induction rule: qrun.induct)
  case Init
  then show ?case by (simp add: progress_init)
next
  case (Sequence ss q sid muts)
  have "progress a ss q" using Sequence.IH Sequence.prems all_fit_prefix[of a "flat ss"] by simp
  then show ?case by (auto simp: progress_def q_sequence_def current_item_def applied_part_def)
next
  case (Request ss q r)
  then show ?case by (auto simp: q_request_def Let_def intro: progress_same)
next
  case (Complete ss q i r q')
  then show ?case using progress_complete[of a ss q i] qrun_phase_ok by fastforce
next
  case (Internal ss q q')
  then show ?case using progress_internal[of a ss q "Inr q'"] qrun_phase_ok by fastforce
qed

text \<open>Nothing is lost or reordered: once the queue is drained the store holds all transactions in order.\<close>

lemma qrun_drained:
  assumes "qrun H d0 ss q" "rel a d0" "all_fit a (flat ss)" "sequenceQueue q = []" "current_item q = []"
  shows "rel (app_all (flat ss) a) (inner q) \<and> qcurrentSeq q = fst (last ((0, []) # ss))"
proof -
  have "applied_part q = []" using assms(5) by (auto simp: current_item_def applied_part_def split: control.splits)
  then show ?thesis using qrun_progress[OF assms(1-3)] assms(4,5) by (auto simp: progress_def)
qed

text \<open>Every request sees the effect of whole transactions, a prefix of those submitted so far.\<close>

lemma qrun_request_atomic:
  assumes "qrun H d0 ss q" "rel a d0" "all_fit a (flat ss)" "i < length (flying q)"
  shows "\<exists>q' past. complete_request H i q = Inr (answer (flying q ! i) (app_all (flat past) a), q')
    \<and> ss = past @ sequenceQueue q"
  using progress_complete[OF qrun_progress[OF assms(1-3)] qrun_phase_ok[OF assms(1)] assms(4)] by blast

lemma qrun_no_failure:
  assumes "qrun H d0 ss q" "rel a d0" "all_fit a (flat ss)"
  shows "q_internal H q \<noteq> Some (Inl e)"
  using progress_internal[OF qrun_progress[OF assms] assms(3) qrun_phase_ok[OF assms(1)]] by blast

end

section \<open>Where the driver can come to rest\<close>

lemma qrun_wakeup:
  "qrun H d0 ss q \<Longrightarrow> ctl q = AtProcess \<Longrightarrow> sequenceQueue q \<noteq> [] \<Longrightarrow> 0 < eventCount q"
proof (induction rule: qrun.induct)
  case (Complete ss q i r q')
  then show ?case by (auto elim!: complete_request_cases)
next
  case (Internal ss q q')
  show ?case
  proof (cases "ctl q")
    case (AtUnqueue n)
    then show ?thesis using Internal
      by (cases n) (auto simp: q_internal_def unqueueRequest_def process_def endRequestPhase_def
        sequencePhase_def split: list.splits if_splits)
  qed (use Internal in \<open>auto simp: q_internal_def process_def endRequestPhase_def sequencePhase_def
        processSequence_def res_bind_Inr_conv split: if_splits list.splits\<close>)
qed (auto simp: q_init_def q_sequence_def q_request_def Let_def)

lemma qrun_rest:
  assumes "qrun H d0 ss q" "q_internal H q = None" "sequenceQueue q \<noteq> [] \<or> requestQueue q \<noteq> []"
  shows "ctl q = AtEndRequest \<and> eventCount q = 0"
proof (cases "ctl q")
  case AtProcess
  then show ?thesis using assms qrun_wakeup[OF assms(1)] qrun_phase_ok[OF assms(1)]
    by (auto simp: q_internal_def phase_ok.simps split: if_splits)
next
  case (AtUnqueue n)
  then show ?thesis using assms(2) qrun_phase_ok[OF assms(1)] by (cases n) (auto simp: q_internal_def phase_ok.simps)
qed (use assms(2) in \<open>auto simp: q_internal_def split: if_splits\<close>)

section \<open>Properties\<close>

text \<open>
  C14. No request is in progress while a mutation is applied: whenever the driver is in its sequence
  phase, \<open>activeRequests\<close> is zero and no request is running; and the counter always is the number of
  requests in progress.
\<close>

theorem driver_phases_exclusive:
  assumes "qrun H d0 ss q"
  shows "activeRequests q = int (length (flying q)) \<and>
    (case ctl q of AtMutation _ _ \<Rightarrow> flying q = [] | AtSequencePhase \<Rightarrow> flying q = [] | _ \<Rightarrow> True)"
  using qrun_phase_ok[OF assms] by (auto simp: phase_ok.simps split: control.splits)

definition hooks0 :: "(nat, unit, nat) hooks" where
  "hooks0 = \<lparr>hkInsert = (\<lambda>s m d. Inr (d + 1)), hkModify = (\<lambda>s m d. Inr (d + 1)), hkRequest = (\<lambda>_ d. Inr (d, d))\<rparr>"

theorem driver_phases_exclusive_witness:
  "activeRequests (q_request () (q_init (0 :: nat))) = int (length (flying (q_request () (q_init (0 :: nat))))) \<and>
    (case ctl (q_request () (q_init (0 :: nat))) of AtMutation _ _ \<Rightarrow> flying (q_request () (q_init (0 :: nat))) = []
       | AtSequencePhase \<Rightarrow> flying (q_request () (q_init (0 :: nat))) = [] | _ \<Rightarrow> True)"
  by (rule driver_phases_exclusive[of hooks0 0 "[]" "q_request () (q_init 0)"]) (intro qrun.Request qrun.Init)

text \<open>
  Pending work is only ever left alone at one place: if the process closure can not move although
  a transaction or a request waits, it waits for an event in \<open>endRequestPhase\<close>.
\<close>

theorem driver_rest_only_in_endRequestPhase:
  assumes "qrun H d0 ss q" "q_internal H q = None" "sequenceQueue q \<noteq> [] \<or> requestQueue q \<noteq> []"
  shows "ctl q = AtEndRequest \<and> eventCount q = 0"
  using assms by (rule qrun_rest)

text \<open>A run into this state: a request is in progress when the sequence phase is entered.\<close>

definition stuck :: "(nat, unit) qdriver" where
  "stuck = (q_init 0)\<lparr>sequenceQueue := [(1, [])], requestPhase := False, ctl := AtEndRequest\<rparr>"

lemma stuck_run: "qrun hooks0 0 [(1, [])] stuck"
proof -
  let ?q1 = "q_sequence 1 [] (q_request () (q_init (0 :: nat)))"
  have "qrun hooks0 0 ([] @ [(1, [])]) ?q1" by (intro qrun.Sequence qrun.Request qrun.Init)
  then have "qrun hooks0 0 [(1, [])] ?q1" by simp
  moreover have "q_internal hooks0 ?q1 = Some (Inr (process (?q1\<lparr>eventCount := 0\<rparr>)))"
    by (simp add: q_internal_def q_init_def q_sequence_def q_request_def)
  ultimately have "qrun hooks0 0 [(1, [])] (process (?q1\<lparr>eventCount := 0\<rparr>))" by (rule qrun.Internal)
  then show ?thesis
    by (rule qrun.Complete[where i = 0 and r = 0])
      (simp_all add: q_init_def q_sequence_def q_request_def process_def endRequestPhase_def complete_request_def
        finishRequest_def hooks0_def stuck_def)
qed

theorem driver_rest_only_in_endRequestPhase_witness:
  "ctl stuck = AtEndRequest \<and> eventCount stuck = 0"
  using driver_rest_only_in_endRequestPhase[OF stuck_run] by (simp add: q_internal_def stuck_def q_init_def)

text \<open>
  C16. The wake-up is lost: the driver can reach a state in which a transaction is queued, the sequence
  phase has been announced, no request is in progress any more, and yet the closure waits for an
  event that nobody has signalled, because \<open>finishRequest\<close> does not increment the event counter.
\<close>

theorem driver_lost_wakeup:
  "\<exists>q. qrun hooks0 0 [(1, [])] q \<and> sequenceQueue q = [(1, [])] \<and> activeRequests q = 0 \<and> flying q = []
    \<and> \<not> requestPhase q \<and> q_internal hooks0 q = None"
  by (intro exI[of _ stuck]) (simp add: stuck_run, simp add: stuck_def q_init_def q_internal_def)

end
