(* ===== verification/Flex_Driver.thy ===== *)
theory Flex_Driver
  imports Flex_Storage Queued_Driver
begin

text \<open>
  The document storage behind its queue: \<open>FlexStorage\<close> provides the virtual methods of
  \<open>QueuedStorageDriver\<close>. The contract of the queue holds for it, with the history of versions as the
  abstract content, so that what was proved for any store behind the queue holds for the storage.
\<close>

definition flex_hooks :: "(flex, int \<times> int, fetch_result) hooks" where
  "flex_hooks = \<lparr>hkInsert = processInsert, hkModify = processModify,
     hkRequest = (\<lambda>(doc, sq). processFetch doc sq)\<rparr>"

definition flex_rel :: "version list \<Rightarrow> flex \<Rightarrow> bool" where
  "flex_rel vs f \<longleftrightarrow> flex_inv (fold ins_version vs []) f \<and> dataPointer f = bytes_of vs"

definition flex_app :: "int \<Rightarrow> mutation \<Rightarrow> version list \<Rightarrow> version list" where
  "flex_app s m vs = vs @ [version_of (s, m)]"

definition flex_answer :: "int \<times> int \<Rightarrow> version list \<Rightarrow> fetch_result" where
  "flex_answer r vs = visible (fst r) (snd r) vs"

definition flex_fits :: "version list \<Rightarrow> int \<Rightarrow> mutation \<Rightarrow> bool" where
  "flex_fits vs s m \<longleftrightarrow> bytes_of vs + length (mutBuffer m) < 2 ^ 64"

lemma lookup_versions: "lookup_version d s (fold ins_version vs []) = visible d s vs"
  using lookup_version_fold[of "[]" d s vs] by (simp add: visible_def lookup_version_def sorted_ents_def)

lemma flex_request_law:
  assumes "flex_rel vs f"
  shows "\<exists>f'. processFetch d s f = Inr (visible d s vs, f') \<and> flex_rel vs f' \<and> lastDocumentId f' = lastDocumentId f"
  using assms processFetch_correct[of "fold ins_version vs []" f d s] by (auto simp: flex_rel_def lookup_versions)

lemma flex_mutation_law:
  assumes "flex_rel vs f" "flex_fits vs s m" "mutType m \<noteq> MutNone"
  shows "\<exists>f'. apply_mutation flex_hooks s m f = Inr f' \<and> flex_rel (flex_app s m vs) f' \<and> lastDocumentId f' = lastDocumentId f"
proof -
  obtain f' where f': "insertClosure (mutDocument m) s (mutBuffer m) f = Inr f'"
    "flex_inv (ins_version (version_of (s, m)) (fold ins_version vs [])) f'"
    "dataPointer f' = dataPointer f + length (mutBuffer m)" "lastDocumentId f' = lastDocumentId f"
    using insertClosure_correct[of "fold ins_version vs []" f "mutBuffer m" "mutDocument m" s] assms
    by (auto simp: flex_rel_def flex_fits_def version_of_def ins_version_def)
  then show ?thesis using assms
    by (cases "mutType m")
      (auto simp: apply_mutation_def flex_hooks_def processInsert_def processModify_def flex_rel_def flex_app_def
        bytes_of_def version_of_def)
qed

interpretation fq: queued_store flex_hooks flex_rel flex_app flex_answer flex_fits
proof unfold_locales
  show "\<exists>d'. hkRequest flex_hooks r d = Inr (flex_answer r a, d') \<and> flex_rel a d'" if "flex_rel a d" for a d r
    using flex_request_law[OF that, of "fst r" "snd r"] by (auto simp: flex_hooks_def flex_answer_def split_def)
  show "\<exists>d'. apply_mutation flex_hooks s m d = Inr d' \<and> flex_rel (flex_app s m a) d'"
    if "flex_rel a d" "flex_fits a s m" "mutType m \<noteq> MutNone" for a d m s
    using flex_mutation_law[OF that] by blast
qed

definition versions :: "seq_item list \<Rightarrow> version list" where
  "versions ss = map version_of (flat ss)"

lemma fq_app_all: "fq.app_all ms vs = vs @ map version_of ms"
  by (induction ms arbitrary: vs) (auto simp: fq.app_all_def flex_app_def)

definition seqs_ok :: "seq_item list \<Rightarrow> bool" where
  "seqs_ok ss \<longleftrightarrow> (\<forall>(s, m) \<in> set (flat ss). mutType m \<noteq> MutNone) \<and> bytes_of (versions ss) < 2 ^ 64"

lemma fq_all_fit:
  assumes "seqs_ok ss"
  shows "fq.all_fit [] (flat ss)"
  unfolding fq.all_fit_def
proof (intro allI impI)
  fix xs s m ys assume e: "flat ss = xs @ (s, m) # ys"
  then have "bytes_of (map version_of xs) + length (mutBuffer m) \<le> bytes_of (versions ss)"
    by (simp add: versions_def bytes_of_def version_of_def)
  then show "mutType m \<noteq> MutNone \<and> flex_fits (fq.app_all xs []) s m"
    using assms e by (auto simp: seqs_ok_def fq_app_all flex_fits_def)
qed

lemma flex0_rel: "flex_rel [] flex0"
  using flex0_inv by (simp add: flex_rel_def flex0_def bytes_of_def)

section \<open>Properties\<close>

text \<open>
  C15. Requests see whole transactions: in every reachable state of the storage with its queue, a fetch
  that is in progress completes with the visible version of the history made of the first
  transactions, those that are not in the queue any more, never of a part of one.
\<close>

theorem storage_fetch_atomic:
  assumes "qrun flex_hooks flex0 ss q" "seqs_ok ss" "i < length (flying q)"
  shows "\<exists>q' past. complete_request flex_hooks i q =
      Inr (visible (fst (flying q ! i)) (snd (flying q ! i)) (versions past), q')
    \<and> ss = past @ sequenceQueue q"
  using fq.qrun_request_atomic[OF assms(1) flex0_rel fq_all_fit[OF assms(2)] assms(3)]
  by (simp add: fq_app_all versions_def flex_answer_def)

abbreviation "mut1 \<equiv> \<lparr>mutType = MutInsert, mutStorage = 1, mutDocument = 1, mutBuffer = [7]\<rparr>"

lemma stale_run: "qrun flex_hooks flex0 [(1, [mut1])] (q_request (1, 1) (q_sequence 1 [mut1] (q_init flex0)))"
proof -
  have "qrun flex_hooks flex0 ([] @ [(1, [mut1])]) (q_request (1, 1) (q_sequence 1 [mut1] (q_init flex0)))"
    by (intro qrun.Request qrun.Sequence qrun.Init)
  then show ?thesis by simp
qed

theorem storage_fetch_atomic_witness:
  "\<exists>q' past. complete_request flex_hooks 0 (q_request (1, 1) (q_sequence 1 [mut1] (q_init flex0))) =
      Inr (visible 1 1 (versions past), q') \<and> [(1, [mut1])] = past @ [(1, [mut1])]"
  using storage_fetch_atomic[OF stale_run, of 0]
  by (simp add: seqs_ok_def versions_def bytes_of_def version_of_def q_request_def q_sequence_def q_init_def)

text \<open>
  Transactions are applied completely and in the order of the calls: in every reachable state in
  which the queue is empty and no transaction is in the works, every fetch returns the visible
  version of the whole history, and nothing has failed.
\<close>

theorem storage_drained:
  assumes "qrun flex_hooks flex0 ss q" "seqs_ok ss" "sequenceQueue q = []" "current_item q = []"
  shows "\<exists>f. processFetch d s (inner q) = Inr (visible d s (versions ss), f)"
  using fq.qrun_drained[OF assms(1) flex0_rel fq_all_fit[OF assms(2)] assms(3,4)] flex_request_law[of "versions ss" "inner q" d s]
  by (auto simp: fq_app_all versions_def)

theorem storage_drained_witness:
  "\<exists>f. processFetch 1 1 (inner (q_request (1, 1) (q_init flex0))) = Inr (DocumentNotFound, f)"
  using storage_drained[OF qrun.Request[where r = "(1, 1)", OF qrun.Init], of 1 1]
  by (simp add: seqs_ok_def versions_def bytes_of_def q_request_def q_init_def current_item_def visible_def)

text \<open>
  C17. A fetch may be stale: a reachable state exists in which the insertion of document 1 with sequence
  id 1 has been handed to the storage, and a fetch of document 1 at sequence id 1 that starts
  afterwards returns not found, because it runs in the request phase that precedes the insertion. In
  the state in which the insertion has been applied the same fetch returns the document.
\<close>

theorem storage_stale_fetch:
  "\<exists>q q'. qrun flex_hooks flex0 [(1, [mut1])] q \<and> flying q = [(1, 1)] \<and> sequenceQueue q = [(1, [mut1])]
    \<and> complete_request flex_hooks 0 q = Inr (DocumentNotFound, q')
    \<and> visible 1 1 (versions [(1, [mut1])]) = FetchData 1 [7]"
proof -
  let ?q = "q_request (1, 1) (q_sequence 1 [mut1] (q_init flex0))"
  have q: "flying ?q = [(1, 1)]" "sequenceQueue ?q = [(1, [mut1])]"
    by (simp_all add: q_request_def q_sequence_def q_init_def)
  have "seqs_ok [(1, [mut1])]" by (simp add: seqs_ok_def versions_def bytes_of_def version_of_def)
  from fq.qrun_request_atomic[OF stale_run flex0_rel fq_all_fit[OF this], of 0] obtain q' where
    "complete_request flex_hooks 0 ?q = Inr (DocumentNotFound, q')"
    by (auto simp: q fq_app_all flex_answer_def visible_def Cons_eq_append_conv)
  then show ?thesis using stale_run q
    by (intro exI[of _ ?q] exI[of _ q']) (simp add: versions_def version_of_def visible_def)
qed

end
