(* ===== verification/Engine.thy ===== *)
theory Engine
  imports Db_Types
begin

text \<open>
  \<open>Db::Engine\<close> (\<open>shard/src/db/engine.cpp\<close>): transactions, their submission with conflict and
  constraint checks, commit, the write-ahead log and the reconstruction of the state from it. The
  virtual methods of the drivers are the components of the arguments \<open>D\<close> (storages) and \<open>V\<close> (views);
  a driver answers a fetch before the engine goes on. The public methods only change the state and
  the queue; the process closure takes one queued item at a time, and its control point is either
  \<open>process\<close> or, between two constraints, \<open>submitCheckConstraint\<close>. The write-ahead log is the list of
  its entries here; its byte format is the subject of the theory \<open>Write_Ahead\<close>. Reference counts of
  transactions are not modelled.
\<close>

section \<open>Drivers\<close>

record 'd storage_ops =
  opAllocate :: "'d \<Rightarrow> int \<times> 'd"
  opReinspect :: "mutation \<Rightarrow> 'd \<Rightarrow> 'd"
  opSequence :: "int \<Rightarrow> mutation list \<Rightarrow> 'd \<Rightarrow> 'd res"
  opFetch :: "int \<Rightarrow> int \<Rightarrow> 'd \<Rightarrow> (fetch_result \<times> 'd) res"

record 'w view_ops =
  vopReinspect :: "mutation \<Rightarrow> 'w \<Rightarrow> 'w"
  vopSequence :: "int \<Rightarrow> mutation list \<Rightarrow> 'w \<Rightarrow> 'w res"

record 'd driver =
  drvName :: string
  dstate :: 'd

section \<open>State\<close>

datatype submit_error = SubmitNone | SubmitSuccess | ConstraintViolation | ConstraintConflict | MutationConflict

datatype tr_state = StNone | StOpen | StInSubmit | StSubmitted | StInCommitOrRollback

record transaction =
  mutations :: "mutation list"
  constraints :: "constraint list"
  trState :: tr_state

datatype item_type = ItemNone | ItemSubmit | ItemSubmitCommit | ItemCommit | ItemRollback

record queue_item =
  itemType :: item_type
  itemTrid :: int

datatype log_type = LogNone | LogSubmit | LogSubmitCommit | LogCommit | LogRollback

record log_mutation =
  lmType :: mut_type
  lmStorage :: string
  lmDocument :: int
  lmBuffer :: "byte list"

record log_entry =
  leType :: log_type
  leSequence :: int
  leTransaction :: int
  leMutations :: "log_mutation list"

text \<open>The control point of the process closure.\<close>

datatype closure = AtQueue | AtConstraint queue_item nat

record ('d, 'w) engine =
  nextTransactId :: int
  currentSequenceId :: int
  activeTransactions :: "int \<rightharpoonup> transaction"
  submittedTransactions :: "int list"
  submitQueue :: "queue_item list"
  wal :: "log_entry list"
  storages :: "'d driver option list"
  views :: "'w driver option list"
  pc :: closure

definition engine_new :: "('d, 'w) engine" where
  "engine_new = \<lparr>nextTransactId = 1, currentSequenceId = 0, activeTransactions = Map.empty,
     submittedTransactions = [], submitQueue = [], wal = [], storages = [None], views = [None], pc = AtQueue\<rparr>"

text \<open>\<open>p_storages[i]->\<close>: an index out of range or a null pointer.\<close>

definition driver_at :: "'d driver option list \<Rightarrow> int \<Rightarrow> 'd driver res" where
  "driver_at ds i = (if i < 0 \<or> int (length ds) \<le> i then Inl OutOfRange
     else case ds ! nat i of None \<Rightarrow> Inl NullDeref | Some d \<Rightarrow> Inr d)"

definition set_driver :: "int \<Rightarrow> 'd \<Rightarrow> 'd driver option list \<Rightarrow> 'd driver option list" where
  "set_driver i d ds = ds[nat i := map_option (\<lambda>x. x\<lparr>dstate := d\<rparr>) (ds ! nat i)]"

section \<open>Storages and views\<close>

fun find_driver :: "nat \<Rightarrow> 'd driver option list \<Rightarrow> string \<Rightarrow> int" where
  "find_driver i [] name = -1"
| "find_driver i (None # ds) name = find_driver (Suc i) ds name"
| "find_driver i (Some d # ds) name = (if drvName d = name then int i else find_driver (Suc i) ds name)"

definition getStorage :: "string \<Rightarrow> ('d, 'w) engine \<Rightarrow> int" where
  "getStorage name e = find_driver 1 (drop 1 (storages e)) name"

definition getView :: "string \<Rightarrow> ('d, 'w) engine \<Rightarrow> int" where
  "getView name e = find_driver 1 (drop 1 (views e)) name"

text \<open>The registry of drivers is the argument \<open>reg\<close>: the initial state a driver of that name has.\<close>

definition setupStorage :: "(string \<Rightarrow> 'd option) \<Rightarrow> string \<Rightarrow> string \<Rightarrow> ('d, 'w) engine \<Rightarrow> ('d, 'w) engine res" where
  "setupStorage reg driver name e = (case reg driver of
     None \<Rightarrow> Inl (RuntimeError ''Storage driver not available'')
   | Some d \<Rightarrow> Inr (e\<lparr>storages := storages e @ [Some \<lparr>drvName = name, dstate = d\<rparr>]\<rparr>))"

definition setupView :: "(string \<Rightarrow> 'w option) \<Rightarrow> string \<Rightarrow> string \<Rightarrow> ('d, 'w) engine \<Rightarrow> ('d, 'w) engine res" where
  "setupView reg driver name e = (case reg driver of
     None \<Rightarrow> Inl (RuntimeError ''View driver not available'')
   | Some d \<Rightarrow> Inr (e\<lparr>views := views e @ [Some \<lparr>drvName = name, dstate = d\<rparr>]\<rparr>))"

definition createStorage :: "(string \<Rightarrow> 'd option) \<Rightarrow> string \<Rightarrow> string \<Rightarrow> ('d, 'w) engine \<Rightarrow> ('d, 'w) engine res" where
  "createStorage reg driver name e =
     (if getStorage name e \<noteq> -1 then Inl (RuntimeError ''Storage exists already!'')
      else setupStorage reg driver name e)"

definition createView :: "(string \<Rightarrow> 'w option) \<Rightarrow> string \<Rightarrow> string \<Rightarrow> ('d, 'w) engine \<Rightarrow> ('d, 'w) engine res" where
  "createView reg driver name e =
     (if getView name e \<noteq> -1 then Inl (RuntimeError ''View exists already!'')
      else setupView reg driver name e)"

definition unlinkStorage :: "int \<Rightarrow> ('d, 'w) engine \<Rightarrow> ('d, 'w) engine res" where
  "unlinkStorage i e =
     (if i = -1 then Inl (RuntimeError ''Illegal storage specified'')
      else case driver_at (storages e) i of
        Inl NullDeref \<Rightarrow> Inl (RuntimeError ''Requested storage does not exist'')
      | Inl x \<Rightarrow> Inl x
      | Inr _ \<Rightarrow> Inr (e\<lparr>storages := (storages e)[nat i := None]\<rparr>))"

definition unlinkView :: "int \<Rightarrow> ('d, 'w) engine \<Rightarrow> ('d, 'w) engine res" where
  "unlinkView i e =
     (if i = -1 then Inl (RuntimeError ''Illegal view specified'')
      else case driver_at (views e) i of
        Inl NullDeref \<Rightarrow> Inl (RuntimeError ''Requested view does not exist'')
      | Inl x \<Rightarrow> Inl x
      | Inr _ \<Rightarrow> Inr (e\<lparr>views := (views e)[nat i := None]\<rparr>))"

text \<open>What \<open>writeConfig\<close> writes: the names of the storages and of the views.\<close>

definition driver_names :: "'d driver option list \<Rightarrow> string list" where
  "driver_names ds = map drvName (List.map_filter id ds)"

definition writeConfig :: "('d, 'w) engine \<Rightarrow> string list \<times> string list" where
  "writeConfig e = (driver_names (drop 1 (storages e)), driver_names (drop 1 (views e)))"

section \<open>Transactions\<close>

definition transaction_begin :: "('d, 'w) engine \<Rightarrow> int \<times> ('d, 'w) engine" where
  "transaction_begin e =
    (let trid = nextTransactId e in
     (trid, e\<lparr>nextTransactId := trid + 1,
        activeTransactions := (case activeTransactions e trid of
          None \<Rightarrow> (activeTransactions e)(trid \<mapsto> \<lparr>mutations = [], constraints = [], trState = StOpen\<rparr>)
        | Some _ \<Rightarrow> activeTransactions e)\<rparr>))"

definition find_active :: "int \<Rightarrow> ('d, 'w) engine \<Rightarrow> transaction res" where
  "find_active trid e = (case activeTransactions e trid of
     None \<Rightarrow> Inl (RuntimeError ''Illegal transaction'') | Some tr \<Rightarrow> Inr tr)"

definition put_active :: "int \<Rightarrow> transaction \<Rightarrow> ('d, 'w) engine \<Rightarrow> ('d, 'w) engine" where
  "put_active trid tr e = e\<lparr>activeTransactions := (activeTransactions e)(trid \<mapsto> tr)\<rparr>"

definition updateMutation :: "'d storage_ops \<Rightarrow> int \<Rightarrow> mutation \<Rightarrow> ('d, 'w) engine \<Rightarrow> ('d, 'w) engine res" where
  "updateMutation D trid m e =
     res_bind (find_active trid e) (\<lambda>tr.
     res_bind (check (trState tr = StOpen) AssertFailed) (\<lambda>_.
     res_bind (if mutType m = MutInsert then
         res_bind (driver_at (storages e) (mutStorage m)) (\<lambda>drv.
         let (doc, d) = opAllocate D (dstate drv) in
         Inr (m\<lparr>mutDocument := doc\<rparr>, e\<lparr>storages := set_driver (mutStorage m) d (storages e)\<rparr>))
       else Inr (m, e)) (\<lambda>(m, e).
     Inr (put_active trid (tr\<lparr>mutations := mutations tr @ [m]\<rparr>) e))))"

definition updateConstraint :: "int \<Rightarrow> constraint \<Rightarrow> ('d, 'w) engine \<Rightarrow> ('d, 'w) engine res" where
  "updateConstraint trid c e =
     res_bind (find_active trid e) (\<lambda>tr.
     res_bind (check (trState tr = StOpen) AssertFailed) (\<lambda>_.
     Inr (put_active trid (tr\<lparr>constraints := constraints tr @ [c]\<rparr>) e)))"

definition enqueue :: "item_type \<Rightarrow> int \<Rightarrow> ('d, 'w) engine \<Rightarrow> ('d, 'w) engine" where
  "enqueue ty trid e = e\<lparr>submitQueue := submitQueue e @ [\<lparr>itemType = ty, itemTrid = trid\<rparr>]\<rparr>"

definition submit :: "int \<Rightarrow> ('d, 'w) engine \<Rightarrow> ('d, 'w) engine res" where
  "submit trid e =
     res_bind (find_active trid e) (\<lambda>tr.
     res_bind (check (trState tr = StOpen) AssertFailed) (\<lambda>_.
     Inr (enqueue ItemSubmit trid (put_active trid (tr\<lparr>trState := StInSubmit\<rparr>) e))))"

definition submitCommit :: "int \<Rightarrow> ('d, 'w) engine \<Rightarrow> ('d, 'w) engine res" where
  "submitCommit trid e =
     res_bind (find_active trid e) (\<lambda>tr.
     res_bind (check (trState tr = StOpen) AssertFailed) (\<lambda>_.
     Inr (enqueue ItemSubmitCommit trid (put_active trid (tr\<lparr>trState := StInSubmit\<rparr>) e))))"

definition commit :: "int \<Rightarrow> ('d, 'w) engine \<Rightarrow> ('d, 'w) engine res" where
  "commit trid e =
     res_bind (find_active trid e) (\<lambda>tr.
     res_bind (check (trState tr = StSubmitted) AssertFailed) (\<lambda>_.
     Inr (enqueue ItemCommit trid (put_active trid (tr\<lparr>trState := StInCommitOrRollback\<rparr>) e))))"

definition rollback :: "int \<Rightarrow> ('d, 'w) engine \<Rightarrow> ('d, 'w) engine res" where
  "rollback trid e =
     res_bind (find_active trid e) (\<lambda>tr.
     res_bind (check (trState tr = StOpen \<or> trState tr = StSubmitted) AssertFailed) (\<lambda>_.
     Inr (enqueue ItemRollback trid (put_active trid (tr\<lparr>trState := StInCommitOrRollback\<rparr>) e))))"

text \<open>Two parts of different transactions that can not both succeed.\<close>

definition compatible :: "mutation \<Rightarrow> constraint \<Rightarrow> bool" where
  "compatible m c \<longleftrightarrow> \<not> (conType c = ConDocumentState \<and> matchSequenceId c
     \<and> mutType m = MutModify \<and> mutDocument m = conDocument c)"

section \<open>ProcessQueueClosure\<close>

text \<open>What a callback of a queued item is called with.\<close>

datatype outcome =
    SubmitOutcome submit_error
  | SubmitCommitOutcome submit_error int
  | CommitOutcome int
  | RollbackOutcome

type_synonym ('d, 'w) stepped = "(outcome option \<times> ('d, 'w) engine) res"

text \<open>The nested loops of \<open>processSubmit\<close> over one submitted transaction.\<close>

definition conflict_with :: "transaction \<Rightarrow> transaction \<Rightarrow> submit_error option" where
  "conflict_with other tr =
     (if \<exists>m \<in> set (mutations other). \<exists>c \<in> set (constraints tr). \<not> compatible m c then Some ConstraintConflict
      else if \<exists>c \<in> set (constraints other). \<exists>m \<in> set (mutations tr). \<not> compatible m c then Some MutationConflict
      else None)"

text \<open>\<open>unordered_map::at\<close> throws when the id is not active.\<close>

fun find_conflict :: "(int \<rightharpoonup> transaction) \<Rightarrow> transaction \<Rightarrow> int list \<Rightarrow> submit_error option res" where
  "find_conflict act tr [] = Inr None"
| "find_conflict act tr (i # is) = (case act i of
     None \<Rightarrow> Inl OutOfRange
   | Some other \<Rightarrow> (case conflict_with other tr of
       Some err \<Rightarrow> Inr (Some err)
     | None \<Rightarrow> find_conflict act tr is))"

definition submitFailure :: "queue_item \<Rightarrow> submit_error \<Rightarrow> ('d, 'w) engine \<Rightarrow> ('d, 'w) stepped" where
  "submitFailure item err e =
     res_bind (check (activeTransactions e (itemTrid item) \<noteq> None) AssertFailed) (\<lambda>_.
     let e = e\<lparr>activeTransactions := (activeTransactions e)(itemTrid item := None), pc := AtQueue\<rparr> in
     case itemType item of
       ItemSubmit \<Rightarrow> Inr (Some (SubmitOutcome err), e)
     | ItemSubmitCommit \<Rightarrow> Inr (Some (SubmitCommitOutcome err (-1)), e)
     | _ \<Rightarrow> Inl (LogicError ''Illegal queue item''))"

text \<open>Handing a committed transaction to every driver that is not unlinked.\<close>

fun sequence_all :: "(int \<Rightarrow> mutation list \<Rightarrow> 'd \<Rightarrow> 'd res) \<Rightarrow> int \<Rightarrow> mutation list
    \<Rightarrow> 'd driver option list \<Rightarrow> 'd driver option list res" where
  "sequence_all sq sid ms [] = Inr []"
| "sequence_all sq sid ms (None # ds) =
     res_bind (sequence_all sq sid ms ds) (\<lambda>ds. Inr (None # ds))"
| "sequence_all sq sid ms (Some d # ds) =
     res_bind (sq sid ms (dstate d)) (\<lambda>st.
     res_bind (sequence_all sq sid ms ds) (\<lambda>ds. Inr (Some (d\<lparr>dstate := st\<rparr>) # ds)))"

definition commitComplete :: "'d storage_ops \<Rightarrow> 'w view_ops \<Rightarrow> queue_item \<Rightarrow> transaction \<Rightarrow> int
    \<Rightarrow> ('d, 'w) engine \<Rightarrow> ('d, 'w) stepped" where
  "commitComplete D V item tr sid e =
     res_bind (sequence_all (opSequence D) sid (mutations tr) (storages e)) (\<lambda>sts.
     res_bind (sequence_all (vopSequence V) sid (mutations tr) (views e)) (\<lambda>vws.
     let e = e\<lparr>storages := sts, views := vws\<rparr> in
     res_bind (check (activeTransactions e (itemTrid item) \<noteq> None) AssertFailed) (\<lambda>_.
     res_bind (check (itemTrid item \<in> set (submittedTransactions e)) AssertFailed) (\<lambda>_.
     let e = e\<lparr>activeTransactions := (activeTransactions e)(itemTrid item := None),
               submittedTransactions := remove1 (itemTrid item) (submittedTransactions e), pc := AtQueue\<rparr> in
     case itemType item of
       ItemCommit \<Rightarrow> Inr (Some (CommitOutcome sid), e)
     | ItemSubmitCommit \<Rightarrow> Inr (Some (SubmitCommitOutcome SubmitSuccess sid), e)
     | _ \<Rightarrow> Inl (LogicError ''Illegal queue item'')))))"

definition submitComplete :: "'d storage_ops \<Rightarrow> 'w view_ops \<Rightarrow> queue_item \<Rightarrow> transaction \<Rightarrow> int
    \<Rightarrow> ('d, 'w) engine \<Rightarrow> ('d, 'w) stepped" where
  "submitComplete D V item tr sid e =
    (let e = e\<lparr>submittedTransactions := submittedTransactions e @ [itemTrid item]\<rparr> in
     case itemType item of
       ItemSubmit \<Rightarrow> Inr (Some (SubmitOutcome SubmitSuccess),
         (put_active (itemTrid item) (tr\<lparr>trState := StSubmitted\<rparr>) e)\<lparr>pc := AtQueue\<rparr>)
     | ItemSubmitCommit \<Rightarrow> commitComplete D V item tr sid e
     | _ \<Rightarrow> Inl (LogicError ''Illegal queue item''))"

text \<open>The log form of the mutations of a transaction.\<close>

fun log_mutations :: "'d driver option list \<Rightarrow> mutation list \<Rightarrow> log_mutation list res" where
  "log_mutations ds [] = Inr []"
| "log_mutations ds (m # ms) =
     (if mutType m = MutNone then Inl (LogicError ''Illegal mutation type'')
      else res_bind (driver_at ds (mutStorage m)) (\<lambda>drv.
        res_bind (log_mutations ds ms) (\<lambda>lms.
        Inr (\<lparr>lmType = mutType m, lmStorage = drvName drv, lmDocument = mutDocument m,
          lmBuffer = mutBuffer m\<rparr> # lms))))"

definition afterWriteAhead :: "'d storage_ops \<Rightarrow> 'w view_ops \<Rightarrow> queue_item \<Rightarrow> transaction \<Rightarrow> int
    \<Rightarrow> ('d, 'w) engine \<Rightarrow> ('d, 'w) stepped" where
  "afterWriteAhead D V item tr sid e = (case itemType item of
     ItemSubmit \<Rightarrow> submitComplete D V item tr sid e
   | ItemSubmitCommit \<Rightarrow> submitComplete D V item tr sid e
   | ItemCommit \<Rightarrow> commitComplete D V item tr sid e
   | _ \<Rightarrow> Inl (LogicError ''Illegal queue item''))"

definition make_entry :: "queue_item \<Rightarrow> transaction \<Rightarrow> ('d, 'w) engine \<Rightarrow> log_entry res" where
  "make_entry item tr e = (case itemType item of
     ItemSubmit \<Rightarrow> res_bind (log_mutations (storages e) (mutations tr)) (\<lambda>lms.
       Inr \<lparr>leType = LogSubmit, leSequence = 0, leTransaction = itemTrid item, leMutations = lms\<rparr>)
   | ItemSubmitCommit \<Rightarrow> res_bind (log_mutations (storages e) (mutations tr)) (\<lambda>lms.
       Inr \<lparr>leType = LogSubmitCommit, leSequence = currentSequenceId e, leTransaction = itemTrid item, leMutations = lms\<rparr>)
   | ItemCommit \<Rightarrow>
       Inr \<lparr>leType = LogCommit, leSequence = currentSequenceId e, leTransaction = itemTrid item, leMutations = []\<rparr>
   | _ \<Rightarrow> Inl (LogicError ''Illegal queue item''))"

definition writeAhead :: "'d storage_ops \<Rightarrow> 'w view_ops \<Rightarrow> queue_item \<Rightarrow> transaction \<Rightarrow> int
    \<Rightarrow> ('d, 'w) engine \<Rightarrow> ('d, 'w) stepped" where
  "writeAhead D V item tr sid e =
     res_bind (make_entry item tr e) (\<lambda>entry.
     afterWriteAhead D V item tr sid (e\<lparr>wal := wal e @ [entry]\<rparr>))"

text \<open>\<open>checkStateOnData\<close> does not look at the data, so the result of a check is that of the fetch.\<close>

definition checkStateOnFetch :: "queue_item \<Rightarrow> nat \<Rightarrow> constraint \<Rightarrow> fetch_result
    \<Rightarrow> ('d, 'w) engine \<Rightarrow> ('d, 'w) stepped" where
  "checkStateOnFetch item i c r e =
     (let okay = (case r of FetchData _ _ \<Rightarrow> True | DocumentNotFound \<Rightarrow> \<not> mustExist c) in
      if \<not> okay then submitFailure item ConstraintViolation e
      else Inr (None, e\<lparr>pc := AtConstraint item (Suc i)\<rparr>))"

definition submitCheckConstraint :: "'d storage_ops \<Rightarrow> 'w view_ops \<Rightarrow> queue_item \<Rightarrow> nat
    \<Rightarrow> ('d, 'w) engine \<Rightarrow> ('d, 'w) stepped" where
  "submitCheckConstraint D V item i e = (case activeTransactions e (itemTrid item) of
     None \<Rightarrow> Inl NullDeref
   | Some tr \<Rightarrow>
      if i = length (constraints tr) then
        let sid = currentSequenceId e + 1 in writeAhead D V item tr sid (e\<lparr>currentSequenceId := sid\<rparr>)
      else
        let c = constraints tr ! i in
        if conType c = ConDocumentState then
          res_bind (driver_at (storages e) (conStorage c)) (\<lambda>drv.
          res_bind (opFetch D (conDocument c) (currentSequenceId e) (dstate drv)) (\<lambda>(r, d).
          checkStateOnFetch item i c r (e\<lparr>storages := set_driver (conStorage c) d (storages e)\<rparr>)))
        else Inl (LogicError ''Illegal constraint type''))"

definition processSubmit :: "'d storage_ops \<Rightarrow> 'w view_ops \<Rightarrow> queue_item \<Rightarrow> ('d, 'w) engine \<Rightarrow> ('d, 'w) stepped" where
  "processSubmit D V item e =
     res_bind (find_active (itemTrid item) e) (\<lambda>tr.
     res_bind (find_conflict (activeTransactions e) tr (submittedTransactions e)) (\<lambda>conf.
     case conf of
       Some err \<Rightarrow> submitFailure item err e
     | None \<Rightarrow> submitCheckConstraint D V item 0 e))"

definition processCommit :: "'d storage_ops \<Rightarrow> 'w view_ops \<Rightarrow> queue_item \<Rightarrow> ('d, 'w) engine \<Rightarrow> ('d, 'w) stepped" where
  "processCommit D V item e =
     res_bind (find_active (itemTrid item) e) (\<lambda>tr.
     let sid = currentSequenceId e + 1 in
     writeAhead D V item tr sid (e\<lparr>currentSequenceId := sid\<rparr>))"

definition processRollback :: "queue_item \<Rightarrow> ('d, 'w) engine \<Rightarrow> ('d, 'w) stepped" where
  "processRollback item e = (case activeTransactions e (itemTrid item) of
     None \<Rightarrow> Inl AssertFailed
   | Some tr \<Rightarrow>
      let e = e\<lparr>activeTransactions := (activeTransactions e)(itemTrid item := None), pc := AtQueue\<rparr> in
      if trState tr = StSubmitted then
        res_bind (check (itemTrid item \<in> set (submittedTransactions e)) AssertFailed) (\<lambda>_.
        Inr (Some RollbackOutcome, e\<lparr>submittedTransactions := remove1 (itemTrid item) (submittedTransactions e)\<rparr>))
      else Inr (Some RollbackOutcome, e))"

text \<open>\<open>process\<close> takes the first item; with an empty queue the closure waits.\<close>

definition process_item :: "'d storage_ops \<Rightarrow> 'w view_ops \<Rightarrow> ('d, 'w) engine \<Rightarrow> ('d, 'w) stepped" where
  "process_item D V e = (case submitQueue e of
     [] \<Rightarrow> Inr (None, e)
   | item # rest \<Rightarrow>
      let e = e\<lparr>submitQueue := rest\<rparr> in
      case itemType item of
        ItemSubmit \<Rightarrow> processSubmit D V item e
      | ItemSubmitCommit \<Rightarrow> processSubmit D V item e
      | ItemCommit \<Rightarrow> processCommit D V item e
      | ItemRollback \<Rightarrow> processRollback item e
      | ItemNone \<Rightarrow> Inl (LogicError ''Queued item has illegal type''))"

text \<open>One step of the closure.\<close>

definition engine_step :: "'d storage_ops \<Rightarrow> 'w view_ops \<Rightarrow> ('d, 'w) engine \<Rightarrow> ('d, 'w) stepped" where
  "engine_step D V e = (case pc e of
     AtQueue \<Rightarrow> process_item D V e
   | AtConstraint item i \<Rightarrow> submitCheckConstraint D V item i e)"

section \<open>Replay of the log\<close>

text \<open>
  \<open>ReplayClosure\<close>: the pending transactions, in the order of their entries, and the state of the
  subclass. \<open>'s\<close> is what the subclass changes, the engine or a driver.
\<close>

record 's replay_hooks =
  onTransaction :: "int \<Rightarrow> transaction \<Rightarrow> 's \<Rightarrow> 's res"
  onCommit :: "transaction \<Rightarrow> int \<Rightarrow> 's \<Rightarrow> 's res"
  onSubmitted :: "int \<Rightarrow> transaction \<Rightarrow> 's \<Rightarrow> 's res"

fun replay_mutations :: "(string \<Rightarrow> int) \<Rightarrow> log_mutation list \<Rightarrow> mutation list res" where
  "replay_mutations get [] = Inr []"
| "replay_mutations get (lm # lms) = (case lmType lm of
     MutInsert \<Rightarrow> res_bind (replay_mutations get lms) (\<lambda>ms.
       Inr (\<lparr>mutType = MutInsert, mutStorage = get (lmStorage lm), mutDocument = lmDocument lm, mutBuffer = lmBuffer lm\<rparr> # ms))
   | MutModify \<Rightarrow> res_bind (replay_mutations get lms) (\<lambda>ms.
       Inr (\<lparr>mutType = MutInsert, mutStorage = get (lmStorage lm), mutDocument = lmDocument lm, mutBuffer = lmBuffer lm\<rparr> # ms))
   | MutNone \<Rightarrow> Inl (LogicError ''Illegal log mutation type''))"

definition replay_transaction :: "(string \<Rightarrow> int) \<Rightarrow> log_entry \<Rightarrow> transaction res" where
  "replay_transaction get le = res_bind (replay_mutations get (leMutations le)) (\<lambda>ms.
     Inr \<lparr>mutations = ms, constraints = [], trState = StNone\<rparr>)"

type_synonym pending = "(int \<times> transaction) list"

definition onEntry :: "'s replay_hooks \<Rightarrow> (string \<Rightarrow> int) \<Rightarrow> log_entry \<Rightarrow> pending \<times> 's \<Rightarrow> (pending \<times> 's) res" where
  "onEntry R get le = (\<lambda>(pend, s). case leType le of
     LogSubmit \<Rightarrow>
       res_bind (replay_transaction get le) (\<lambda>tr.
       res_bind (onTransaction R (leTransaction le) tr s) (\<lambda>s.
       Inr (if leTransaction le \<in> fst ` set pend then pend else pend @ [(leTransaction le, tr)], s)))
   | LogSubmitCommit \<Rightarrow>
       res_bind (replay_transaction get le) (\<lambda>tr.
       res_bind (onTransaction R (leTransaction le) tr s) (\<lambda>s.
       res_bind (onCommit R tr (leSequence le) s) (\<lambda>s.
       Inr (pend, s))))
   | LogCommit \<Rightarrow> (case map_of pend (leTransaction le) of
       None \<Rightarrow> Inl (RuntimeError ''Illegal transaction'')
     | Some tr \<Rightarrow>
         res_bind (onCommit R tr (leSequence le) s) (\<lambda>s.
         Inr (filter (\<lambda>p. fst p \<noteq> leTransaction le) pend, s)))
   | _ \<Rightarrow> Inl (LogicError ''Illegal log entry type''))"

fun replay_entries :: "'s replay_hooks \<Rightarrow> (string \<Rightarrow> int) \<Rightarrow> log_entry list \<Rightarrow> pending \<times> 's \<Rightarrow> (pending \<times> 's) res" where
  "replay_entries R get [] ps = Inr ps"
| "replay_entries R get (le # les) ps = res_bind (onEntry R get le ps) (replay_entries R get les)"

fun replay_pending :: "'s replay_hooks \<Rightarrow> pending \<Rightarrow> 's \<Rightarrow> 's res" where
  "replay_pending R [] s = Inr s"
| "replay_pending R ((i, tr) # pend) s = res_bind (onSubmitted R i tr s) (replay_pending R pend)"

text \<open>\<open>replay\<close>; \<open>it\<close> is the order in which the unordered map of the pending transactions is iterated.\<close>

definition replay :: "(pending \<Rightarrow> pending) \<Rightarrow> 's replay_hooks \<Rightarrow> (string \<Rightarrow> int) \<Rightarrow> log_entry list \<Rightarrow> 's \<Rightarrow> 's res" where
  "replay it R get les s =
     res_bind (replay_entries R get les ([], s)) (\<lambda>(pend, s). replay_pending R (it pend) s)"

definition meta_hooks :: "('d, 'w) engine replay_hooks" where
  "meta_hooks = \<lparr>
     onTransaction = (\<lambda>i tr e. Inr (if nextTransactId e < i + 1 then e\<lparr>nextTransactId := i + 1\<rparr> else e)),
     onCommit = (\<lambda>tr sid e. Inr (if currentSequenceId e < sid then e\<lparr>currentSequenceId := sid\<rparr> else e)),
     onSubmitted = (\<lambda>i tr e. Inr (e\<lparr>activeTransactions := (case activeTransactions e i of
           None \<Rightarrow> (activeTransactions e)(i \<mapsto> tr\<lparr>trState := StSubmitted\<rparr>) | Some _ \<Rightarrow> activeTransactions e),
         submittedTransactions := submittedTransactions e @ [i]\<rparr>))\<rparr>"

definition data_hooks :: "(mutation \<Rightarrow> 'd \<Rightarrow> 'd) \<Rightarrow> (int \<Rightarrow> mutation list \<Rightarrow> 'd \<Rightarrow> 'd res) \<Rightarrow> 'd replay_hooks" where
  "data_hooks ri sq = \<lparr>
     onTransaction = (\<lambda>i tr d. Inr (fold ri (mutations tr) d)),
     onCommit = (\<lambda>tr sid d. sq sid (mutations tr) d),
     onSubmitted = (\<lambda>i tr d. Inr d)\<rparr>"

text \<open>The loops of \<open>loadConfig\<close> over the drivers.\<close>

fun replay_drivers :: "('d \<Rightarrow> 'd res) \<Rightarrow> 'd driver option list \<Rightarrow> 'd driver option list res" where
  "replay_drivers f [] = Inr []"
| "replay_drivers f (None # ds) = res_bind (replay_drivers f ds) (\<lambda>ds. Inr (None # ds))"
| "replay_drivers f (Some d # ds) =
     res_bind (f (dstate d)) (\<lambda>st. res_bind (replay_drivers f ds) (\<lambda>ds. Inr (Some (d\<lparr>dstate := st\<rparr>) # ds)))"

text \<open>
  \<open>loadConfig\<close>: from the names in the configuration, the driver of each (the descriptors) and the log.
\<close>

fun setup_all :: "(string \<Rightarrow> 'd option) \<Rightarrow> (string \<times> string) list \<Rightarrow> 'd driver option list res" where
  "setup_all reg [] = Inr []"
| "setup_all reg ((name, driver) # ns) = (case reg driver of
     None \<Rightarrow> Inl (RuntimeError ''Driver not available'')
   | Some d \<Rightarrow> res_bind (setup_all reg ns) (\<lambda>ds. Inr (Some \<lparr>drvName = name, dstate = d\<rparr> # ds)))"

definition loadConfig :: "(pending \<Rightarrow> pending) \<Rightarrow> 'd storage_ops \<Rightarrow> 'w view_ops \<Rightarrow> (string \<Rightarrow> 'd option) \<Rightarrow> (string \<Rightarrow> 'w option)
    \<Rightarrow> (string \<times> string) list \<Rightarrow> (string \<times> string) list \<Rightarrow> log_entry list \<Rightarrow> ('d, 'w) engine res" where
  "loadConfig it D V sreg vreg snames vnames les =
     res_bind (setup_all sreg snames) (\<lambda>sts.
     res_bind (setup_all vreg vnames) (\<lambda>vws.
     let e = engine_new\<lparr>storages := None # sts, views := None # vws, wal := les\<rparr> in
     res_bind (replay it meta_hooks (\<lambda>n. getStorage n e) les e) (\<lambda>e.
     res_bind (replay_drivers (replay it (data_hooks (opReinspect D) (opSequence D)) (\<lambda>n. getStorage n e) les) (storages e)) (\<lambda>sts.
     res_bind (replay_drivers (replay it (data_hooks (vopReinspect V) (vopSequence V)) (\<lambda>n. getStorage n e) les) (views e)) (\<lambda>vws.
     Inr (e\<lparr>storages := sts, views := vws\<rparr>))))))"

end
