(* ===== verification/Engine_Inv.thy ===== *)
theory Engine_Inv
  imports Engine Versions
begin

text \<open>
  The invariant of the engine: where a transaction stands (its state, the queue, the list of submitted
  transactions), the compatibility of all submitted transactions, the agreement of the log with the
  submitted transactions and of the storages with the transactions the log has committed, and the
  order of the sequence ids. It is kept by every method and every step of the process closure, as
  long as only open transactions are rolled back; no step then fails.
\<close>

section \<open>Reading the log\<close>

type_synonym log_state = "(int \<times> log_mutation list) list \<times> (int \<times> log_mutation list) list"

text \<open>The pending and the committed transactions of a log, the latter with their sequence ids.\<close>

definition log_step :: "log_entry \<Rightarrow> log_state \<Rightarrow> log_state" where
  "log_step le = (\<lambda>(pend, done). case leType le of
     LogSubmit \<Rightarrow> (pend @ [(leTransaction le, leMutations le)], done)
   | LogSubmitCommit \<Rightarrow> (pend, done @ [(leSequence le, leMutations le)])
   | LogCommit \<Rightarrow> (case map_of pend (leTransaction le) of
       None \<Rightarrow> (pend, done)
     | Some lms \<Rightarrow> (filter (\<lambda>p. fst p \<noteq> leTransaction le) pend, done @ [(leSequence le, lms)]))
   | _ \<Rightarrow> (pend, done))"

definition log_state :: "log_entry list \<Rightarrow> log_state" where
  "log_state les = fold log_step les ([], [])"

definition log_pending :: "log_entry list \<Rightarrow> (int \<times> log_mutation list) list" where
  "log_pending les = fst (log_state les)"

definition log_commits :: "log_entry list \<Rightarrow> (int \<times> log_mutation list) list" where
  "log_commits les = snd (log_state les)"

definition lm_versions :: "int \<Rightarrow> log_mutation list \<Rightarrow> version list" where
  "lm_versions s lms = map (\<lambda>lm. (lmDocument lm, s, lmBuffer lm)) lms"

definition log_versions :: "log_entry list \<Rightarrow> version list" where
  "log_versions les = concat (map (\<lambda>(s, lms). lm_versions s lms) (log_commits les))"

lemma log_state_Nil [simp]: "log_pending [] = []" "log_commits [] = []" "log_versions [] = []"
  by (simp_all add: log_pending_def log_commits_def log_versions_def log_state_def)

lemma log_submit [simp]:
  assumes "leType le = LogSubmit"
  shows "log_pending (les @ [le]) = log_pending les @ [(leTransaction le, leMutations le)]"
    "log_commits (les @ [le]) = log_commits les" "log_versions (les @ [le]) = log_versions les"
  using assms by (simp_all add: log_pending_def log_commits_def log_versions_def log_state_def log_step_def split_def)

lemma log_submitCommit [simp]:
  assumes "leType le = LogSubmitCommit"
  shows "log_pending (les @ [le]) = log_pending les"
    "log_commits (les @ [le]) = log_commits les @ [(leSequence le, leMutations le)]"
    "log_versions (les @ [le]) = log_versions les @ lm_versions (leSequence le) (leMutations le)"
  using assms by (simp_all add: log_pending_def log_commits_def log_versions_def log_state_def log_step_def split_def)

lemma log_commit [simp]:
  assumes "leType le = LogCommit" "map_of (log_pending les) (leTransaction le) = Some lms"
  shows "log_pending (les @ [le]) = filter (\<lambda>p. fst p \<noteq> leTransaction le) (log_pending les)"
    "log_commits (les @ [le]) = log_commits les @ [(leSequence le, lms)]"
    "log_versions (les @ [le]) = log_versions les @ lm_versions (leSequence le) lms"
  using assms by (simp_all add: log_pending_def log_commits_def log_versions_def log_state_def log_step_def split_def)

text \<open>A log that a restart can read: every commit finds its transaction.\<close>

definition lms_ok :: "log_mutation list \<Rightarrow> bool" where
  "lms_ok lms \<longleftrightarrow> (\<forall>lm \<in> set lms. lmType lm \<noteq> MutNone)"

definition entry_ok :: "(int \<times> log_mutation list) list \<Rightarrow> log_entry \<Rightarrow> bool" where
  "entry_ok pend le \<longleftrightarrow> (case leType le of
     LogSubmit \<Rightarrow> leTransaction le \<notin> fst ` set pend \<and> lms_ok (leMutations le)
   | LogSubmitCommit \<Rightarrow> lms_ok (leMutations le)
   | LogCommit \<Rightarrow> leTransaction le \<in> fst ` set pend
   | _ \<Rightarrow> False)"

definition log_ok :: "log_entry list \<Rightarrow> bool" where
  "log_ok les \<longleftrightarrow> (\<forall>n < length les. entry_ok (log_pending (take n les)) (les ! n))"

lemma log_ok_Nil [simp]: "log_ok []"
  by (simp add: log_ok_def)

lemma log_ok_snoc [simp]: "log_ok (les @ [le]) \<longleftrightarrow> log_ok les \<and> entry_ok (log_pending les) le"
  by (auto simp: log_ok_def less_Suc_eq nth_append)

lemma map_of_SomeI: "i \<in> fst ` set ps \<Longrightarrow> \<exists>x. map_of ps i = Some x"
  by (metis map_of_eq_None_iff not_None_eq)

section \<open>Lists of drivers\<close>

text \<open>What the engine's checks depend on: the places that hold a driver.\<close>

definition occupied :: "'d driver option list \<Rightarrow> int \<Rightarrow> bool" where
  "occupied ds i \<longleftrightarrow> 0 \<le> i \<and> nat i < length ds \<and> ds ! nat i \<noteq> None"

definition same_places :: "'d driver option list \<Rightarrow> 'd driver option list \<Rightarrow> bool" where
  "same_places ds ds' \<longleftrightarrow> map (map_option drvName) ds' = map (map_option drvName) ds"

lemma occupied_driver: "occupied ds i \<longleftrightarrow> (\<exists>d. driver_at ds i = Inr d \<and> Some d \<in> set ds)"
  by (auto simp: occupied_def driver_at_def nat_less_iff split: option.splits if_splits)
    (metis linorder_not_less nat_less_iff nth_mem)

lemma same_places_refl [simp]: "same_places ds ds"
  by (simp add: same_places_def)

lemma same_places_trans: "same_places a b \<Longrightarrow> same_places b c \<Longrightarrow> same_places a c"
  by (simp add: same_places_def)

lemma same_places_nth:
  assumes "same_places ds ds'"
  shows "length ds' = length ds \<and> (\<forall>n < length ds. map_option drvName (ds' ! n) = map_option drvName (ds ! n))"
  using assms by (auto simp: same_places_def list_eq_iff_nth_eq)

lemma occupied_same: "same_places ds ds' \<Longrightarrow> occupied ds' i = occupied ds i"
  using same_places_nth[of ds ds'] by (metis occupied_def option.map_disc_iff)

lemma same_places_set_driver: "same_places ds (set_driver i d ds)"
proof (cases "nat i < length ds")
  case True
  then have "map_option drvName (map_option (\<lambda>x. x\<lparr>dstate := d\<rparr>) (ds ! nat i)) = map (map_option drvName) ds ! nat i"
    by (cases "ds ! nat i") auto
  then show ?thesis by (simp add: same_places_def set_driver_def map_update)
qed (simp add: same_places_def set_driver_def not_less list_update_beyond)

lemma set_set_driver:
  assumes "Some x \<in> set (set_driver i d ds)"
  shows "Some x \<in> set ds \<or> dstate x = d"
proof -
  have "set (set_driver i d ds) \<subseteq> insert (map_option (\<lambda>x. x\<lparr>dstate := d\<rparr>) (ds ! nat i)) (set ds)"
    unfolding set_driver_def by (rule set_update_subset_insert)
  then show ?thesis using assms by (cases "ds ! nat i") auto
qed

lemma sequence_all_ok:
  assumes "\<And>d. Some d \<in> set ds \<Longrightarrow> \<exists>st. sq s ms (dstate d) = Inr st \<and> P st"
  shows "\<exists>ds'. sequence_all sq s ms ds = Inr ds' \<and> same_places ds ds' \<and> (\<forall>d. Some d \<in> set ds' \<longrightarrow> P (dstate d))"
  using assms
proof (induction ds)
  case (Cons x ds)
  then obtain ds' where ds': "sequence_all sq s ms ds = Inr ds'" "same_places ds ds'"
    "\<forall>d. Some d \<in> set ds' \<longrightarrow> P (dstate d)" by auto
  show ?case
  proof (cases x)
    case (Some d)
    then obtain st where "sq s ms (dstate d) = Inr st" "P st" using Cons.prems[of d] by auto
    then show ?thesis using ds' Some by (auto simp: same_places_def)
  qed (use ds' in \<open>auto simp: same_places_def\<close>)
qed (simp add: same_places_def)

section \<open>The parts of the invariant\<close>

abbreviation "item_ids its \<equiv> itemTrid ` set its"

text \<open>Where a transaction of each state and a queued item of each type stand.\<close>

definition tr_place :: "queue_item list \<Rightarrow> int list \<Rightarrow> int \<Rightarrow> transaction \<Rightarrow> bool" where
  "tr_place its sub i tr \<longleftrightarrow> (case trState tr of
     StOpen \<Rightarrow> i \<notin> set sub \<and> i \<notin> item_ids its
   | StInSubmit \<Rightarrow> i \<notin> set sub \<and> i \<in> item_ids its
   | StSubmitted \<Rightarrow> i \<in> set sub \<and> i \<notin> item_ids its
   | StInCommitOrRollback \<Rightarrow> i \<in> item_ids its
   | StNone \<Rightarrow> False)"

definition item_place :: "int list \<Rightarrow> queue_item \<Rightarrow> transaction \<Rightarrow> bool" where
  "item_place sub it tr \<longleftrightarrow> (case itemType it of
     ItemSubmit \<Rightarrow> trState tr = StInSubmit
   | ItemSubmitCommit \<Rightarrow> trState tr = StInSubmit
   | ItemCommit \<Rightarrow> trState tr = StInCommitOrRollback \<and> itemTrid it \<in> set sub
   | ItemRollback \<Rightarrow> trState tr = StInCommitOrRollback \<and> itemTrid it \<notin> set sub
   | ItemNone \<Rightarrow> False)"

definition places :: "queue_item list \<Rightarrow> (int \<rightharpoonup> transaction) \<Rightarrow> int list \<Rightarrow> bool" where
  "places its act sub \<longleftrightarrow> distinct (map itemTrid its) \<and> distinct sub
     \<and> (\<forall>i tr. act i = Some tr \<longrightarrow> tr_place its sub i tr)
     \<and> (\<forall>it \<in> set its. \<exists>tr. act (itemTrid it) = Some tr \<and> item_place sub it tr)
     \<and> (\<forall>i \<in> set sub. \<exists>tr. act i = Some tr)"

definition tr_ok :: "'d driver option list \<Rightarrow> transaction \<Rightarrow> bool" where
  "tr_ok ds tr \<longleftrightarrow> (\<forall>m \<in> set (mutations tr). mutType m \<noteq> MutNone \<and> (trState tr \<in> {StOpen, StInSubmit} \<longrightarrow> occupied ds (mutStorage m)))
     \<and> (\<forall>c \<in> set (constraints tr). conType c = ConDocumentState \<and> occupied ds (conStorage c))"

definition acts_ok :: "int \<Rightarrow> 'd driver option list \<Rightarrow> (int \<rightharpoonup> transaction) \<Rightarrow> bool" where
  "acts_ok next ds act \<longleftrightarrow> (\<forall>i tr. act i = Some tr \<longrightarrow> i < next \<and> tr_ok ds tr)"

text \<open>The log holds exactly the submitted transactions as pending, with what they write.\<close>

definition writes :: "log_mutation list \<Rightarrow> mutation list \<Rightarrow> bool" where
  "writes lms ms \<longleftrightarrow> map (\<lambda>lm. (lmDocument lm, lmBuffer lm)) lms = map (\<lambda>m. (mutDocument m, mutBuffer m)) ms"

definition pending_ok :: "(int \<rightharpoonup> transaction) \<Rightarrow> int list \<Rightarrow> log_entry list \<Rightarrow> bool" where
  "pending_ok act sub les \<longleftrightarrow> distinct (map fst (log_pending les)) \<and> fst ` set (log_pending les) = set sub
     \<and> (\<forall>(i, lms) \<in> set (log_pending les). \<exists>tr. act i = Some tr \<and> writes lms (mutations tr))"

definition all_compatible :: "(int \<rightharpoonup> transaction) \<Rightarrow> int list \<Rightarrow> bool" where
  "all_compatible act sub \<longleftrightarrow> (\<forall>i \<in> set sub. \<forall>j \<in> set sub. \<forall>a b. i \<noteq> j \<longrightarrow> act i = Some a \<longrightarrow> act j = Some b
     \<longrightarrow> conflict_with a b = None)"

definition log_good :: "int \<Rightarrow> int \<Rightarrow> log_entry list \<Rightarrow> bool" where
  "log_good next cur les \<longleftrightarrow> log_ok les \<and> (\<forall>le \<in> set les. leTransaction le < next)
     \<and> sorted_wrt (<) (map fst (log_commits les)) \<and> (\<forall>p \<in> set (log_commits les). 0 < fst p \<and> fst p \<le> cur) \<and> 0 \<le> cur"

text \<open>The item whose constraints are being checked.\<close>

definition in_check :: "queue_item \<Rightarrow> nat \<Rightarrow> (int \<rightharpoonup> transaction) \<Rightarrow> int list \<Rightarrow> int \<Rightarrow> log_entry list \<Rightarrow> bool" where
  "in_check item i act sub cur les \<longleftrightarrow> itemType item \<in> {ItemSubmit, ItemSubmitCommit}
     \<and> (\<exists>tr. act (itemTrid item) = Some tr \<and> i \<le> length (constraints tr)
       \<and> (\<forall>j \<in> set sub. \<forall>b. act j = Some b \<longrightarrow> conflict_with b tr = None)
       \<and> (\<forall>k < i. mustExist (constraints tr ! k)
           \<longrightarrow> visible (conDocument (constraints tr ! k)) cur (log_versions les) \<noteq> DocumentNotFound))"

definition closure_items :: "closure \<Rightarrow> queue_item list" where
  "closure_items p = (case p of AtQueue \<Rightarrow> [] | AtConstraint item i \<Rightarrow> [item])"

definition todo :: "('d, 'w) engine \<Rightarrow> queue_item list" where
  "todo e = closure_items (pc e) @ submitQueue e"

text \<open>The contents of the drivers; \<open>rel\<close> and \<open>vrel\<close> say that a driver holds given versions.\<close>

definition stores :: "(version list \<Rightarrow> 'd \<Rightarrow> bool) \<Rightarrow> 'd driver option list \<Rightarrow> log_entry list \<Rightarrow> bool" where
  "stores rel ds les \<longleftrightarrow> (\<forall>d. Some d \<in> set ds \<longrightarrow> rel (log_versions les) (dstate d))"

definition einv_at :: "(version list \<Rightarrow> 'd \<Rightarrow> bool) \<Rightarrow> (version list \<Rightarrow> 'w \<Rightarrow> bool) \<Rightarrow> queue_item list
    \<Rightarrow> ('d, 'w) engine \<Rightarrow> bool" where
  "einv_at rel vrel its e \<longleftrightarrow>
     acts_ok (nextTransactId e) (storages e) (activeTransactions e)
   \<and> places its (activeTransactions e) (submittedTransactions e)
   \<and> pending_ok (activeTransactions e) (submittedTransactions e) (wal e)
   \<and> all_compatible (activeTransactions e) (submittedTransactions e)
   \<and> log_good (nextTransactId e) (currentSequenceId e) (wal e)
   \<and> stores rel (storages e) (wal e) \<and> stores vrel (views e) (wal e)"

definition einv :: "(version list \<Rightarrow> 'd \<Rightarrow> bool) \<Rightarrow> (version list \<Rightarrow> 'w \<Rightarrow> bool) \<Rightarrow> ('d, 'w) engine \<Rightarrow> bool" where
  "einv rel vrel e \<longleftrightarrow> einv_at rel vrel (todo e) e
   \<and> (case pc e of AtQueue \<Rightarrow> True
      | AtConstraint item i \<Rightarrow> in_check item i (activeTransactions e) (submittedTransactions e) (currentSequenceId e) (wal e))"

section \<open>Updates that keep the parts\<close>

lemma conflict_with_None:
  "conflict_with a b = None \<longleftrightarrow> (\<forall>m \<in> set (mutations a). \<forall>c \<in> set (constraints b). compatible m c)
     \<and> (\<forall>c \<in> set (constraints a). \<forall>m \<in> set (mutations b). compatible m c)"
  by (auto simp: conflict_with_def)

lemma conflict_with_sym: "conflict_with a b = None \<longleftrightarrow> conflict_with b a = None"
  by (auto simp: conflict_with_None)

lemma conflict_with_state [simp]:
  "conflict_with (a\<lparr>trState := s\<rparr>) b = conflict_with a b"
  "conflict_with a (b\<lparr>trState := s\<rparr>) = conflict_with a b"
  by (simp_all add: conflict_with_def)

lemma places_iff:
  "places its act sub \<longleftrightarrow> distinct (map itemTrid its) \<and> distinct sub
     \<and> (\<forall>i tr. act i = Some tr \<longrightarrow> tr_place its sub i tr)
     \<and> (\<forall>it \<in> set its. \<exists>tr. act (itemTrid it) = Some tr \<and> item_place sub it tr)
     \<and> (\<forall>i \<in> set sub. \<exists>tr. act i = Some tr)"
  by (simp add: places_def)

lemma places_open:
  assumes "places its act sub" "act i = None \<or> (\<exists>t. act i = Some t \<and> trState t = StOpen)" "trState tr = StOpen"
  shows "places its (act(i \<mapsto> tr)) sub"
proof -
  have n: "i \<notin> set sub" "i \<notin> item_ids its"
    using assms(1,2) unfolding places_def tr_place_def by (auto split: tr_state.splits)
  show ?thesis using assms(1,3) n unfolding places_def
    by (auto simp: tr_place_def)
qed

lemma places_enqueue:
  assumes "places its act sub" "act i = Some tr" "i \<notin> item_ids its" "item_place sub it (tr\<lparr>trState := s\<rparr>)" "itemTrid it = i"
    "s = StInSubmit \<and> i \<notin> set sub \<or> s = StInCommitOrRollback"
  shows "places (its @ [it]) (act(i \<mapsto> tr\<lparr>trState := s\<rparr>)) sub"
  unfolding places_iff
proof (intro conjI allI impI ballI)
  show "tr_place (its @ [it]) sub j t" if "(act(i \<mapsto> tr\<lparr>trState := s\<rparr>)) j = Some t" for j t
  proof (cases "j = i")
    case False
    then have "tr_place its sub j t" using that assms(1) by (auto simp: places_def)
    then show ?thesis using False assms(5) by (auto simp: tr_place_def split: tr_state.splits)
  qed (use that assms in \<open>auto simp: tr_place_def\<close>)
  show "\<exists>t. (act(i \<mapsto> tr\<lparr>trState := s\<rparr>)) (itemTrid j) = Some t \<and> item_place sub j t" if "j \<in> set (its @ [it])" for j
  proof (cases "j \<in> set its")
    case True
    then have "itemTrid j \<noteq> i" using assms(3) by auto
    then show ?thesis using True assms(1) by (simp add: places_def)
  qed (use that assms in auto)
qed (use assms in \<open>auto simp: places_def\<close>)

lemma acts_ok_put:
  assumes "acts_ok n ds act" "i < n" "tr_ok ds tr"
  shows "acts_ok n ds (act(i \<mapsto> tr))"
  using assms by (simp add: acts_ok_def)

lemma acts_ok_remove: "acts_ok n ds act \<Longrightarrow> acts_ok n ds (act(i := None))"
  by (simp add: acts_ok_def)

lemma acts_ok_same:
  assumes "acts_ok n ds act" "same_places ds ds'"
  shows "acts_ok n ds' act"
  using assms occupied_same[OF assms(2)] by (simp add: acts_ok_def tr_ok_def)

lemma pending_ok_put:
  assumes "pending_ok act sub les" "i \<notin> set sub \<or> (\<exists>t. act i = Some t \<and> mutations tr = mutations t)"
  shows "pending_ok (act(i \<mapsto> tr)) sub les"
proof -
  have "\<exists>t. (act(i \<mapsto> tr)) j = Some t \<and> writes lms (mutations t)" if p: "(j, lms) \<in> set (log_pending les)" for j lms
  proof -
    have "j \<in> set sub" using p assms(1) by (force simp: pending_ok_def)
    moreover obtain t where "act j = Some t" "writes lms (mutations t)" using p assms(1) by (auto simp: pending_ok_def)
    ultimately show ?thesis using assms(2) by (cases "j = i") auto
  qed
  then show ?thesis using assms(1) by (auto simp: pending_ok_def)
qed

lemma pending_ok_remove:
  assumes "pending_ok act sub les" "i \<notin> set sub"
  shows "pending_ok (act(i := None)) sub les"
proof -
  have "j \<noteq> i" if "(j, lms) \<in> set (log_pending les)" for j lms
    using that assms by (force simp: pending_ok_def)
  then show ?thesis using assms(1) by (fastforce simp: pending_ok_def)
qed

lemma all_compatible_put:
  assumes "all_compatible act sub" "i \<notin> set sub \<or> (\<exists>t. act i = Some t \<and> mutations tr = mutations t \<and> constraints tr = constraints t)"
  shows "all_compatible (act(i \<mapsto> tr)) sub"
  using assms unfolding all_compatible_def conflict_with_None by (auto split: if_splits)

lemma all_compatible_remove: "all_compatible act sub \<Longrightarrow> all_compatible (act(i := None)) sub"
  by (auto simp: all_compatible_def)

lemma in_check_put:
  assumes "in_check item k act sub cur les" "itemTrid item \<noteq> i"
    "i \<notin> set sub \<or> (\<exists>t. act i = Some t \<and> mutations tr = mutations t \<and> constraints tr = constraints t)"
  shows "in_check item k (act(i \<mapsto> tr)) sub cur les"
proof -
  obtain t where t: "act (itemTrid item) = Some t" "k \<le> length (constraints t)"
    "\<forall>j \<in> set sub. \<forall>b. act j = Some b \<longrightarrow> conflict_with b t = None"
    "\<forall>n < k. mustExist (constraints t ! n)
           \<longrightarrow> visible (conDocument (constraints t ! n)) cur (log_versions les) \<noteq> DocumentNotFound"
    "itemType item \<in> {ItemSubmit, ItemSubmitCommit}"
    using assms(1) by (auto simp: in_check_def)
  then have "\<forall>j \<in> set sub. \<forall>b. (act(i \<mapsto> tr)) j = Some b \<longrightarrow> conflict_with b t = None"
    using assms(3) unfolding conflict_with_None by auto
  then show ?thesis using t assms(2) by (auto simp: in_check_def)
qed

lemma log_good_mono: "log_good n c les \<Longrightarrow> n \<le> n' \<Longrightarrow> log_good n' c les"
  by (fastforce simp: log_good_def)

lemma places_at: "places its act sub \<Longrightarrow> act i = Some t \<Longrightarrow> tr_place its sub i t"
  by (simp add: places_def)

lemma places_none: "places its act sub \<Longrightarrow> act i = None \<Longrightarrow> i \<notin> set sub \<and> i \<notin> item_ids its"
  unfolding places_def by fastforce

lemma places_fresh:
  assumes "places its act sub" "act i = None \<or> (\<exists>t. act i = Some t \<and> trState t = StOpen)"
  shows "i \<notin> set sub \<and> i \<notin> item_ids its"
  using assms places_none[OF assms(1)] places_at[OF assms(1), of i] by (auto simp: tr_place_def)

section \<open>Completed items\<close>

lemma places_item: "places its act sub \<Longrightarrow> it \<in> set its \<Longrightarrow> \<exists>t. act (itemTrid it) = Some t \<and> item_place sub it t"
  by (simp add: places_def)

lemma places_finish:
  assumes "places (it # rest) act sub"
  shows "places rest (act(itemTrid it := None)) (remove1 (itemTrid it) sub)"
  unfolding places_iff
proof (intro conjI allI impI ballI)
  have d: "distinct sub" "itemTrid it \<notin> item_ids rest" using assms by (auto simp: places_def)
  then have s: "set (remove1 (itemTrid it) sub) = set sub - {itemTrid it}" by simp
  show "tr_place rest (remove1 (itemTrid it) sub) j t" if "(act(itemTrid it := None)) j = Some t" for j t
  proof -
    from that have "j \<noteq> itemTrid it" "act j = Some t" by (auto split: if_splits)
    then show ?thesis using places_at[OF assms, of j t] s by (auto simp: tr_place_def split: tr_state.splits)
  qed
  show "\<exists>t. (act(itemTrid it := None)) (itemTrid j) = Some t \<and> item_place (remove1 (itemTrid it) sub) j t" if j: "j \<in> set rest" for j
  proof -
    have n: "itemTrid j \<noteq> itemTrid it" using that d by (metis imageI)
    obtain t where "act (itemTrid j) = Some t" "item_place sub j t" using j places_item[OF assms(1), of j] by auto
    then show ?thesis using n s by (auto simp: item_place_def split: item_type.splits)
  qed
qed (use assms in \<open>auto simp: places_def\<close>)

lemma places_submitted:
  assumes "places (it # rest) act sub" "act (itemTrid it) = Some tr" "itemTrid it \<notin> set sub"
  shows "places rest (act(itemTrid it \<mapsto> tr\<lparr>trState := StSubmitted\<rparr>)) (sub @ [itemTrid it])"
  unfolding places_iff
proof (intro conjI allI impI ballI)
  have d: "distinct sub" "itemTrid it \<notin> item_ids rest" using assms by (auto simp: places_def)
  show "tr_place rest (sub @ [itemTrid it]) j t" if "(act(itemTrid it \<mapsto> tr\<lparr>trState := StSubmitted\<rparr>)) j = Some t" for j t
  proof (cases "j = itemTrid it")
    case False
    then have "act j = Some t" using that by simp
    then show ?thesis using False places_at[OF assms(1), of j t] by (auto simp: tr_place_def split: tr_state.splits)
  qed (use that d in \<open>auto simp: tr_place_def\<close>)
  show "\<exists>t. (act(itemTrid it \<mapsto> tr\<lparr>trState := StSubmitted\<rparr>)) (itemTrid j) = Some t \<and> item_place (sub @ [itemTrid it]) j t"
    if j: "j \<in> set rest" for j
  proof -
    have n: "itemTrid j \<noteq> itemTrid it" using that d by (metis imageI)
    obtain t where "act (itemTrid j) = Some t" "item_place sub j t" using j places_item[OF assms(1), of j] by auto
    then show ?thesis using n by (auto simp: item_place_def split: item_type.splits)
  qed
qed (use assms in \<open>auto simp: places_def\<close>)

lemma log_mutations_ok:
  assumes "\<And>m. m \<in> set ms \<Longrightarrow> mutType m \<noteq> MutNone \<and> occupied ds (mutStorage m)"
  shows "\<exists>lms. log_mutations ds ms = Inr lms \<and> writes lms ms \<and> lms_ok lms"
  using assms
proof (induction ms)
  case (Cons m ms)
  then obtain lms where "log_mutations ds ms = Inr lms" "writes lms ms" "lms_ok lms" by auto
  moreover obtain d where "driver_at ds (mutStorage m) = Inr d" using Cons.prems[of m] by (auto simp: occupied_driver)
  ultimately show ?case using Cons.prems[of m] by (simp add: writes_def lms_ok_def)
qed (simp add: writes_def lms_ok_def)

lemma writes_versions: "writes lms ms \<Longrightarrow> lm_versions s lms = versions_in s ms"
  unfolding writes_def lm_versions_def versions_in_def version_of_def
  by (induction lms arbitrary: ms) (auto simp: map_eq_Cons_conv Cons_eq_map_conv)

definition tr_bytes :: "transaction \<Rightarrow> nat" where
  "tr_bytes tr = sum_list (map (length \<circ> mutBuffer) (mutations tr))"

lemma bytes_of_versions_in: "bytes_of (versions_in s (mutations tr)) = tr_bytes tr"
proof -
  have "bytes_of (versions_in s ms) = sum_list (map (length \<circ> mutBuffer) ms)" for ms
    by (induction ms) (auto simp: version_of_def)
  then show ?thesis by (simp add: tr_bytes_def)
qed

lemma find_conflict_ok:
  assumes "\<And>i. i \<in> set is \<Longrightarrow> \<exists>b. act i = Some b"
  shows "\<exists>r. find_conflict act tr is = Inr r \<and>
    (r = None \<longleftrightarrow> (\<forall>i \<in> set is. \<forall>b. act i = Some b \<longrightarrow> conflict_with b tr = None))
    \<and> r \<noteq> Some SubmitSuccess"
  using assms
proof (induction "is")
  case (Cons i js)
  then obtain r b where "find_conflict act tr js = Inr r" "act i = Some b"
    "r = None \<longleftrightarrow> (\<forall>i \<in> set js. \<forall>b. act i = Some b \<longrightarrow> conflict_with b tr = None)" "r \<noteq> Some SubmitSuccess" by force
  then show ?case by (auto simp: conflict_with_def split: option.splits)
qed simp

section \<open>What a step of the process closure does\<close>

text \<open>A transaction is admitted when it conflicts with no submitted one and its constraints hold.\<close>

definition admitted :: "('d, 'w) engine \<Rightarrow> transaction \<Rightarrow> bool" where
  "admitted e tr \<longleftrightarrow> (\<forall>j \<in> set (submittedTransactions e). \<forall>b. activeTransactions e j = Some b \<longrightarrow> conflict_with b tr = None)
     \<and> (\<forall>c \<in> set (constraints tr). mustExist c
         \<longrightarrow> visible (conDocument c) (currentSequenceId e) (log_versions (wal e)) \<noteq> DocumentNotFound)"

definition unchanged :: "('d, 'w) engine \<Rightarrow> ('d, 'w) engine \<Rightarrow> bool" where
  "unchanged e e' \<longleftrightarrow> submittedTransactions e' = submittedTransactions e \<and> wal e' = wal e
     \<and> currentSequenceId e' = currentSequenceId e"

definition rejected :: "int \<Rightarrow> transaction \<Rightarrow> ('d, 'w) engine \<Rightarrow> ('d, 'w) engine \<Rightarrow> bool" where
  "rejected i tr e e' \<longleftrightarrow> \<not> admitted e tr \<and> unchanged e e' \<and> activeTransactions e' = (activeTransactions e)(i := None)"

definition committed :: "int \<Rightarrow> transaction \<Rightarrow> int \<Rightarrow> ('d, 'w) engine \<Rightarrow> ('d, 'w) engine \<Rightarrow> bool" where
  "committed i tr s e e' \<longleftrightarrow> s = currentSequenceId e + 1 \<and> currentSequenceId e' = s
     \<and> activeTransactions e' = (activeTransactions e)(i := None)
     \<and> submittedTransactions e' = remove1 i (submittedTransactions e)
     \<and> log_versions (wal e') = log_versions (wal e) @ versions_in s (mutations tr)"

definition made_pending :: "int \<Rightarrow> transaction \<Rightarrow> ('d, 'w) engine \<Rightarrow> ('d, 'w) engine \<Rightarrow> bool" where
  "made_pending i tr e e' \<longleftrightarrow> activeTransactions e' = (activeTransactions e)(i \<mapsto> tr\<lparr>trState := StSubmitted\<rparr>)
     \<and> submittedTransactions e' = submittedTransactions e @ [i] \<and> log_versions (wal e') = log_versions (wal e)"

definition item_spec :: "queue_item \<Rightarrow> queue_item list \<Rightarrow> ('d, 'w) engine \<Rightarrow> outcome option \<Rightarrow> ('d, 'w) engine \<Rightarrow> bool" where
  "item_spec item rest e out e' \<longleftrightarrow> (case activeTransactions e (itemTrid item) of
     None \<Rightarrow> False
   | Some tr \<Rightarrow> (case out of
       None \<Rightarrow> itemType item \<in> {ItemSubmit, ItemSubmitCommit} \<and> todo e' = item # rest \<and> unchanged e e'
         \<and> activeTransactions e' = activeTransactions e
     | Some (SubmitOutcome err) \<Rightarrow> itemType item = ItemSubmit \<and> todo e' = rest
         \<and> (if err = SubmitSuccess then admitted e tr \<and> made_pending (itemTrid item) tr e e' else rejected (itemTrid item) tr e e')
     | Some (SubmitCommitOutcome err s) \<Rightarrow> itemType item = ItemSubmitCommit \<and> todo e' = rest
         \<and> (if err = SubmitSuccess then admitted e tr \<and> committed (itemTrid item) tr s e e'
            else s = -1 \<and> rejected (itemTrid item) tr e e')
     | Some (CommitOutcome s) \<Rightarrow> itemType item = ItemCommit \<and> todo e' = rest
         \<and> itemTrid item \<in> set (submittedTransactions e) \<and> committed (itemTrid item) tr s e e'
     | Some RollbackOutcome \<Rightarrow> itemType item = ItemRollback \<and> todo e' = rest \<and> unchanged e e'
         \<and> activeTransactions e' = (activeTransactions e)(itemTrid item := None)))"

definition step_spec :: "('d, 'w) engine \<Rightarrow> outcome option \<Rightarrow> ('d, 'w) engine \<Rightarrow> bool" where
  "step_spec e out e' \<longleftrightarrow> (case todo e of [] \<Rightarrow> out = None \<and> e' = e | item # rest \<Rightarrow> item_spec item rest e out e')"

text \<open>The bound of the 64-bit offsets of the storages.\<close>

definition room :: "('d, 'w) engine \<Rightarrow> bool" where
  "room e \<longleftrightarrow> (\<forall>it \<in> set (todo e). case activeTransactions e (itemTrid it) of
     None \<Rightarrow> True | Some tr \<Rightarrow> bytes_of (log_versions (wal e)) + tr_bytes tr < 2 ^ 64)"

lemma update_queue:
  "activeTransactions (e\<lparr>submitQueue := q\<rparr>) = activeTransactions e"
  "submittedTransactions (e\<lparr>submitQueue := q\<rparr>) = submittedTransactions e"
  "admitted (e\<lparr>submitQueue := q\<rparr>) tr = admitted e tr" "unchanged (e\<lparr>submitQueue := q\<rparr>) e' = unchanged e e'"
  "rejected i tr (e\<lparr>submitQueue := q\<rparr>) e' = rejected i tr e e'"
  "committed i tr s (e\<lparr>submitQueue := q\<rparr>) e' = committed i tr s e e'"
  "made_pending i tr (e\<lparr>submitQueue := q\<rparr>) e' = made_pending i tr e e'"
  by (simp_all add: unchanged_def rejected_def committed_def made_pending_def admitted_def)

lemma item_spec_queue [simp]: "item_spec item rest (e\<lparr>submitQueue := q\<rparr>) out e' = item_spec item rest e out e'"
  unfolding item_spec_def update_queue by (rule refl)

lemma pending_ok_submit:
  assumes "pending_ok act sub les" "leType le = LogSubmit" "leTransaction le = i" "writes (leMutations le) (mutations tr)"
    "i \<notin> set sub"
  shows "pending_ok (act(i \<mapsto> tr)) (sub @ [i]) (les @ [le])"
  using assms pending_ok_put[OF assms(1), of i tr] by (auto simp: pending_ok_def)

lemma pending_ok_finish:
  assumes p: "pending_ok act sub les" "distinct sub" and "log_pending les' = filter (\<lambda>p. fst p \<noteq> i) (log_pending les)"
  shows "pending_ok (act(i := None)) (remove1 i sub) les'"
proof -
  have "distinct (map fst (log_pending les'))" using p(1) assms(3) by (simp add: pending_ok_def distinct_map_filter)
  moreover have "fst ` set (log_pending les') = set (remove1 i sub)"
    using assms by (auto simp: pending_ok_def)
  ultimately show ?thesis using assms by (auto simp: pending_ok_def)
qed

lemma all_compatible_finish:
  assumes "all_compatible act sub"
  shows "all_compatible (act(i := None)) (remove1 i sub)"
  unfolding all_compatible_def
proof (intro ballI allI impI)
  fix j k a b assume "j \<in> set (remove1 i sub)" "k \<in> set (remove1 i sub)" "j \<noteq> k"
    and "(act(i := None)) j = Some a" "(act(i := None)) k = Some b"
  then have "j \<in> set sub" "k \<in> set sub" "act j = Some a" "act k = Some b"
    using set_remove1_subset[of i sub] by (auto split: if_splits)
  then show "conflict_with a b = None" using assms \<open>j \<noteq> k\<close> by (auto simp: all_compatible_def)
qed

lemma all_compatible_submit:
  assumes "all_compatible act sub" "act i = Some tr" "i \<notin> set sub"
    "\<And>j b. j \<in> set sub \<Longrightarrow> act j = Some b \<Longrightarrow> conflict_with b tr = None"
  shows "all_compatible (act(i \<mapsto> tr\<lparr>trState := s\<rparr>)) (sub @ [i])"
  unfolding all_compatible_def
proof (intro ballI allI impI)
  let ?act = "act(i \<mapsto> tr\<lparr>trState := s\<rparr>)"
  fix j k a b assume s: "j \<in> set (sub @ [i])" "k \<in> set (sub @ [i])" "j \<noteq> k" "?act j = Some a" "?act k = Some b"
  consider "j = i" "k \<in> set sub" "k \<noteq> i" | "k = i" "j \<in> set sub" "j \<noteq> i" | "j \<in> set sub" "k \<in> set sub" "j \<noteq> i" "k \<noteq> i"
    using s assms(3) by auto
  then show "conflict_with a b = None"
  proof cases
    case 1
    then show ?thesis using s assms(4)[of k b] conflict_with_sym[of tr b] by auto
  next
    case 2
    then show ?thesis using s assms(4)[of j a] by auto
  next
    case 3
    then show ?thesis using s assms(1) by (auto simp: all_compatible_def)
  qed
qed

lemma log_good_snoc:
  assumes "log_good n c les" "entry_ok (log_pending les) le" "leTransaction le < n"
    and "log_commits (les @ [le]) = log_commits les \<or> (\<exists>lms. log_commits (les @ [le]) = log_commits les @ [(c + 1, lms)])"
  shows "log_good n (c + 1) (les @ [le])"
proof -
  have "\<forall>p \<in> set (log_commits les). 0 < fst p \<and> fst p \<le> c" "0 \<le> c" using assms(1) by (auto simp: log_good_def)
  then have "\<forall>p \<in> set (log_commits les). 0 < fst p \<and> fst p < c + 1" by auto
  then show ?thesis using assms unfolding log_good_def
    by (elim conjE disjE exE) (auto simp: sorted_wrt_append less_imp_le)
qed

lemma log_good_commit:
  assumes "log_good n c les" "map_of (log_pending les) i = Some lms" "i < n"
  shows "log_good n (c + 1) (les @ [\<lparr>leType = LogCommit, leSequence = c + 1, leTransaction = i, leMutations = []\<rparr>])"
  using assms(2,3) by (intro log_good_snoc[OF assms(1)]) (force simp: entry_ok_def dest: map_of_SomeD)+

lemma log_good_submit:
  assumes "log_good n c les" "i \<notin> fst ` set (log_pending les)" "lms_ok lms" "i < n"
  shows "log_good n (c + 1) (les @ [\<lparr>leType = LogSubmit, leSequence = 0, leTransaction = i, leMutations = lms\<rparr>])"
  using assms(2-4) by (intro log_good_snoc[OF assms(1)]) (simp_all add: entry_ok_def)

lemma log_good_submitCommit:
  assumes "log_good n c les" "lms_ok lms" "i < n"
  shows "log_good n (c + 1) (les @ [\<lparr>leType = LogSubmitCommit, leSequence = c + 1, leTransaction = i, leMutations = lms\<rparr>])"
  using assms(2,3) by (intro log_good_snoc[OF assms(1)]) (simp_all add: entry_ok_def)

end
