(* ===== verification/Engine_Step.thy ===== *)
theory Engine_Step
  imports Engine_Inv
begin

text \<open>
  The contracts the engine needs of its drivers, as locales, and the preservation of the invariant by
  every method of the engine and by every step of its process closure under these contracts. Each
  step is shown to succeed.
\<close>

section \<open>The contracts of the drivers\<close>

text \<open>
  What the driver holds is a history of versions. \<open>ri\<close> and \<open>sq\<close> are the methods \<open>reinspect\<close> and
  \<open>sequence\<close>; the bound is that of 64-bit offsets.
\<close>

locale sequenced =
  fixes ri :: "mutation \<Rightarrow> 'd \<Rightarrow> 'd"
    and sq :: "int \<Rightarrow> mutation list \<Rightarrow> 'd \<Rightarrow> 'd res"
    and rel :: "version list \<Rightarrow> 'd \<Rightarrow> bool"
  assumes reinspect_law: "rel vs d \<Longrightarrow> rel vs (ri m d)"
    and sequence_law: "rel vs d \<Longrightarrow> (\<And>m. m \<in> set ms \<Longrightarrow> mutType m \<noteq> MutNone)
      \<Longrightarrow> bytes_of (vs @ versions_in s ms) < 2 ^ 64 \<Longrightarrow> \<exists>d'. sq s ms d = Inr d' \<and> rel (vs @ versions_in s ms) d'"
begin

lemma stores_sequence:
  assumes "stores rel ds les" "\<And>m. m \<in> set ms \<Longrightarrow> mutType m \<noteq> MutNone"
    "log_versions les' = log_versions les @ versions_in s ms" "bytes_of (log_versions les') < 2 ^ 64"
  shows "\<exists>ds'. sequence_all sq s ms ds = Inr ds' \<and> same_places ds ds' \<and> stores rel ds' les'"
proof -
  have "\<exists>st. sq s ms (dstate d) = Inr st \<and> rel (log_versions les') st" if "Some d \<in> set ds" for d
    using sequence_law[of "log_versions les" "dstate d" ms s] that assms by (auto simp: stores_def)
  from sequence_all_ok[of ds sq s ms "rel (log_versions les')", OF this] show ?thesis by (auto simp: stores_def)
qed

end

locale storage_contract = sequenced "opReinspect D" "opSequence D" rel
  for D :: "'d storage_ops" and rel +
  assumes alloc_law: "rel vs d \<Longrightarrow> opAllocate D d = (doc, d') \<Longrightarrow> rel vs d'"
    and fetch_law: "rel vs d \<Longrightarrow> \<exists>d'. opFetch D doc s d = Inr (visible doc s vs, d') \<and> rel vs d'"
begin

lemma stores_set_driver:
  assumes "stores rel ds les" "rel (log_versions les) d"
  shows "stores rel (set_driver i d ds) les"
  using assms set_set_driver[of _ i d ds] by (auto simp: stores_def)

end

locale engine_drivers = st: storage_contract D rel + vw: sequenced "vopReinspect V" "vopSequence V" vrel
  for D :: "'d storage_ops" and rel and V :: "'w view_ops" and vrel
begin

abbreviation "good \<equiv> einv rel vrel"
abbreviation "good_at \<equiv> einv_at rel vrel"

lemmas inv_defs = einv_def einv_at_def todo_def

text \<open>The methods for clients.\<close>

lemma inv_storages:
  assumes "good e" "same_places (storages e) ds" "stores rel ds (wal e)"
  shows "good (e\<lparr>storages := ds\<rparr>)"
  using assms acts_ok_same[OF _ assms(2)] by (auto simp: inv_defs split: closure.splits)

lemma inv_places: "good e \<Longrightarrow> places (todo e) (activeTransactions e) (submittedTransactions e)"
  by (simp add: inv_defs)

lemma inv_item_state:
  assumes "good e" "pc e = AtConstraint item k" "activeTransactions e i = Some t" "trState t = StOpen \<or> trState t = StSubmitted"
  shows "itemTrid item \<noteq> i"
  using assms(2,4) places_at[OF inv_places[OF assms(1)] assms(3)] by (auto simp: todo_def closure_items_def tr_place_def)

lemma inv_put_open:
  assumes "good e" "i < nextTransactId e" "tr_ok (storages e) tr" "trState tr = StOpen"
    and old: "activeTransactions e i = None \<or> (\<exists>t. activeTransactions e i = Some t \<and> trState t = StOpen)"
  shows "good (put_active i tr e)"
proof -
  have p: "places (todo e) (activeTransactions e) (submittedTransactions e)" using assms(1) by (rule inv_places)
  have n: "i \<notin> set (submittedTransactions e)" "i \<notin> item_ids (todo e)" using places_fresh[OF p old] by auto
  have "itemTrid item \<noteq> i" if "pc e = AtConstraint item k" for item k
    using n(2) that by (auto simp: todo_def closure_items_def)
  then have "in_check item k ((activeTransactions e)(i \<mapsto> tr)) (submittedTransactions e) (currentSequenceId e) (wal e)"
    if "pc e = AtConstraint item k" for item k
    using in_check_put[of item k "activeTransactions e" _ _ _ i tr] n assms(1) that by (auto simp: einv_def)
  moreover have "good_at (todo e) (put_active i tr e)"
    using assms(1) acts_ok_put[OF _ assms(2,3)] places_open[OF p old assms(4)] pending_ok_put[of "activeTransactions e" _ _ i tr]
      all_compatible_put[of "activeTransactions e" _ i tr] n
    by (simp add: einv_def einv_at_def put_active_def)
  ultimately show ?thesis
    using assms(1) by (auto simp: einv_def todo_def put_active_def split: closure.splits)
qed

lemma inv_enqueue:
  assumes "good e" "activeTransactions e i = Some tr" "trState tr = StOpen \<or> trState tr = StSubmitted"
    "item_place (submittedTransactions e) \<lparr>itemType = ty, itemTrid = i\<rparr> (tr\<lparr>trState := s\<rparr>)"
    "s = StInSubmit \<and> trState tr = StOpen \<or> s = StInCommitOrRollback"
  shows "good (enqueue ty i (put_active i (tr\<lparr>trState := s\<rparr>) e))"
proof -
  let ?it = "\<lparr>itemType = ty, itemTrid = i\<rparr>" and ?tr = "tr\<lparr>trState := s\<rparr>"
  have p: "places (todo e) (activeTransactions e) (submittedTransactions e)" using assms(1) by (rule inv_places)
  then have "tr_place (todo e) (submittedTransactions e) i tr" using assms(2) by (simp add: places_def)
  then have n: "i \<notin> item_ids (todo e)" "s = StInSubmit \<longrightarrow> i \<notin> set (submittedTransactions e)"
    using assms(3,5) by (auto simp: tr_place_def)
  have t: "i < nextTransactId e" "tr_ok (storages e) tr"
    using assms(1,2) by (auto simp: inv_defs acts_ok_def)
  then have t': "tr_ok (storages e) ?tr" using assms(3,5) by (auto simp: tr_ok_def)
  have "places (todo e @ [?it]) ((activeTransactions e)(i \<mapsto> ?tr)) (submittedTransactions e)"
    using places_enqueue[OF p assms(2) n(1) assms(4)] n assms(5) by auto
  then have "good_at (todo e @ [?it]) (enqueue ty i (put_active i ?tr e))"
    using assms(1,2) acts_ok_put[OF _ t(1) t'] pending_ok_put[of "activeTransactions e" _ _ i ?tr]
      all_compatible_put[of "activeTransactions e" _ i ?tr]
    by (simp add: einv_def einv_at_def put_active_def enqueue_def)
  moreover have "in_check item k ((activeTransactions e)(i \<mapsto> ?tr)) (submittedTransactions e) (currentSequenceId e) (wal e)"
    if "pc e = AtConstraint item k" for item k
    using in_check_put[of item k "activeTransactions e" _ _ _ i ?tr] inv_item_state[OF assms(1) that assms(2,3)] assms(1,2) that
    by (auto simp: einv_def)
  ultimately show ?thesis
    by (auto simp: einv_def todo_def put_active_def enqueue_def split: closure.splits)
qed

end

context engine_drivers
begin

text \<open>The ends of an item.\<close>

lemma good_at_room: "good_at (item # submitQueue e) e \<Longrightarrow> \<exists>tr. activeTransactions e (itemTrid item) = Some tr
    \<and> item_place (submittedTransactions e) item tr \<and> tr_place (item # submitQueue e) (submittedTransactions e) (itemTrid item) tr
    \<and> tr_ok (storages e) tr \<and> itemTrid item < nextTransactId e"
  using places_item[of "item # submitQueue e" _ _ item] places_at
  by (fastforce simp: einv_at_def acts_ok_def)

lemma good_at_queue: "good_at its e \<Longrightarrow> good_at its (e\<lparr>submitQueue := q\<rparr>)"
  by (simp add: einv_at_def)

lemma good_drop:
  assumes "good_at (item # submitQueue e) e" "itemTrid item \<notin> set (submittedTransactions e)"
  shows "good (e\<lparr>activeTransactions := (activeTransactions e)(itemTrid item := None), pc := AtQueue\<rparr>)"
  using assms places_finish[of item "submitQueue e" "activeTransactions e" "submittedTransactions e"]
  by (simp add: inv_defs closure_items_def remove1_idem acts_ok_remove pending_ok_remove all_compatible_remove del: fun_upd_apply)

lemma submitFailure_ok:
  assumes g: "good_at (item # submitQueue e) e" and ty: "itemType item \<in> {ItemSubmit, ItemSubmitCommit}"
    and tr: "activeTransactions e (itemTrid item) = Some tr" "\<not> admitted e tr" "err \<noteq> SubmitSuccess"
  shows "\<exists>out e'. submitFailure item err e = Inr (Some out, e') \<and> good e' \<and> item_spec item (submitQueue e) e (Some out) e'"
proof -
  let ?i = "itemTrid item"
  let ?e = "e\<lparr>activeTransactions := (activeTransactions e)(?i := None), pc := AtQueue\<rparr>"
  let ?out = "if itemType item = ItemSubmit then SubmitOutcome err else SubmitCommitOutcome err (-1)"
  have "?i \<notin> set (submittedTransactions e)" using good_at_room[OF g] tr ty by (auto simp: item_place_def tr_place_def)
  then have "good ?e" using good_drop[OF g] by simp
  moreover have "submitFailure item err e = Inr (Some ?out, ?e)"
    using ty tr by (auto simp: submitFailure_def)
  moreover have "item_spec item (submitQueue e) e (Some ?out) ?e"
    using ty tr by (auto simp: item_spec_def rejected_def unchanged_def todo_def closure_items_def)
  ultimately show ?thesis by blast
qed

lemma processRollback_ok:
  assumes g: "good_at (item # submitQueue e) e" and ty: "itemType item = ItemRollback"
  shows "\<exists>out e'. processRollback item e = Inr (Some out, e') \<and> good e' \<and> item_spec item (submitQueue e) e (Some out) e'"
proof -
  let ?i = "itemTrid item"
  let ?e = "e\<lparr>activeTransactions := (activeTransactions e)(?i := None), pc := AtQueue\<rparr>"
  obtain tr where tr: "activeTransactions e ?i = Some tr" "?i \<notin> set (submittedTransactions e)" "trState tr = StInCommitOrRollback"
    using good_at_room[OF g] ty by (auto simp: item_place_def)
  then have "good ?e" using good_drop[OF g] by simp
  moreover have "processRollback item e = Inr (Some RollbackOutcome, ?e)"
    using ty tr by (simp add: processRollback_def)
  moreover have "item_spec item (submitQueue e) e (Some RollbackOutcome) ?e"
    using ty tr by (simp add: item_spec_def unchanged_def todo_def closure_items_def)
  ultimately show ?thesis by blast
qed

end

context engine_drivers
begin

lemma commitComplete_eq:
  assumes "stores rel (storages e) les" "stores vrel (views e) les" "\<And>m. m \<in> set (mutations tr) \<Longrightarrow> mutType m \<noteq> MutNone"
    "log_versions (wal e) = log_versions les @ versions_in sid (mutations tr)" "bytes_of (log_versions les) + tr_bytes tr < 2 ^ 64"
    "activeTransactions e (itemTrid item) \<noteq> None" "itemTrid item \<in> set (submittedTransactions e)"
    "itemType item \<in> {ItemCommit, ItemSubmitCommit}"
  shows "\<exists>ds vs. commitComplete D V item tr sid e = Inr (Some (if itemType item = ItemCommit then CommitOutcome sid
        else SubmitCommitOutcome SubmitSuccess sid),
      e\<lparr>storages := ds, views := vs, activeTransactions := (activeTransactions e)(itemTrid item := None),
        submittedTransactions := remove1 (itemTrid item) (submittedTransactions e), pc := AtQueue\<rparr>)
    \<and> same_places (storages e) ds \<and> stores rel ds (wal e) \<and> stores vrel vs (wal e)"
proof -
  have b: "bytes_of (log_versions (wal e)) < 2 ^ 64" using assms(4,5) by (simp add: bytes_of_versions_in)
  obtain ds where ds: "sequence_all (opSequence D) sid (mutations tr) (storages e) = Inr ds"
    "same_places (storages e) ds" "stores rel ds (wal e)"
    using st.stores_sequence[OF assms(1,3,4) b] by blast
  obtain vs where vs: "sequence_all (vopSequence V) sid (mutations tr) (views e) = Inr vs" "stores vrel vs (wal e)"
    using vw.stores_sequence[OF assms(2,3,4) b] by blast
  show ?thesis using ds vs assms(6-8) by (intro exI[of _ ds] exI[of _ vs]) (auto simp: commitComplete_def)
qed

lemma processCommit_ok:
  assumes g: "good_at (item # submitQueue e) e" and ty: "itemType item = ItemCommit"
    and room: "\<And>tr. activeTransactions e (itemTrid item) = Some tr \<Longrightarrow> bytes_of (log_versions (wal e)) + tr_bytes tr < 2 ^ 64"
  shows "\<exists>out e'. processCommit D V item e = Inr (Some out, e') \<and> good e' \<and> item_spec item (submitQueue e) e (Some out) e'"
proof -
  let ?i = "itemTrid item" and ?sid = "currentSequenceId e + 1" and ?sub = "submittedTransactions e"
  let ?le = "\<lparr>leType = LogCommit, leSequence = ?sid, leTransaction = ?i, leMutations = []\<rparr>"
  let ?e = "e\<lparr>currentSequenceId := ?sid, wal := wal e @ [?le]\<rparr>"
  note parts = g[unfolded einv_at_def]
  obtain tr where tr: "activeTransactions e ?i = Some tr" "?i \<in> set ?sub" "tr_ok (storages e) tr" "?i < nextTransactId e"
    using good_at_room[OF g] ty by (auto simp: item_place_def)
  have p: "pending_ok (activeTransactions e) ?sub (wal e)" "distinct ?sub" "log_ok (wal e)"
    using parts by (auto simp: places_def log_good_def)
  then have "?i \<in> fst ` set (log_pending (wal e))" using tr by (simp add: pending_ok_def)
  then obtain lms where lms: "map_of (log_pending (wal e)) ?i = Some lms" using map_of_SomeI by metis
  then have "writes lms (mutations tr)" using p(1) tr(1) map_of_SomeD[OF lms] by (auto simp: pending_ok_def)
  note v = writes_versions[OF this, of ?sid]
  have vers: "log_versions (wal ?e) = log_versions (wal e) @ versions_in ?sid (mutations tr)" using lms v by simp
  have pend: "log_pending (wal e @ [?le]) = filter (\<lambda>p. fst p \<noteq> ?i) (log_pending (wal e))" using lms by simp
  have good_log: "log_good (nextTransactId e) ?sid (wal e @ [?le])"
    using log_good_commit[OF _ lms tr(4)] parts by blast
  obtain ds vs where c: "commitComplete D V item tr ?sid ?e = Inr (Some (CommitOutcome ?sid),
      ?e\<lparr>storages := ds, views := vs, activeTransactions := (activeTransactions e)(?i := None),
        submittedTransactions := remove1 ?i ?sub, pc := AtQueue\<rparr>)"
    and s: "same_places (storages e) ds" "stores rel ds (wal e @ [?le])" "stores vrel vs (wal e @ [?le])"
    using commitComplete_eq[of ?e "wal e" tr ?sid item] parts tr ty vers room[OF tr(1)] by (auto simp: tr_ok_def)
  let ?e' = "?e\<lparr>storages := ds, views := vs, activeTransactions := (activeTransactions e)(?i := None),
        submittedTransactions := remove1 ?i ?sub, pc := AtQueue\<rparr>"
  have "good ?e'"
    using parts s good_log acts_ok_remove[OF acts_ok_same[OF _ s(1)]] places_finish[of item "submitQueue e"]
      pending_ok_finish[OF p(1,2) pend] all_compatible_finish
    by (simp add: inv_defs closure_items_def del: fun_upd_apply log_commit)
  moreover have "processCommit D V item e = Inr (Some (CommitOutcome ?sid), ?e')"
    using c ty tr by (simp add: processCommit_def find_active_def writeAhead_def make_entry_def afterWriteAhead_def Let_def)
  moreover have "item_spec item (submitQueue e) e (Some (CommitOutcome ?sid)) ?e'"
    using ty tr vers by (simp add: item_spec_def committed_def todo_def closure_items_def)
  ultimately show ?thesis by blast
qed

end

context engine_drivers
begin

lemma writeAhead_submit_ok:
  assumes g: "good_at (item # submitQueue e) e" and ty: "itemType item = ItemSubmit"
    and tr: "activeTransactions e (itemTrid item) = Some tr" "admitted e tr"
  shows "\<exists>out e'. writeAhead D V item tr (currentSequenceId e + 1) (e\<lparr>currentSequenceId := currentSequenceId e + 1\<rparr>)
      = Inr (Some out, e') \<and> good e' \<and> item_spec item (submitQueue e) e (Some out) e'"
proof -
  let ?i = "itemTrid item" and ?sid = "currentSequenceId e + 1" and ?sub = "submittedTransactions e"
  let ?act = "activeTransactions e"
  note parts = g[unfolded einv_at_def]
  have t: "?i \<notin> set ?sub" "trState tr = StInSubmit" "tr_ok (storages e) tr" "?i < nextTransactId e"
    using good_at_room[OF g] ty tr by (auto simp: item_place_def tr_place_def)
  obtain lms where lms: "log_mutations (storages e) (mutations tr) = Inr lms" "writes lms (mutations tr)" "lms_ok lms"
    using log_mutations_ok[of "mutations tr" "storages e"] t by (auto simp: tr_ok_def)
  let ?le = "\<lparr>leType = LogSubmit, leSequence = 0, leTransaction = ?i, leMutations = lms\<rparr>"
  let ?tr = "tr\<lparr>trState := StSubmitted\<rparr>"
  let ?e' = "(put_active ?i ?tr (e\<lparr>currentSequenceId := ?sid, wal := wal e @ [?le], submittedTransactions := ?sub @ [?i]\<rparr>))\<lparr>pc := AtQueue\<rparr>"
  have "?i \<notin> fst ` set (log_pending (wal e))" using parts t(1) by (simp add: pending_ok_def)
  then have good_log: "log_good (nextTransactId e) ?sid (wal e @ [?le])"
    using parts lms(3) t(4) log_good_submit by blast
  have pend: "pending_ok (?act(?i \<mapsto> ?tr)) (?sub @ [?i]) (wal e @ [?le])"
    using parts lms(2) t(1) by (intro pending_ok_submit) auto
  have comp: "all_compatible (?act(?i \<mapsto> ?tr)) (?sub @ [?i])"
    using parts tr t(1) by (intro all_compatible_submit) (auto simp: admitted_def)
  have "tr_ok (storages e) ?tr" using t(3) by (simp add: tr_ok_def)
  then have "good ?e'"
    using parts good_log pend comp places_submitted[of item "submitQueue e" ?act ?sub tr] tr(1) t(1,4)
    by (simp add: acts_ok_put inv_defs closure_items_def put_active_def stores_def del: fun_upd_apply)
  moreover have "writeAhead D V item tr ?sid (e\<lparr>currentSequenceId := ?sid\<rparr>) = Inr (Some (SubmitOutcome SubmitSuccess), ?e')"
    using ty lms(1) by (simp add: writeAhead_def make_entry_def afterWriteAhead_def submitComplete_def)
  moreover have "item_spec item (submitQueue e) e (Some (SubmitOutcome SubmitSuccess)) ?e'"
    using ty tr by (simp add: item_spec_def made_pending_def todo_def closure_items_def put_active_def)
  ultimately show ?thesis by blast
qed

lemma writeAhead_submitCommit_ok:
  assumes g: "good_at (item # submitQueue e) e" and ty: "itemType item = ItemSubmitCommit"
    and tr: "activeTransactions e (itemTrid item) = Some tr" "admitted e tr"
    and room: "bytes_of (log_versions (wal e)) + tr_bytes tr < 2 ^ 64"
  shows "\<exists>out e'. writeAhead D V item tr (currentSequenceId e + 1) (e\<lparr>currentSequenceId := currentSequenceId e + 1\<rparr>)
      = Inr (Some out, e') \<and> good e' \<and> item_spec item (submitQueue e) e (Some out) e'"
proof -
  let ?i = "itemTrid item" and ?sid = "currentSequenceId e + 1" and ?sub = "submittedTransactions e"
  let ?act = "activeTransactions e" and ?out = "SubmitCommitOutcome SubmitSuccess (currentSequenceId e + 1)"
  note parts = g[unfolded einv_at_def]
  have t: "?i \<notin> set ?sub" "trState tr = StInSubmit" "tr_ok (storages e) tr" "?i < nextTransactId e"
    using good_at_room[OF g] ty tr by (auto simp: item_place_def tr_place_def)
  obtain lms where lms: "log_mutations (storages e) (mutations tr) = Inr lms" "writes lms (mutations tr)" "lms_ok lms"
    using log_mutations_ok[of "mutations tr" "storages e"] t by (auto simp: tr_ok_def)
  let ?le = "\<lparr>leType = LogSubmitCommit, leSequence = ?sid, leTransaction = ?i, leMutations = lms\<rparr>"
  let ?e = "e\<lparr>currentSequenceId := ?sid, wal := wal e @ [?le], submittedTransactions := ?sub @ [?i]\<rparr>"
  have vers: "log_versions (wal ?e) = log_versions (wal e) @ versions_in ?sid (mutations tr)"
    using writes_versions[OF lms(2)] by simp
  obtain ds vs where c: "commitComplete D V item tr ?sid ?e = Inr (Some ?out,
      ?e\<lparr>storages := ds, views := vs, activeTransactions := ?act(?i := None), submittedTransactions := remove1 ?i (?sub @ [?i]), pc := AtQueue\<rparr>)"
    and s: "same_places (storages e) ds" "stores rel ds (wal e @ [?le])" "stores vrel vs (wal e @ [?le])"
    using commitComplete_eq[of ?e "wal e" tr ?sid item] parts tr(1) t(3) ty vers room by (auto simp: tr_ok_def)
  let ?e' = "?e\<lparr>storages := ds, views := vs, activeTransactions := ?act(?i := None),
        submittedTransactions := remove1 ?i (?sub @ [?i]), pc := AtQueue\<rparr>"
  have sub: "remove1 ?i (?sub @ [?i]) = ?sub" "remove1 ?i ?sub = ?sub" using t(1) by (simp_all add: remove1_append remove1_idem)
  have good_log: "log_good (nextTransactId e) ?sid (wal e @ [?le])"
    using parts lms(3) t(4) log_good_submitCommit by blast
  have pend: "pending_ok (?act(?i := None)) ?sub (wal e @ [?le])"
  proof (rule pending_ok_remove[OF _ t(1)])
    show "pending_ok ?act ?sub (wal e @ [?le])" using parts by (simp add: pending_ok_def)
  qed
  have "good ?e'"
    using parts s good_log pend sub acts_ok_remove[OF acts_ok_same[OF _ s(1)]] places_finish[of item "submitQueue e" ?act ?sub]
      all_compatible_remove
    by (simp add: inv_defs closure_items_def del: fun_upd_apply)
  moreover have "writeAhead D V item tr ?sid (e\<lparr>currentSequenceId := ?sid\<rparr>) = Inr (Some ?out, ?e')"
    using c ty lms(1) by (simp add: writeAhead_def make_entry_def afterWriteAhead_def submitComplete_def)
  moreover have "item_spec item (submitQueue e) e (Some ?out) ?e'"
    using ty tr vers sub by (simp add: item_spec_def committed_def todo_def closure_items_def)
  ultimately show ?thesis by blast
qed

end

context engine_drivers
begin

lemma good_at_put_storages:
  assumes "good_at its e" "same_places (storages e) ds" "stores rel ds (wal e)"
  shows "good_at its (e\<lparr>storages := ds\<rparr>)"
  using assms acts_ok_same[OF _ assms(2)] by (simp add: einv_at_def)

lemma admitted_all:
  assumes "in_check item (length (constraints tr)) (activeTransactions e) (submittedTransactions e) (currentSequenceId e) (wal e)"
    "activeTransactions e (itemTrid item) = Some tr"
  shows "admitted e tr"
  using assms unfolding in_check_def admitted_def by (auto simp: in_set_conv_nth)

lemma checkStateOnFetch_ok:
  assumes g: "good_at (item # submitQueue e) e"
    and c: "in_check item i (activeTransactions e) (submittedTransactions e) (currentSequenceId e) (wal e)"
    and tr: "activeTransactions e (itemTrid item) = Some tr" "i < length (constraints tr)" "c = constraints tr ! i"
    and r: "r = visible (conDocument c) (currentSequenceId e) (log_versions (wal e))"
  shows "\<exists>out e'. checkStateOnFetch item i c r e = Inr (out, e') \<and> good e' \<and> item_spec item (submitQueue e) e out e'"
proof (cases "r = DocumentNotFound \<and> mustExist c")
  case True
  then have "\<not> admitted e tr" using tr r unfolding admitted_def by (metis nth_mem)
  then obtain out e' where "submitFailure item ConstraintViolation e = Inr (Some out, e') \<and> good e'
    \<and> item_spec item (submitQueue e) e (Some out) e'"
    using submitFailure_ok[OF g _ tr(1), of ConstraintViolation] c by (auto simp: in_check_def)
  then show ?thesis using True by (auto simp: checkStateOnFetch_def Let_def)
next
  case False
  let ?e = "e\<lparr>pc := AtConstraint item (Suc i)\<rparr>"
  have "in_check item (Suc i) (activeTransactions e) (submittedTransactions e) (currentSequenceId e) (wal e)"
    using c tr r False unfolding in_check_def by (auto simp: less_Suc_eq)
  then have "good ?e" using g by (simp add: inv_defs closure_items_def)
  moreover have "checkStateOnFetch item i c r e = Inr (None, ?e)"
    using False by (auto simp: checkStateOnFetch_def Let_def split: fetch_result.splits)
  moreover have "item_spec item (submitQueue e) e None ?e"
    using c tr by (auto simp: item_spec_def unchanged_def todo_def closure_items_def in_check_def)
  ultimately show ?thesis by blast
qed

lemma submitCheckConstraint_ok:
  assumes g: "good_at (item # submitQueue e) e"
    and c: "in_check item i (activeTransactions e) (submittedTransactions e) (currentSequenceId e) (wal e)"
    and room: "\<And>tr. activeTransactions e (itemTrid item) = Some tr \<Longrightarrow> bytes_of (log_versions (wal e)) + tr_bytes tr < 2 ^ 64"
  shows "\<exists>out e'. submitCheckConstraint D V item i e = Inr (out, e') \<and> good e' \<and> item_spec item (submitQueue e) e out e'"
proof -
  obtain tr where tr: "activeTransactions e (itemTrid item) = Some tr" "i \<le> length (constraints tr)"
    and ty: "itemType item \<in> {ItemSubmit, ItemSubmitCommit}" using c by (auto simp: in_check_def)
  show ?thesis
  proof (cases "i = length (constraints tr)")
    case True
    then have "admitted e tr" using admitted_all[OF _ tr(1)] c by blast
    with True show ?thesis
      using writeAhead_submit_ok[OF g _ tr(1)] writeAhead_submitCommit_ok[OF g _ tr(1) _ room[OF tr(1)]] ty tr(1)
      by (auto simp: submitCheckConstraint_def Let_def)
  next
    case False
    let ?c = "constraints tr ! i"
    have i: "i < length (constraints tr)" using tr False by simp
    then have "conType ?c = ConDocumentState \<and> occupied (storages e) (conStorage ?c)"
      using good_at_room[OF g] tr by (auto simp: tr_ok_def)
    then obtain d where d: "conType ?c = ConDocumentState" "driver_at (storages e) (conStorage ?c) = Inr d" "Some d \<in> set (storages e)"
      by (auto simp: occupied_driver)
    then have "rel (log_versions (wal e)) (dstate d)" using g by (auto simp: einv_at_def stores_def)
    from st.fetch_law[OF this] obtain d' where
      f: "opFetch D (conDocument ?c) (currentSequenceId e) (dstate d)
        = Inr (visible (conDocument ?c) (currentSequenceId e) (log_versions (wal e)), d')" "rel (log_versions (wal e)) d'" by blast
    let ?e = "e\<lparr>storages := set_driver (conStorage ?c) d' (storages e)\<rparr>"
    have g': "good_at (item # submitQueue ?e) ?e"
      using good_at_put_storages[OF g same_places_set_driver st.stores_set_driver[OF _ f(2)]] g by (simp add: einv_at_def)
    have eq: "item_spec item (submitQueue e) ?e out e' = item_spec item (submitQueue e) e out e'" for out e'
      by (simp add: item_spec_def unchanged_def rejected_def committed_def made_pending_def admitted_def
        cong: option.case_cong outcome.case_cong)
    have "\<exists>out e'. checkStateOnFetch item i ?c (visible (conDocument ?c) (currentSequenceId e) (log_versions (wal e))) ?e
        = Inr (out, e') \<and> good e' \<and> item_spec item (submitQueue ?e) ?e out e'"
      using checkStateOnFetch_ok[OF g', of i tr ?c] c tr i by simp
    then show ?thesis using False d f tr eq by (simp add: submitCheckConstraint_def Let_def)
  qed
qed

lemma processSubmit_ok:
  assumes g: "good_at (item # submitQueue e) e" and ty: "itemType item \<in> {ItemSubmit, ItemSubmitCommit}"
    and room: "\<And>tr. activeTransactions e (itemTrid item) = Some tr \<Longrightarrow> bytes_of (log_versions (wal e)) + tr_bytes tr < 2 ^ 64"
  shows "\<exists>out e'. processSubmit D V item e = Inr (out, e') \<and> good e' \<and> item_spec item (submitQueue e) e out e'"
proof -
  obtain tr where tr: "activeTransactions e (itemTrid item) = Some tr" using good_at_room[OF g] by blast
  have "\<exists>b. activeTransactions e i = Some b" if "i \<in> set (submittedTransactions e)" for i
    using that g by (auto simp: einv_at_def places_def)
  from find_conflict_ok[of "submittedTransactions e" "activeTransactions e" tr, OF this] obtain r where r: "find_conflict (activeTransactions e) tr (submittedTransactions e) = Inr r"
    "r = None \<longleftrightarrow> (\<forall>i \<in> set (submittedTransactions e). \<forall>b. activeTransactions e i = Some b \<longrightarrow> conflict_with b tr = None)"
    "r \<noteq> Some SubmitSuccess" by blast
  show ?thesis
  proof (cases r)
    case None
    then have "in_check item 0 (activeTransactions e) (submittedTransactions e) (currentSequenceId e) (wal e)"
      using r(2) tr ty by (simp add: in_check_def)
    from submitCheckConstraint_ok[OF g this room] show ?thesis
      using None r tr by (simp add: processSubmit_def find_active_def)
  next
    case (Some err)
    then have "\<not> admitted e tr" using r(2) by (simp add: admitted_def)
    from submitFailure_ok[OF g ty tr this, of err] show ?thesis
      using Some r tr by (auto simp: processSubmit_def find_active_def)
  qed
qed

text \<open>Every step succeeds, keeps the invariant and does what its specification says.\<close>

lemma engine_step_ok:
  assumes "good e" "room e"
  shows "\<exists>out e'. engine_step D V e = Inr (out, e') \<and> good e' \<and> step_spec e out e'"
proof (cases "pc e")
  case AtQueue
  show ?thesis
  proof (cases "submitQueue e")
    case Nil
    then show ?thesis using assms AtQueue
      by (simp add: engine_step_def process_item_def step_spec_def todo_def closure_items_def)
  next
    case (Cons item rest)
    let ?e = "e\<lparr>submitQueue := rest\<rparr>"
    have t: "todo e = item # rest" using Cons AtQueue by (simp add: todo_def closure_items_def)
    then have g: "good_at (item # submitQueue ?e) ?e" using assms(1) good_at_queue by (simp add: einv_def)
    have room': "\<And>tr. activeTransactions ?e (itemTrid item) = Some tr \<Longrightarrow> bytes_of (log_versions (wal ?e)) + tr_bytes tr < 2 ^ 64"
      using assms(2) t by (auto simp: room_def)
    have "itemType item \<noteq> ItemNone" using good_at_room[OF g] by (auto simp: item_place_def)
    then have "\<exists>out e'. process_item D V e = Inr (out, e') \<and> good e' \<and> item_spec item rest ?e out e'"
      using processSubmit_ok[OF g _ room'] processCommit_ok[OF g _ room'] processRollback_ok[OF g] Cons
      by (cases "itemType item") (fastforce simp: process_item_def Let_def)+
    then show ?thesis using AtQueue t by (simp add: engine_step_def step_spec_def)
  qed
next
  case (AtConstraint item i)
  have t: "todo e = item # submitQueue e" using AtConstraint by (simp add: todo_def closure_items_def)
  have g: "good_at (item # submitQueue e) e"
    "in_check item i (activeTransactions e) (submittedTransactions e) (currentSequenceId e) (wal e)"
    using assms(1) AtConstraint t by (simp_all add: einv_def)
  have "bytes_of (log_versions (wal e)) + tr_bytes tr < 2 ^ 64" if "activeTransactions e (itemTrid item) = Some tr" for tr
    using assms(2) t that by (simp add: room_def)
  from submitCheckConstraint_ok[OF g this] show ?thesis
    using AtConstraint t by (simp add: engine_step_def step_spec_def)
qed

end

end
