(* ===== verification/Engine_Replay.thy ===== *)
theory Engine_Replay
  imports Engine_Step
begin

text \<open>
  Restart: the replay of the log (\<open>ReplayClosure\<close> and its two subclasses, \<open>loadConfig\<close>). The replay
  of a well-formed log never fails; it leaves exactly the pending transactions of the log as submitted
  and every driver with exactly the committed versions. The loop over the entries is proved once, for
  any subclass that keeps a state invariant along the log; the subclasses are interpretations.
\<close>

definition tr_match :: "transaction \<Rightarrow> log_mutation list \<Rightarrow> bool" where
  "tr_match tr lms \<longleftrightarrow> writes lms (mutations tr) \<and> constraints tr = [] \<and> (\<forall>m \<in> set (mutations tr). mutType m = MutInsert)"

definition pend_match :: "pending \<Rightarrow> (int \<times> log_mutation list) list \<Rightarrow> bool" where
  "pend_match = list_all2 (\<lambda>(i, tr) (j, lms). i = j \<and> tr_match tr lms)"

lemma replay_mutations_ok:
  assumes "lms_ok lms"
  shows "\<exists>ms. replay_mutations get lms = Inr ms \<and> writes lms ms \<and> (\<forall>m \<in> set ms. mutType m = MutInsert)"
  using assms
proof (induction lms)
  case (Cons lm lms)
  then obtain ms where "replay_mutations get lms = Inr ms" "writes lms ms" "\<forall>m \<in> set ms. mutType m = MutInsert"
    by (auto simp: lms_ok_def)
  then show ?case using Cons.prems by (cases "lmType lm") (auto simp: lms_ok_def writes_def)
qed (simp add: writes_def)

lemma replay_transaction_ok: "lms_ok (leMutations le) \<Longrightarrow> \<exists>tr. replay_transaction get le = Inr tr \<and> tr_match tr (leMutations le)"
  using replay_mutations_ok[of "leMutations le" get] by (auto simp: replay_transaction_def tr_match_def)

lemma pend_match_ids: "pend_match pend lp \<Longrightarrow> map fst pend = map fst lp"
  unfolding pend_match_def by (induction rule: list_all2_induct) auto

lemma pend_match_dom: "pend_match pend lp \<Longrightarrow> fst ` set pend = fst ` set lp"
  using arg_cong[OF pend_match_ids, of pend lp set] by simp

lemma pend_match_lookup:
  assumes "pend_match pend lp" "map_of lp i = Some lms"
  shows "\<exists>tr. map_of pend i = Some tr \<and> tr_match tr lms"
  using assms unfolding pend_match_def by (induction rule: list_all2_induct) (auto split: if_splits)

lemma pend_match_filter:
  assumes "pend_match pend lp"
  shows "pend_match (filter (\<lambda>p. fst p \<noteq> i) pend) (filter (\<lambda>p. fst p \<noteq> i) lp)"
  using assms unfolding pend_match_def by (induction rule: list_all2_induct) auto

lemma pend_match_append:
  "pend_match pend lp \<Longrightarrow> tr_match tr lms \<Longrightarrow> pend_match (pend @ [(i, tr)]) (lp @ [(i, lms)])"
  by (simp add: pend_match_def list_all2_appendI)

lemma pend_match_at:
  assumes "pend_match pend lp" "(i, tr) \<in> set pend"
  shows "\<exists>lms. (i, lms) \<in> set lp \<and> tr_match tr lms"
  using assms unfolding pend_match_def by (induction rule: list_all2_induct) auto

lemma replay_entries_append: "replay_entries R get (xs @ ys) ps = res_bind (replay_entries R get xs ps) (replay_entries R get ys)"
  by (induction xs arbitrary: ps) (auto simp: res_bind_assoc intro!: arg_cong[where f = "res_bind _"])

text \<open>A subclass of the replay that keeps \<open>P\<close>, a relation of the log so far and its state.\<close>

locale replayable =
  fixes R :: "'s replay_hooks" and P :: "log_entry list \<Rightarrow> 's \<Rightarrow> bool"
  assumes submit_law: "P les s \<Longrightarrow> leType le = LogSubmit \<Longrightarrow> entry_ok (log_pending les) le
      \<Longrightarrow> \<exists>s'. onTransaction R (leTransaction le) tr s = Inr s' \<and> P (les @ [le]) s'"
    and submitCommit_law: "P les s \<Longrightarrow> leType le = LogSubmitCommit \<Longrightarrow> tr_match tr (leMutations le)
      \<Longrightarrow> bytes_of (log_versions (les @ [le])) < 2 ^ 64
      \<Longrightarrow> \<exists>s' s''. onTransaction R (leTransaction le) tr s = Inr s' \<and> onCommit R tr (leSequence le) s' = Inr s'' \<and> P (les @ [le]) s''"
    and commit_law: "P les s \<Longrightarrow> leType le = LogCommit \<Longrightarrow> map_of (log_pending les) (leTransaction le) = Some lms
      \<Longrightarrow> tr_match tr lms \<Longrightarrow> bytes_of (log_versions (les @ [le])) < 2 ^ 64
      \<Longrightarrow> \<exists>s'. onCommit R tr (leSequence le) s = Inr s' \<and> P (les @ [le]) s'"
begin

lemma onEntry_ok:
  assumes "P les s" "pend_match pend (log_pending les)" "entry_ok (log_pending les) le" "bytes_of (log_versions (les @ [le])) < 2 ^ 64"
  shows "\<exists>pend' s'. onEntry R get le (pend, s) = Inr (pend', s') \<and> pend_match pend' (log_pending (les @ [le])) \<and> P (les @ [le]) s'"
proof (cases "leType le")
  case LogSubmit
  then have n: "leTransaction le \<notin> fst ` set pend" "lms_ok (leMutations le)"
    using assms(3) pend_match_dom[OF assms(2)] by (simp_all add: entry_ok_def)
  then obtain tr where tr: "replay_transaction get le = Inr tr" "tr_match tr (leMutations le)"
    using replay_transaction_ok by blast
  with submit_law[OF assms(1) LogSubmit assms(3), of tr] n pend_match_append[OF assms(2) tr(2)] LogSubmit
  show ?thesis by (auto simp: onEntry_def)
next
  case LogSubmitCommit
  then obtain tr where tr: "replay_transaction get le = Inr tr" "tr_match tr (leMutations le)"
    using assms(3) replay_transaction_ok by (auto simp: entry_ok_def)
  with submitCommit_law[OF assms(1) LogSubmitCommit tr(2) assms(4)] assms(2) LogSubmitCommit
  show ?thesis by (auto simp: onEntry_def)
next
  case LogCommit
  then obtain lms where lms: "map_of (log_pending les) (leTransaction le) = Some lms"
    using assms(3) map_of_SomeI by (fastforce simp: entry_ok_def)
  then obtain tr where tr: "map_of pend (leTransaction le) = Some tr" "tr_match tr lms"
    using pend_match_lookup[OF assms(2)] by blast
  with commit_law[OF assms(1) LogCommit lms tr(2) assms(4)] pend_match_filter[OF assms(2), of "leTransaction le"] LogCommit lms
  show ?thesis by (auto simp: onEntry_def)
qed (use assms(3) in \<open>simp_all add: entry_ok_def\<close>)

end

lemma log_versions_mono: "\<exists>vs. log_versions (les @ [le]) = log_versions les @ vs"
  by (cases "leType le"; cases "map_of (log_pending les) (leTransaction le)")
    (simp_all add: log_versions_def log_commits_def log_state_def log_step_def log_pending_def split_def)

context replayable
begin

lemma replay_entries_ok:
  assumes "log_ok les" "bytes_of (log_versions les) < 2 ^ 64" "P [] s0"
  shows "\<exists>pend s. replay_entries R get les ([], s0) = Inr (pend, s) \<and> pend_match pend (log_pending les) \<and> P les s"
  using assms
proof (induction les rule: rev_induct)
  case (snoc le les)
  then have ok: "log_ok les" "entry_ok (log_pending les) le" by simp_all
  moreover have "bytes_of (log_versions les) < 2 ^ 64" using snoc.prems(2) log_versions_mono[of les le] by auto
  ultimately obtain pend s where IH: "replay_entries R get les ([], s0) = Inr (pend, s)" "pend_match pend (log_pending les)" "P les s"
    using snoc by blast
  from onEntry_ok[OF IH(3,2) ok(2) snoc.prems(2), of get] IH(1) show ?case by (auto simp: replay_entries_append)
qed (simp add: pend_match_def)

end

section \<open>The two subclasses\<close>

definition meta_at :: "('d, 'w) engine \<Rightarrow> log_entry list \<Rightarrow> ('d, 'w) engine \<Rightarrow> bool" where
  "meta_at base les e \<longleftrightarrow> (\<exists>n c. e = base\<lparr>nextTransactId := n, currentSequenceId := c\<rparr>
     \<and> (\<forall>le \<in> set les. leTransaction le < n) \<and> (\<forall>p \<in> set (log_pending les). fst p < n)
     \<and> (\<forall>p \<in> set (log_commits les). fst p \<le> c) \<and> 0 \<le> c)"

interpretation meta: replayable meta_hooks "meta_at base" for base :: "('d, 'w) engine"
proof unfold_locales
  fix les and le :: log_entry and tr :: transaction and s :: "('d, 'w) engine"
  assume "meta_at base les s"
  then obtain n c where s: "s = base\<lparr>nextTransactId := n, currentSequenceId := c\<rparr>"
    "\<forall>le \<in> set les. leTransaction le < n" "\<forall>p \<in> set (log_pending les). fst p < n"
    "\<forall>p \<in> set (log_commits les). fst p \<le> c" "0 \<le> c"
    by (auto simp: meta_at_def)
  let ?n = "max n (leTransaction le + 1)" and ?c = "max c (leSequence le)"
  let ?s = "base\<lparr>nextTransactId := ?n, currentSequenceId := c\<rparr>"
  have t: "onTransaction meta_hooks (leTransaction le) tr s = Inr ?s"
    using s(1) by (auto simp: meta_hooks_def max_def)
  {
    assume "leType le = LogSubmit"
    then have "meta_at base (les @ [le]) ?s" using s by (fastforce simp: meta_at_def max_def)
    with t show "\<exists>s'. onTransaction meta_hooks (leTransaction le) tr s = Inr s' \<and> meta_at base (les @ [le]) s'" by blast
  }
  {
    assume "leType le = LogSubmitCommit"
    then have "meta_at base (les @ [le]) (base\<lparr>nextTransactId := ?n, currentSequenceId := ?c\<rparr>)"
      using s by (fastforce simp: meta_at_def max_def)
    moreover have "onCommit meta_hooks tr (leSequence le) ?s = Inr (base\<lparr>nextTransactId := ?n, currentSequenceId := ?c\<rparr>)"
      by (auto simp: meta_hooks_def max_def)
    ultimately show "\<exists>s' s''. onTransaction meta_hooks (leTransaction le) tr s = Inr s'
        \<and> onCommit meta_hooks tr (leSequence le) s' = Inr s'' \<and> meta_at base (les @ [le]) s''"
      using t by blast
  }
  {
    fix lms assume l: "leType le = LogCommit" "map_of (log_pending les) (leTransaction le) = Some lms"
    then have "leTransaction le < n" using s(3) map_of_SomeD by fastforce
    then have "meta_at base (les @ [le]) (base\<lparr>nextTransactId := n, currentSequenceId := ?c\<rparr>)"
      using s l by (fastforce simp: meta_at_def max_def)
    moreover have "onCommit meta_hooks tr (leSequence le) s = Inr (base\<lparr>nextTransactId := n, currentSequenceId := ?c\<rparr>)"
      using s(1) by (auto simp: meta_hooks_def max_def)
    ultimately show "\<exists>s'. onCommit meta_hooks tr (leSequence le) s = Inr s' \<and> meta_at base (les @ [le]) s'" by blast
  }
qed

lemma tr_match_versions: "tr_match tr lms \<Longrightarrow> versions_in s (mutations tr) = lm_versions s lms"
  using writes_versions[of lms "mutations tr" s] by (simp add: tr_match_def)

context sequenced
begin

lemma reinspect_all: "rel vs d \<Longrightarrow> rel vs (fold ri ms d)"
  by (induction ms arbitrary: d) (auto intro: reinspect_law)

lemma sequence_match:
  assumes "rel (log_versions les) d" "tr_match tr lms" "log_versions (les @ [le]) = log_versions les @ lm_versions s lms"
    "bytes_of (log_versions (les @ [le])) < 2 ^ 64"
  shows "\<exists>d'. sq s (mutations tr) d = Inr d' \<and> rel (log_versions (les @ [le])) d'"
  using sequence_law[of "log_versions les" d "mutations tr" s] assms by (simp add: tr_match_versions) (auto simp: tr_match_def)

end

sublocale sequenced \<subseteq> data: replayable "data_hooks ri sq" "\<lambda>les d. rel (log_versions les) d"
proof unfold_locales
  fix les and le :: log_entry and s and tr :: transaction and lms
  assume r: "rel (log_versions les) s"
  {
    assume "leType le = LogSubmit"
    then show "\<exists>s'. onTransaction (data_hooks ri sq) (leTransaction le) tr s = Inr s' \<and> rel (log_versions (les @ [le])) s'"
      using reinspect_all[OF r] by (simp add: data_hooks_def)
  }
  {
    assume "leType le = LogSubmitCommit" "tr_match tr (leMutations le)" "bytes_of (log_versions (les @ [le])) < 2 ^ 64"
    then show "\<exists>s' s''. onTransaction (data_hooks ri sq) (leTransaction le) tr s = Inr s'
        \<and> onCommit (data_hooks ri sq) tr (leSequence le) s' = Inr s'' \<and> rel (log_versions (les @ [le])) s''"
      using sequence_match[OF reinspect_all[OF r], of tr "leMutations le" le "leSequence le"] by (simp add: data_hooks_def)
  }
  {
    assume "leType le = LogCommit" "map_of (log_pending les) (leTransaction le) = Some lms" "tr_match tr lms"
      "bytes_of (log_versions (les @ [le])) < 2 ^ 64"
    then show "\<exists>s'. onCommit (data_hooks ri sq) tr (leSequence le) s = Inr s' \<and> rel (log_versions (les @ [le])) s'"
      using sequence_match[OF r, of tr lms le "leSequence le"] by (simp add: data_hooks_def)
  }
qed

context sequenced
begin

lemma replay_pending_data: "replay_pending (data_hooks ri sq) pend d = Inr d"
  by (induction pend) (auto simp: data_hooks_def)

lemma replay_data_ok:
  assumes "log_ok les" "bytes_of (log_versions les) < 2 ^ 64" "rel [] d"
  shows "\<exists>d'. replay it (data_hooks ri sq) get les d = Inr d' \<and> rel (log_versions les) d'"
  using data.replay_entries_ok[OF assms(1,2), of d get] assms(3) by (auto simp: replay_def replay_pending_data)

lemma replay_drivers_ok:
  assumes "log_ok les" "bytes_of (log_versions les) < 2 ^ 64" "\<And>d. Some d \<in> set ds \<Longrightarrow> rel [] (dstate d)"
  shows "\<exists>ds'. replay_drivers (replay it (data_hooks ri sq) get les) ds = Inr ds' \<and> same_places ds ds' \<and> stores rel ds' les"
  using assms(3)
proof (induction ds)
  case (Cons x ds)
  then obtain ds' where ds': "replay_drivers (replay it (data_hooks ri sq) get les) ds = Inr ds'" "same_places ds ds'" "stores rel ds' les"
    by auto
  show ?case
  proof (cases x)
    case (Some d)
    then obtain st where "replay it (data_hooks ri sq) get les (dstate d) = Inr st" "rel (log_versions les) st"
      using replay_data_ok[OF assms(1,2)] Cons.prems by fastforce
    then show ?thesis using ds' Some by (auto simp: same_places_def stores_def)
  qed (use ds' in \<open>auto simp: same_places_def stores_def\<close>)
qed (simp add: same_places_def stores_def)

end

section \<open>Loading the configuration\<close>

text \<open>What is relied on of the iteration over the unordered map: each pending transaction once.\<close>

definition iter_order :: "(pending \<Rightarrow> pending) \<Rightarrow> bool" where
  "iter_order it \<longleftrightarrow> (\<forall>p. distinct (map fst p) \<longrightarrow> set (it p) = set p \<and> distinct (map fst (it p)))"

lemma replay_pending_meta:
  assumes "distinct (map fst pend)" "\<And>i. i \<in> fst ` set pend \<Longrightarrow> activeTransactions e i = None"
  shows "\<exists>act. replay_pending meta_hooks pend e
      = Inr (e\<lparr>activeTransactions := act, submittedTransactions := submittedTransactions e @ map fst pend\<rparr>)
    \<and> (\<forall>i. act i = (case map_of pend i of Some tr \<Rightarrow> Some (tr\<lparr>trState := StSubmitted\<rparr>) | None \<Rightarrow> activeTransactions e i))"
  using assms
proof (induction pend arbitrary: e)
  case Nil
  then show ?case by (intro exI[of _ "activeTransactions e"]) simp
next
  case (Cons p pend)
  obtain i tr where p: "p = (i, tr)" by fastforce
  let ?e = "e\<lparr>activeTransactions := (activeTransactions e)(i \<mapsto> tr\<lparr>trState := StSubmitted\<rparr>),
    submittedTransactions := submittedTransactions e @ [i]\<rparr>"
  have "activeTransactions ?e j = None" if "j \<in> fst ` set pend" for j
    using Cons.prems that p by auto
  with Cons.IH[of ?e] Cons.prems(1) p obtain act where a:
    "replay_pending meta_hooks pend ?e = Inr (?e\<lparr>activeTransactions := act, submittedTransactions := submittedTransactions ?e @ map fst pend\<rparr>)"
    "\<forall>j. act j = (case map_of pend j of Some tr \<Rightarrow> Some (tr\<lparr>trState := StSubmitted\<rparr>) | None \<Rightarrow> activeTransactions ?e j)"
    by auto
  have "i \<notin> fst ` set pend" "activeTransactions e i = None" using Cons.prems p by auto
  then have "map_of pend i = None" by (simp add: map_of_eq_None_iff)
  then have "\<forall>j. act j = (case map_of (p # pend) j of Some tr \<Rightarrow> Some (tr\<lparr>trState := StSubmitted\<rparr>) | None \<Rightarrow> activeTransactions e j)"
    using a(2) p by (auto split: option.split)
  moreover have "replay_pending meta_hooks (p # pend) e
      = Inr (e\<lparr>activeTransactions := act, submittedTransactions := submittedTransactions e @ map fst (p # pend)\<rparr>)"
    using a(1) p \<open>activeTransactions e i = None\<close> by (simp add: meta_hooks_def)
  ultimately show ?case by blast
qed

lemma setup_all_ok:
  assumes "\<And>n d. (n, d) \<in> set ns \<Longrightarrow> reg d \<noteq> None" "\<And>n d. reg n = Some d \<Longrightarrow> P d"
  shows "\<exists>ds. setup_all reg ns = Inr ds \<and> map (map_option drvName) ds = map (Some \<circ> fst) ns \<and> (\<forall>d. Some d \<in> set ds \<longrightarrow> P (dstate d))"
  using assms(1)
proof (induction ns)
  case (Cons p ns)
  obtain name driver where p: "p = (name, driver)" by fastforce
  obtain d where d: "reg driver = Some d" "P d" using Cons.prems[of name driver] assms(2) p by auto
  moreover obtain ds where "setup_all reg ns = Inr ds" "map (map_option drvName) ds = map (Some \<circ> fst) ns"
    "\<forall>d. Some d \<in> set ds \<longrightarrow> P (dstate d)"
    using Cons.IH Cons.prems by (meson list.set_intros(2))
  ultimately show ?case using p by auto
qed simp

definition reloaded :: "('d, 'w) engine \<Rightarrow> log_entry list \<Rightarrow> bool" where
  "reloaded e les \<longleftrightarrow> wal e = les \<and> pc e = AtQueue \<and> submitQueue e = []
     \<and> set (submittedTransactions e) = fst ` set (log_pending les)
     \<and> dom (activeTransactions e) = fst ` set (log_pending les)
     \<and> (\<forall>(i, lms) \<in> set (log_pending les). \<exists>tr. activeTransactions e i = Some tr \<and> trState tr = StSubmitted
          \<and> writes lms (mutations tr))"

context engine_drivers
begin

lemma loadConfig_ok:
  assumes log: "log_good n c les" "distinct (map fst (log_pending les))" and room: "bytes_of (log_versions les) < 2 ^ 64"
    and it: "iter_order it"
    and sreg: "\<And>n d. (n, d) \<in> set snames \<Longrightarrow> sreg d \<noteq> None" "\<And>n d. sreg n = Some d \<Longrightarrow> rel [] d"
    and vreg: "\<And>n d. (n, d) \<in> set vnames \<Longrightarrow> vreg d \<noteq> None" "\<And>n d. vreg n = Some d \<Longrightarrow> vrel [] d"
  shows "\<exists>e. loadConfig it D V sreg vreg snames vnames les = Inr e \<and> good e \<and> reloaded e les
    \<and> map (map_option drvName) (storages e) = None # map (Some \<circ> fst) snames"
proof -
  have ok: "log_ok les" using log(1) by (simp add: log_good_def)
  obtain sts where sts: "setup_all sreg snames = Inr sts" "map (map_option drvName) sts = map (Some \<circ> fst) snames"
    "\<forall>d. Some d \<in> set sts \<longrightarrow> rel [] (dstate d)" using setup_all_ok[of snames sreg "rel []"] sreg by blast
  obtain vws where vws: "setup_all vreg vnames = Inr vws" "\<forall>d. Some d \<in> set vws \<longrightarrow> vrel [] (dstate d)"
    using setup_all_ok[of vnames vreg "vrel []"] vreg by blast
  let ?e0 = "engine_new\<lparr>storages := None # sts, views := None # vws, wal := les\<rparr>"
  let ?get = "\<lambda>nm. getStorage nm ?e0"
  have "meta_at ?e0 [] ?e0" by (auto simp: meta_at_def engine_new_def)
  from meta.replay_entries_ok[OF ok room this, of ?get] obtain pend n' c' where
    r: "replay_entries meta_hooks ?get les ([], ?e0) = Inr (pend, ?e0\<lparr>nextTransactId := n', currentSequenceId := c'\<rparr>)"
      "pend_match pend (log_pending les)"
    and b: "\<forall>le \<in> set les. leTransaction le < n'" "\<forall>p \<in> set (log_pending les). fst p < n'"
      "\<forall>p \<in> set (log_commits les). fst p \<le> c'" "0 \<le> c'"
    by (auto simp: meta_at_def)
  let ?e1 = "?e0\<lparr>nextTransactId := n', currentSequenceId := c'\<rparr>"
  have "distinct (map fst pend)" using log(2) pend_match_ids[OF r(2)] by simp
  then have itp: "set (it pend) = set pend" "distinct (map fst (it pend))" using it by (auto simp: iter_order_def)
  obtain act where act: "replay_pending meta_hooks (it pend) ?e1
      = Inr (?e1\<lparr>activeTransactions := act, submittedTransactions := submittedTransactions ?e1 @ map fst (it pend)\<rparr>)"
    "\<forall>i. act i = (case map_of (it pend) i of Some tr \<Rightarrow> Some (tr\<lparr>trState := StSubmitted\<rparr>) | None \<Rightarrow> activeTransactions ?e1 i)"
    using replay_pending_meta[OF itp(2), of ?e1] by (auto simp: engine_new_def)
  let ?e2 = "?e1\<lparr>activeTransactions := act, submittedTransactions := map fst (it pend)\<rparr>"
  have e2: "replay it meta_hooks ?get les ?e0 = Inr ?e2"
    using r act(1) by (simp add: replay_def engine_new_def)
  let ?get2 = "\<lambda>nm. getStorage nm ?e2"
  obtain ds where ds: "replay_drivers (replay it (data_hooks (opReinspect D) (opSequence D)) ?get2 les) (storages ?e2) = Inr ds"
    "same_places (storages ?e2) ds" "stores rel ds les"
    using st.replay_drivers_ok[OF ok room, of "storages ?e2" it ?get2] sts(3) by auto
  obtain vs where vs: "replay_drivers (replay it (data_hooks (vopReinspect V) (vopSequence V)) ?get2 les) (views ?e2) = Inr vs"
    "stores vrel vs les"
    using vw.replay_drivers_ok[OF ok room, of "views ?e2" it ?get2] vws(2) by auto
  let ?e3 = "?e2\<lparr>storages := ds, views := vs\<rparr>"
  have load: "loadConfig it D V sreg vreg snames vnames les = Inr ?e3"
    using sts(1) vws(1) e2 ds(1) vs(1) by (simp add: loadConfig_def Let_def)
  have act': "act i = map_option (\<lambda>tr. tr\<lparr>trState := StSubmitted\<rparr>) (map_of (it pend) i)" for i
    using act(2) by (simp add: engine_new_def split: option.splits)
  have ids: "fst ` set (it pend) = fst ` set (log_pending les)" using itp(1) pend_match_dom[OF r(2)] by simp
  have mem: "\<exists>lms. (i, lms) \<in> set (log_pending les) \<and> (\<exists>t. tr_match t lms \<and> tr = t\<lparr>trState := StSubmitted\<rparr>)"
    if "act i = Some tr" for i tr
    using that act' pend_match_at[OF r(2)] itp(1) by (fastforce dest: map_of_SomeD)
  have dom: "dom act = fst ` set (log_pending les)" using act' ids by (auto simp: dom_def map_of_eq_None_iff)
  have wr: "\<exists>tr. act i = Some tr \<and> trState tr = StSubmitted \<and> writes lms (mutations tr)" if p: "(i, lms) \<in> set (log_pending les)" for i lms
  proof -
    have "act i \<noteq> None" using dom p by force
    then obtain tr where tr: "act i = Some tr" by blast
    from mem[OF this] obtain lms' t where "(i, lms') \<in> set (log_pending les)" "tr_match t lms'" "tr = t\<lparr>trState := StSubmitted\<rparr>" by blast
    moreover have "lms' = lms" using p calculation(1) log(2) by (metis eq_key_imp_eq_value)
    ultimately show ?thesis using tr by (simp add: tr_match_def)
  qed
  have "acts_ok n' ds act" using mem b(2) by (fastforce simp: acts_ok_def tr_ok_def tr_match_def)
  moreover have "places [] act (map fst (it pend))"
    unfolding places_iff
  proof (intro conjI allI impI ballI)
    show "tr_place [] (map fst (it pend)) i tr" if "act i = Some tr" for i tr
      using mem[OF that] ids by (force simp: tr_place_def)
    show "\<exists>tr. act i = Some tr" if "i \<in> set (map fst (it pend))" for i
      using that dom ids by (auto simp: dom_def)
  qed (use itp(2) in simp_all)
  moreover have "pending_ok act (map fst (it pend)) les" 
    unfolding pending_ok_def
  proof (intro conjI ballI)
    show "case p of (i, lms) \<Rightarrow> \<exists>tr. act i = Some tr \<and> writes lms (mutations tr)" if "p \<in> set (log_pending les)" for p
      using wr[of "fst p" "snd p"] that by (cases p) auto
  qed (use log(2) ids in simp_all)
  moreover have "all_compatible act (map fst (it pend))"
    unfolding all_compatible_def
  proof (intro ballI allI impI)
    fix i j a b assume "act i = Some a" "act j = Some b"
    then have "constraints a = []" "constraints b = []" using mem by (force simp: tr_match_def)+
    then show "conflict_with a b = None" by (simp add: conflict_with_None)
  qed
  moreover have "log_good n' c' les" using log(1) b by (simp add: log_good_def)
  ultimately have "good ?e3" using ds(3) vs(2) by (simp add: inv_defs closure_items_def engine_new_def)
  moreover have "reloaded ?e3 les" 
    unfolding reloaded_def
  proof (intro conjI ballI)
    show "case p of (i, lms) \<Rightarrow> \<exists>tr. activeTransactions ?e3 i = Some tr \<and> trState tr = StSubmitted \<and> writes lms (mutations tr)"
      if "p \<in> set (log_pending les)" for p
      using wr[of "fst p" "snd p"] that by (cases p) simp
  qed (use ids dom in \<open>simp_all add: engine_new_def\<close>)
  moreover have "map (map_option drvName) (storages ?e3) = None # map (Some \<circ> fst) snames"
    using ds(2) sts(2) by (simp add: same_places_def)
  ultimately show ?thesis by (intro exI[of _ ?e3] conjI load)
qed

end

end
