(* ===== verification/Engine_Run.thy ===== *)
theory Engine_Run
  imports Engine_Replay
begin

text \<open>
  The reachable states of the engine: any order of calls by clients and of steps of the process
  closure, and restarts that load the log. Of the calls only one is restricted: \<open>rollback\<close> is for
  transactions that have not been submitted; what it does to submitted ones is shown in
  \<open>Engine_Spec\<close>. All reachable states keep the invariant.
\<close>

inductive erun :: "'d storage_ops \<Rightarrow> 'w view_ops \<Rightarrow> (string \<Rightarrow> 'd option) \<Rightarrow> (string \<Rightarrow> 'w option)
    \<Rightarrow> ('d, 'w) engine \<Rightarrow> bool" for D V sreg vreg where
  Init: "erun D V sreg vreg engine_new"
| CreateStorage: "erun D V sreg vreg e \<Longrightarrow> wal e = [] \<Longrightarrow> createStorage sreg driver name e = Inr e' \<Longrightarrow> erun D V sreg vreg e'"
| CreateView: "erun D V sreg vreg e \<Longrightarrow> wal e = [] \<Longrightarrow> createView vreg driver name e = Inr e' \<Longrightarrow> erun D V sreg vreg e'"
| Begin: "erun D V sreg vreg e \<Longrightarrow> erun D V sreg vreg (snd (transaction_begin e))"
| UpdateMutation: "erun D V sreg vreg e \<Longrightarrow> mutType m \<noteq> MutNone \<Longrightarrow> occupied (storages e) (mutStorage m)
    \<Longrightarrow> updateMutation D i m e = Inr e' \<Longrightarrow> erun D V sreg vreg e'"
| UpdateConstraint: "erun D V sreg vreg e \<Longrightarrow> conType c = ConDocumentState \<Longrightarrow> occupied (storages e) (conStorage c)
    \<Longrightarrow> updateConstraint i c e = Inr e' \<Longrightarrow> erun D V sreg vreg e'"
| Submit: "erun D V sreg vreg e \<Longrightarrow> submit i e = Inr e' \<Longrightarrow> erun D V sreg vreg e'"
| SubmitCommit: "erun D V sreg vreg e \<Longrightarrow> submitCommit i e = Inr e' \<Longrightarrow> erun D V sreg vreg e'"
| Commit: "erun D V sreg vreg e \<Longrightarrow> commit i e = Inr e' \<Longrightarrow> erun D V sreg vreg e'"
| Rollback: "erun D V sreg vreg e \<Longrightarrow> find_active i e = Inr tr \<Longrightarrow> trState tr = StOpen \<Longrightarrow> rollback i e = Inr e'
    \<Longrightarrow> erun D V sreg vreg e'"
| Step: "erun D V sreg vreg e \<Longrightarrow> room e \<Longrightarrow> engine_step D V e = Inr (out, e') \<Longrightarrow> erun D V sreg vreg e'"
| Restart: "erun D V sreg vreg e \<Longrightarrow> iter_order it \<Longrightarrow> bytes_of (log_versions (wal e)) < 2 ^ 64
    \<Longrightarrow> (\<And>n d. (n, d) \<in> set snames \<Longrightarrow> sreg d \<noteq> None) \<Longrightarrow> (\<And>n d. (n, d) \<in> set vnames \<Longrightarrow> vreg d \<noteq> None)
    \<Longrightarrow> loadConfig it D V sreg vreg snames vnames (wal e) = Inr e' \<Longrightarrow> erun D V sreg vreg e'"

lemma find_active_Inr: "find_active i e = Inr tr \<longleftrightarrow> activeTransactions e i = Some tr"
  by (simp add: find_active_def split: option.splits)

lemma acts_ok_append:
  assumes "acts_ok n ds act"
  shows "acts_ok n (ds @ xs) act"
proof -
  have "occupied (ds @ xs) i" if "occupied ds i" for i using that by (auto simp: occupied_def nth_append)
  then show ?thesis using assms by (fastforce simp: acts_ok_def tr_ok_def)
qed

locale engine_setup = engine_drivers D rel V vrel
  for D :: "'d storage_ops" and rel and V :: "'w view_ops" and vrel +
  fixes sreg :: "string \<Rightarrow> 'd option" and vreg :: "string \<Rightarrow> 'w option"
  assumes sreg_law: "sreg n = Some d \<Longrightarrow> rel [] d" and vreg_law: "vreg n = Some w \<Longrightarrow> vrel [] w"
begin

abbreviation "run \<equiv> erun D V sreg vreg"

lemma good_new: "good engine_new"
  by (simp add: inv_defs engine_new_def acts_ok_def places_def pending_ok_def all_compatible_def log_good_def
      stores_def closure_items_def)

lemma good_create_storage:
  assumes "good e" "wal e = []" "createStorage sreg driver name e = Inr e'"
  shows "good e'"
proof -
  obtain d where "sreg driver = Some d" "e' = e\<lparr>storages := storages e @ [Some \<lparr>drvName = name, dstate = d\<rparr>]\<rparr>"
    using assms(3) by (auto simp: createStorage_def setupStorage_def split: if_splits option.splits)
  then show ?thesis using assms(1,2) sreg_law
    by (auto simp: inv_defs stores_def acts_ok_append split: closure.splits)
qed

lemma good_create_view:
  assumes "good e" "wal e = []" "createView vreg driver name e = Inr e'"
  shows "good e'"
proof -
  obtain d where "vreg driver = Some d" "e' = e\<lparr>views := views e @ [Some \<lparr>drvName = name, dstate = d\<rparr>]\<rparr>"
    using assms(3) by (auto simp: createView_def setupView_def split: if_splits option.splits)
  then show ?thesis using assms(1,2) vreg_law
    by (auto simp: inv_defs stores_def split: closure.splits)
qed

lemma good_begin:
  assumes "good e"
  shows "good (snd (transaction_begin e))"
proof -
  let ?i = "nextTransactId e" and ?tr = "\<lparr>mutations = [], constraints = [], trState = StOpen\<rparr>"
  let ?e = "e\<lparr>nextTransactId := ?i + 1\<rparr>"
  have n: "activeTransactions e ?i = None"
    using assms by (cases "activeTransactions e ?i") (auto simp: inv_defs acts_ok_def)
  have "log_good (?i + 1) (currentSequenceId e) (wal e)" using assms log_good_mono[of ?i _ _ "?i + 1"] by (simp add: inv_defs)
  then have "good ?e" using assms by (fastforce simp: inv_defs acts_ok_def split: closure.splits)
  then have "good (put_active ?i ?tr ?e)" using n by (intro inv_put_open) (auto simp: tr_ok_def)
  then show ?thesis using n by (simp add: transaction_begin_def put_active_def Let_def)
qed

lemma good_active: "good e \<Longrightarrow> activeTransactions e i = Some tr \<Longrightarrow> i < nextTransactId e \<and> tr_ok (storages e) tr"
  by (simp add: inv_defs acts_ok_def)

lemma good_update_mutation:
  assumes "good e" "mutType m \<noteq> MutNone" "occupied (storages e) (mutStorage m)" "updateMutation D i m e = Inr e'"
  shows "good e'"
proof -
  obtain tr where tr: "activeTransactions e i = Some tr" "trState tr = StOpen"
    using assms(4) by (auto simp: updateMutation_def res_bind_Inr_conv find_active_Inr)
  obtain d where d: "driver_at (storages e) (mutStorage m) = Inr d" "Some d \<in> set (storages e)"
    using assms(3) by (auto simp: occupied_driver)
  obtain doc d' where a: "opAllocate D (dstate d) = (doc, d')" by fastforce
  have rel: "rel (log_versions (wal e)) d'"
    using st.alloc_law[OF _ a] assms(1) d(2) by (auto simp: inv_defs stores_def)
  let ?m = "m\<lparr>mutDocument := doc\<rparr>" and ?e = "e\<lparr>storages := set_driver (mutStorage m) d' (storages e)\<rparr>"
  have g: "good ?e"
    using inv_storages[OF assms(1) same_places_set_driver st.stores_set_driver[OF _ rel]] assms(1) by (simp add: inv_defs)
  have occ: "occupied (storages ?e) (mutStorage m)" using assms(3) by (simp add: occupied_same[OF same_places_set_driver])
  show ?thesis
  proof (cases "mutType m = MutInsert")
    case True
    then have "e' = put_active i (tr\<lparr>mutations := mutations tr @ [?m]\<rparr>) ?e"
      using assms(4) tr d a by (simp add: updateMutation_def find_active_def Let_def)
    then show ?thesis using inv_put_open[OF g, of i "tr\<lparr>mutations := mutations tr @ [?m]\<rparr>"] good_active[OF g, of i tr] tr occ True
      by (auto simp: tr_ok_def)
  next
    case False
    then have "e' = put_active i (tr\<lparr>mutations := mutations tr @ [m]\<rparr>) e"
      using assms(4) tr by (simp add: updateMutation_def find_active_def)
    then show ?thesis
      using inv_put_open[OF assms(1), of i "tr\<lparr>mutations := mutations tr @ [m]\<rparr>"] good_active[OF assms(1) tr(1)] tr assms(2,3)
      by (auto simp: tr_ok_def)
  qed
qed

lemma good_update_constraint:
  assumes "good e" "conType c = ConDocumentState" "occupied (storages e) (conStorage c)" "updateConstraint i c e = Inr e'"
  shows "good e'"
proof -
  obtain tr where tr: "activeTransactions e i = Some tr" "trState tr = StOpen"
    "e' = put_active i (tr\<lparr>constraints := constraints tr @ [c]\<rparr>) e"
    using assms(4) by (auto simp: updateConstraint_def res_bind_Inr_conv find_active_Inr)
  then show ?thesis
    using inv_put_open[OF assms(1), of i "tr\<lparr>constraints := constraints tr @ [c]\<rparr>"] good_active[OF assms(1) tr(1)] assms(2,3)
    by (auto simp: tr_ok_def)
qed

lemma good_queue_ops:
  assumes "good e"
  shows "submit i e = Inr e' \<Longrightarrow> good e'" "submitCommit i e = Inr e' \<Longrightarrow> good e'" "commit i e = Inr e' \<Longrightarrow> good e'"
    "find_active i e = Inr tr \<Longrightarrow> trState tr = StOpen \<Longrightarrow> rollback i e = Inr e' \<Longrightarrow> good e'"
proof -
  have place: "tr_place (todo e) (submittedTransactions e) i t" if "activeTransactions e i = Some t" for t
    using places_at[OF inv_places[OF assms] that] .
  show "good e'" if "submit i e = Inr e'"
    using that inv_enqueue[OF assms, of i _ ItemSubmit StInSubmit]
    by (auto simp: submit_def res_bind_Inr_conv find_active_Inr item_place_def)
  show "good e'" if "submitCommit i e = Inr e'"
    using that inv_enqueue[OF assms, of i _ ItemSubmitCommit StInSubmit]
    by (auto simp: submitCommit_def res_bind_Inr_conv find_active_Inr item_place_def)
  show "good e'" if "commit i e = Inr e'"
    using that inv_enqueue[OF assms, of i _ ItemCommit StInCommitOrRollback] place
    by (auto simp: commit_def res_bind_Inr_conv find_active_Inr item_place_def tr_place_def)
  show "good e'" if "find_active i e = Inr tr" "trState tr = StOpen" "rollback i e = Inr e'"
    using that inv_enqueue[OF assms, of i _ ItemRollback StInCommitOrRollback] place
    by (auto simp: rollback_def res_bind_Inr_conv find_active_Inr item_place_def tr_place_def)
qed

lemma good_restart:
  assumes "good e" "bytes_of (log_versions (wal e)) < 2 ^ 64" "iter_order it"
    "\<And>n d. (n, d) \<in> set snames \<Longrightarrow> sreg d \<noteq> None" "\<And>n d. (n, d) \<in> set vnames \<Longrightarrow> vreg d \<noteq> None"
  shows "\<exists>e'. loadConfig it D V sreg vreg snames vnames (wal e) = Inr e' \<and> good e' \<and> reloaded e' (wal e)
    \<and> map (map_option drvName) (storages e') = None # map (Some \<circ> fst) snames"
  using assms(1) by (intro loadConfig_ok[OF _ _ assms(2,3,4) sreg_law assms(5) vreg_law])
    (auto simp: inv_defs pending_ok_def)

theorem run_good: "run e \<Longrightarrow> good e"
proof (induction rule: erun.induct)
  case Init
  show ?case by (rule good_new)
next
  case (Step e out e')
  then show ?case using engine_step_ok[of e] by auto
next
  case (Restart e it snames vnames e')
  then show ?case using good_restart[of e it snames vnames] by auto
qed (blast intro: good_create_storage good_create_view good_begin good_update_mutation good_update_constraint good_queue_ops)+

end

end
