(* ===== verification/Engine_Spec.thy ===== *)
theory Engine_Spec
  imports Engine_Run Flex_Driver
begin

text \<open>
  The engine with the document storage: the contracts of \<open>Engine_Step\<close> hold for \<open>FlexStorage\<close>, so the
  properties of the engine hold for the program's own storage. The storage is taken with its queue
  drained: a transaction handed to it is applied before the engine goes on (what an undrained queue
  can answer is the subject of \<open>storage_stale_fetch\<close>). The last section shows, on concrete runs, what
  the invariant excludes: the rollback of a submitted transaction and the conflicts that a restart
  forgets.
\<close>

section \<open>The document storage as a driver of the engine\<close>

definition flex_sequence :: "int \<Rightarrow> mutation list \<Rightarrow> flex \<Rightarrow> flex res" where
  "flex_sequence s ms f = fold (\<lambda>m r. res_bind r (apply_mutation flex_hooks s m)) ms (Inr f)"

definition flex_ops :: "flex storage_ops" where
  "flex_ops = \<lparr>opAllocate = flex_allocate, opReinspect = flex_reinspect, opSequence = flex_sequence,
     opFetch = processFetch\<rparr>"

definition storage_registry :: "string \<Rightarrow> flex option" where
  "storage_registry = (\<lambda>n. if n = ''FlexStorage'' then Some flex0 else None)"

definition no_views :: "unit view_ops" where
  "no_views = \<lparr>vopReinspect = (\<lambda>m w. w), vopSequence = (\<lambda>s ms w. Inr w)\<rparr>"

lemma flex_sequence_ok:
  assumes "flex_rel vs f" "\<And>m. m \<in> set ms \<Longrightarrow> mutType m \<noteq> MutNone" "bytes_of (vs @ versions_in s ms) < 2 ^ 64"
  shows "\<exists>f'. flex_sequence s ms f = Inr f' \<and> flex_rel (vs @ versions_in s ms) f'"
  using assms
proof (induction ms arbitrary: vs f)
  case (Cons m ms)
  then have "flex_fits vs s m" by (simp add: flex_fits_def version_of_def)
  then obtain f' where f': "apply_mutation flex_hooks s m f = Inr f'" "flex_rel (flex_app s m vs) f'"
    using flex_mutation_law[of vs f s m] Cons.prems(1,2) by auto
  obtain f'' where "flex_sequence s ms f' = Inr f''" "flex_rel (flex_app s m vs @ versions_in s ms) f''"
    using Cons.IH[OF f'(2)] Cons.prems(2,3) by (auto simp: flex_app_def)
  then show ?case using f' by (auto simp: flex_sequence_def flex_app_def)
qed (simp add: flex_sequence_def)

lemma flex_rel_ids: "flex_rel vs (f\<lparr>lastDocumentId := n\<rparr>) = flex_rel vs f"
  by (simp add: flex_rel_def flex_inv_def refers_def)

interpretation fe: engine_setup flex_ops flex_rel V "\<lambda>_ _. False" storage_registry "\<lambda>_. None"
  for V :: "'w view_ops"
proof unfold_locales
  show "flex_rel vs (opReinspect flex_ops m d)" if "flex_rel vs d" for vs d m
    using that by (simp add: flex_ops_def flex_reinspect_def flex_rel_ids)
  show "\<exists>d'. opSequence flex_ops s ms d = Inr d' \<and> flex_rel (vs @ versions_in s ms) d'"
    if "flex_rel vs d" "\<And>m. m \<in> set ms \<Longrightarrow> mutType m \<noteq> MutNone" "bytes_of (vs @ versions_in s ms) < 2 ^ 64" for vs d ms s
    using flex_sequence_ok[OF that] by (simp add: flex_ops_def)
  show "flex_rel vs d'" if "flex_rel vs d" "opAllocate flex_ops d = (doc, d')" for vs d doc d'
    using that by (auto simp: flex_ops_def flex_allocate_def flex_rel_ids)
  show "\<exists>d'. opFetch flex_ops doc s d = Inr (visible doc s vs, d') \<and> flex_rel vs d'" if "flex_rel vs d" for vs d doc s
    using flex_request_law[OF that, of doc s] by (auto simp: flex_ops_def)
  show "flex_rel [] d" if "storage_registry n = Some d" for n d
    using that flex0_rel by (simp add: storage_registry_def split: if_splits)
qed simp_all

section \<open>Properties\<close>

abbreviation "flex_run V \<equiv> erun flex_ops V storage_registry (\<lambda>_. None)"

text \<open>
  A concrete run: one storage, two open transactions, each with a modification of document 1; then
  both are submitted.
\<close>

definition demo_mutation :: mutation where
  "demo_mutation = \<lparr>mutType = MutModify, mutStorage = 1, mutDocument = 1, mutBuffer = [7]\<rparr>"

definition demo_log :: "int \<Rightarrow> log_entry" where
  "demo_log i = \<lparr>leType = LogSubmit, leSequence = 0, leTransaction = i,
     leMutations = [\<lparr>lmType = MutModify, lmStorage = ''docs'', lmDocument = 1, lmBuffer = [7]\<rparr>]\<rparr>"

definition demo_at :: "tr_state \<Rightarrow> tr_state \<Rightarrow> (flex, unit) engine" where
  "demo_at s1 s2 = \<lparr>nextTransactId = 3, currentSequenceId = 0,
     activeTransactions = [1 \<mapsto> \<lparr>mutations = [demo_mutation], constraints = [], trState = s1\<rparr>,
       2 \<mapsto> \<lparr>mutations = [demo_mutation], constraints = [], trState = s2\<rparr>],
     submittedTransactions = [], submitQueue = [], wal = [],
     storages = [None, Some \<lparr>drvName = ''docs'', dstate = flex0\<rparr>], views = [None], pc = AtQueue\<rparr>"

definition demo_queued :: "(flex, unit) engine" where
  "demo_queued = (demo_at StInSubmit StInSubmit)\<lparr>submitQueue := [\<lparr>itemType = ItemSubmit, itemTrid = 1\<rparr>, \<lparr>itemType = ItemSubmit, itemTrid = 2\<rparr>]\<rparr>"

definition demo_one :: "(flex, unit) engine" where
  "demo_one = (demo_at StSubmitted StInSubmit)\<lparr>submitQueue := [\<lparr>itemType = ItemSubmit, itemTrid = 2\<rparr>],
     submittedTransactions := [1], wal := [demo_log 1], currentSequenceId := 1\<rparr>"

definition demo_both :: "(flex, unit) engine" where
  "demo_both = (demo_at StSubmitted StSubmitted)\<lparr>submittedTransactions := [1, 2], wal := [demo_log 1, demo_log 2],
     currentSequenceId := 2\<rparr>"
lemmas demo_defs = demo_at_def demo_queued_def demo_one_def demo_both_def demo_log_def demo_mutation_def

lemma demo_open: "flex_run no_views (demo_at StOpen StOpen)"
proof -
  let ?e1 = "engine_new\<lparr>storages := [None, Some \<lparr>drvName = ''docs'', dstate = flex0\<rparr>]\<rparr> :: (flex, unit) engine"
  have "flex_run no_views ?e1"
    by (rule erun.CreateStorage[OF erun.Init, where driver = "''FlexStorage''" and name = "''docs''"])
      (simp_all add: createStorage_def getStorage_def setupStorage_def storage_registry_def engine_new_def)
  then have "flex_run no_views (snd (transaction_begin (snd (transaction_begin ?e1))))" by (intro erun.Begin)
  moreover have "snd (transaction_begin (snd (transaction_begin ?e1))) = ?e1\<lparr>nextTransactId := 3, activeTransactions :=
      [1 \<mapsto> \<lparr>mutations = [], constraints = [], trState = StOpen\<rparr>, 2 \<mapsto> \<lparr>mutations = [], constraints = [], trState = StOpen\<rparr>]\<rparr>"
    by (simp add: transaction_begin_def engine_new_def Let_def)
  ultimately have e2: "flex_run no_views (?e1\<lparr>nextTransactId := 3, activeTransactions :=
      [1 \<mapsto> \<lparr>mutations = [], constraints = [], trState = StOpen\<rparr>, 2 \<mapsto> \<lparr>mutations = [], constraints = [], trState = StOpen\<rparr>]\<rparr>)"
    by simp
  have "flex_run no_views (?e1\<lparr>nextTransactId := 3, activeTransactions :=
      [1 \<mapsto> \<lparr>mutations = [demo_mutation], constraints = [], trState = StOpen\<rparr>, 2 \<mapsto> \<lparr>mutations = [], constraints = [], trState = StOpen\<rparr>]\<rparr>)"
    by (rule erun.UpdateMutation[OF e2, where m = demo_mutation and i = 1])
      (auto simp: demo_mutation_def occupied_def engine_new_def updateMutation_def find_active_def put_active_def)
  then show ?thesis
    by (rule erun.UpdateMutation[where m = demo_mutation and i = 2])
      (auto simp: demo_defs occupied_def engine_new_def updateMutation_def find_active_def put_active_def)
qed

lemma demo_queued_run: "flex_run no_views demo_queued"
proof -
  have "flex_run no_views ((demo_at StInSubmit StOpen)\<lparr>submitQueue := [\<lparr>itemType = ItemSubmit, itemTrid = 1\<rparr>]\<rparr>)"
    by (rule erun.Submit[OF demo_open, where i = 1])
      (auto simp: demo_defs submit_def find_active_def put_active_def enqueue_def)
  then show ?thesis
    by (rule erun.Submit[where i = 2])
      (auto simp: demo_defs submit_def find_active_def put_active_def enqueue_def)
qed

lemmas step_simps = engine_step_def process_item_def processSubmit_def find_active_def submitCheckConstraint_def writeAhead_def
  make_entry_def afterWriteAhead_def submitComplete_def put_active_def driver_at_def Let_def

lemma demo_one_run: "flex_run no_views demo_one"
  by (rule erun.Step[OF demo_queued_run, where out = "Some (SubmitOutcome SubmitSuccess)"])
    (auto simp: demo_defs room_def todo_def closure_items_def tr_bytes_def step_simps)

lemma demo_both_run: "flex_run no_views demo_both"
  by (rule erun.Step[OF demo_one_run, where out = "Some (SubmitOutcome SubmitSuccess)"])
    (auto simp: demo_defs room_def todo_def closure_items_def tr_bytes_def step_simps conflict_with_def
      log_versions_def log_commits_def log_state_def log_step_def)











text \<open>
  C5. Sequence ids: in every reachable state the sequence ids of the committed transactions of the log
  are positive, strictly increase in the order of the commits and do not exceed the current one, and
  the log holds as pending exactly the submitted transactions, each with what it writes.
\<close>

theorem engine_log_agrees:
  assumes "flex_run V e"
  shows "sorted_wrt (<) (map fst (log_commits (wal e)))
    \<and> list_all (\<lambda>p. 0 < fst p \<and> fst p \<le> currentSequenceId e) (log_commits (wal e))
    \<and> distinct (map fst (log_pending (wal e))) \<and> fst ` set (log_pending (wal e)) = set (submittedTransactions e)
    \<and> list_all (\<lambda>(i, lms). \<exists>tr. activeTransactions e i = Some tr \<and> writes lms (mutations tr)) (log_pending (wal e))"
  using fe.run_good[OF assms] by (simp add: fe.inv_defs log_good_def pending_ok_def list_all_iff)

theorem engine_log_agrees_witness:
  "sorted_wrt (<) (map fst (log_commits (wal demo_both))) \<and> fst ` set (log_pending (wal demo_both)) = {1, 2}"
  using engine_log_agrees[OF demo_both_run] by (simp add: demo_both_def)







text \<open>
  C18. Rolling back a submitted transaction breaks the engine: from a reachable state with two submitted
  transactions, the rollback of the first is reported as done and removes it from the active
  transactions, but its id stays in the list of submitted ones and nothing is logged; the next
  transaction that is submitted, here an empty one, makes the process closure throw.
\<close>

theorem engine_rollback_submitted_breaks:
  "\<exists>e1 e2 e3. flex_run no_views demo_both \<and> rollback 1 demo_both = Inr e1
    \<and> engine_step flex_ops no_views e1 = Inr (Some RollbackOutcome, e2)
    \<and> activeTransactions e2 1 = None \<and> submittedTransactions e2 = [1, 2] \<and> wal e2 = wal demo_both
    \<and> submit (fst (transaction_begin e2)) (snd (transaction_begin e2)) = Inr e3
    \<and> engine_step flex_ops no_views e3 = Inl OutOfRange"
proof -
  let ?i = "\<lparr>itemType = ItemRollback, itemTrid = 1\<rparr>" and ?j = "\<lparr>itemType = ItemSubmit, itemTrid = 3\<rparr>"
  let ?t2 = "\<lparr>mutations = [demo_mutation], constraints = [], trState = StSubmitted\<rparr>"
  let ?e1 = "(demo_at StInCommitOrRollback StSubmitted)\<lparr>submittedTransactions := [1, 2], wal := [demo_log 1, demo_log 2],
     currentSequenceId := 2, submitQueue := [?i]\<rparr>"
  let ?e2 = "demo_both\<lparr>activeTransactions := [2 \<mapsto> ?t2]\<rparr>"
  let ?e3 = "?e2\<lparr>nextTransactId := 4, submitQueue := [?j], activeTransactions :=
     [2 \<mapsto> ?t2, 3 \<mapsto> \<lparr>mutations = [], constraints = [], trState = StInSubmit\<rparr>]\<rparr>"
  have "rollback 1 demo_both = Inr ?e1"
    by (auto simp: demo_defs rollback_def find_active_def put_active_def enqueue_def)
  moreover have "engine_step flex_ops no_views ?e1 = Inr (Some RollbackOutcome, ?e2)"
    by (auto simp: demo_defs engine_step_def process_item_def processRollback_def Let_def)
  moreover have "submit (fst (transaction_begin ?e2)) (snd (transaction_begin ?e2)) = Inr ?e3"
    by (auto simp: demo_defs transaction_begin_def submit_def find_active_def put_active_def enqueue_def Let_def)
  moreover have "engine_step flex_ops no_views ?e3 = Inl OutOfRange"
    by (simp add: demo_defs engine_step_def process_item_def processSubmit_def find_active_def Let_def)
  ultimately show ?thesis using demo_both_run
    by (rule_tac exI[of _ ?e1], rule_tac exI[of _ ?e2], rule_tac exI[of _ ?e3]) (simp add: demo_both_def demo_at_def)
qed

text \<open>
  C19. A restart forgets conflicts: the submitted transaction 1 modifies document 1, so a transaction
  that requires document 1 to be unmodified conflicts with it. A modification is replayed as an
  insertion: after a restart transaction 1 is still submitted, and the same transaction no longer
  conflicts with it.
\<close>

theorem engine_restart_forgets_conflict:
  "\<exists>a b e'. loadConfig (\<lambda>p. p) flex_ops no_views storage_registry (\<lambda>_. None) [(''docs'', ''FlexStorage'')] []
      (wal demo_both) = Inr e'
    \<and> activeTransactions demo_both 1 = Some a \<and> activeTransactions e' 1 = Some b \<and> submittedTransactions e' = [1, 2]
    \<and> conflict_with a \<lparr>mutations = [], constraints = [\<lparr>conType = ConDocumentState, conStorage = 1, conDocument = 1,
          conSequence = 0, mustExist = False, matchSequenceId = True\<rparr>], trState = StOpen\<rparr> = Some ConstraintConflict
    \<and> conflict_with b \<lparr>mutations = [], constraints = [\<lparr>conType = ConDocumentState, conStorage = 1, conDocument = 1,
          conSequence = 0, mustExist = False, matchSequenceId = True\<rparr>], trState = StOpen\<rparr> = None"
  by (simp add: demo_defs loadConfig_def storage_registry_def replay_def onEntry_def replay_transaction_def meta_hooks_def
      data_hooks_def flex_ops_def flex_reinspect_def engine_new_def getStorage_def Let_def conflict_with_def compatible_def)

end
