(* ===== verification/Js_View.thy ===== *)
theory Js_View
  imports Btree_Spec Random_Access Db_Types
begin

text \<open>
  \<open>JsView\<close> (\<open>shard/src/db/js-view.cpp\<close>): an ordered view of a storage. For every version that is
  written a script computes a key; the key goes to a file, and an entry with the document id and the
  sequence id to a B+-tree, whose order is the comparison of the script. A query walks the tree,
  fetches each document from the storage and reports those versions that are the ones visible at its
  sequence id. The script runs in V8 and is a parameter: its seven hooks as functions, the conversions
  of strings included (\<open>Js_Instance\<close> gets them from a script file). Comparisons read the key file; the marks this leaves on its pages (they become
  dirty, see \<open>Random_Access\<close>) are not kept. The instances of the script are modelled as a pool; they
  all run the same script, so a closure does not depend on the one it gets.
\<close>

section \<open>The script\<close>

record ('d, 'k) script =
  extractDoc :: "int \<Rightarrow> byte list \<Rightarrow> 'd"
  extractKey :: "byte list \<Rightarrow> 'k"
  keyOf :: "'d \<Rightarrow> 'k"
  scompare :: "'k \<Rightarrow> 'k \<Rightarrow> int"
  serializeKey :: "'k \<Rightarrow> byte list"
  deserializeKey :: "byte list \<Rightarrow> 'k"
  report :: "'d \<Rightarrow> byte list"

text \<open>
  What the view relies on: the comparison is an order, keys survive serialisation, and strings are
  shorter than \<open>2^31\<close>, as in V8.
\<close>

definition script_ok :: "('d, 'k) script \<Rightarrow> bool" where
  "script_ok S \<longleftrightarrow> key_order (scompare S) \<and> (\<forall>k. deserializeKey S (serializeKey S k) = k)
     \<and> (\<forall>k. length (serializeKey S k) < 2 ^ 31)"

section \<open>KeyRef and Link\<close>

record keyref =
  krOffset :: "64 word"
  krLength :: "32 word"

definition writeKeyRef :: "keyref \<Rightarrow> byte list" where
  "writeKeyRef r = packLe64 (krOffset r) @ packLe32 (krLength r)"

definition readKeyRef :: "byte list \<Rightarrow> keyref" where
  "readKeyRef buffer = \<lparr>krOffset = unpackLe64 (take 8 buffer), krLength = unpackLe32 (take 4 (drop 8 buffer))\<rparr>"

definition packLink :: "int \<Rightarrow> int \<Rightarrow> byte list" where
  "packLink doc sq = packLe64 (word_of_int doc) @ packLe64 (word_of_int sq)"

definition link_document :: "byte list \<Rightarrow> int" where
  "link_document b = sint (unpackLe64 (take 8 b))"

definition link_sequence :: "byte list \<Rightarrow> int" where
  "link_sequence b = sint (unpackLe64 (take 8 (drop 8 b)))"

section \<open>The pool of instances\<close>

record js_pool =
  idleInstances :: "nat list"
  waitForInstance :: "nat list"

text \<open>The result is the closure that is called back, if any, with its instance.\<close>

definition grabInstance :: "nat \<Rightarrow> js_pool \<Rightarrow> (nat \<times> nat) option \<times> js_pool" where
  "grabInstance w p = (case idleInstances p of
     [] \<Rightarrow> (None, p\<lparr>waitForInstance := waitForInstance p @ [w]\<rparr>)
   | i # rest \<Rightarrow> (Some (w, i), p\<lparr>idleInstances := rest\<rparr>))"

definition releaseInstance :: "nat \<Rightarrow> js_pool \<Rightarrow> (nat \<times> nat) option \<times> js_pool" where
  "releaseInstance i p = (case waitForInstance p of
     [] \<Rightarrow> (None, p\<lparr>idleInstances := i # idleInstances p\<rparr>)
   | w # rest \<Rightarrow> (Some (w, i), p\<lparr>waitForInstance := rest\<rparr>))"

section \<open>The view\<close>

record js_view =
  viewStorage :: int
  keyPointer :: nat
  orderTree :: "(keyref, byte list) btree"
  keyFile :: raf

definition js_cfg :: bt_cfg where
  "js_cfg = \<lparr>blockSize = 4096, keySize = 12, valSize = 16\<rparr>"

text \<open>\<open>createView\<close> and \<open>loadView\<close>, which both start with empty files.\<close>

definition createView_files :: "int \<Rightarrow> js_view res" where
  "createView_files storage = res_bind createTree (\<lambda>t.
     Inr \<lparr>viewStorage = storage, keyPointer = 0, orderTree = t, keyFile = raf_create\<rparr>)"

text \<open>The bytes of a key, as \<open>compareToNew\<close> and \<open>compareToBegin\<close> read them.\<close>

definition read_key :: "raf \<Rightarrow> keyref \<Rightarrow> byte list" where
  "read_key kf r = (case raf_read (unat (krOffset r)) (unat (krLength r)) kf of Inr (b, _) \<Rightarrow> b | Inl _ \<Rightarrow> [])"

definition compareKey :: "('d, 'k) script \<Rightarrow> raf \<Rightarrow> 'k \<Rightarrow> keyref \<Rightarrow> int" where
  "compareKey S kf k r = scompare S (deserializeKey S (read_key kf r)) k"

definition js_insert :: "('d, 'k) script \<Rightarrow> int \<Rightarrow> int \<Rightarrow> byte list \<Rightarrow> js_view \<Rightarrow> js_view res" where
  "js_insert S doc sq buffer v =
    (let newKey = keyOf S (extractDoc S doc buffer);
         ser = serializeKey S newKey;
         insertKey = \<lparr>krOffset = word_of_nat (keyPointer v), krLength = word_of_nat (length ser)\<rparr>;
         v = v\<lparr>keyPointer := keyPointer v + length ser\<rparr> in
     res_bind (raf_write (unat (krOffset insertKey)) ser (keyFile v)) (\<lambda>kf.
     res_bind (btree_insert js_cfg (compareKey S kf newKey) insertKey (packLink doc sq) (orderTree v)) (\<lambda>t.
     Inr (v\<lparr>orderTree := t, keyFile := kf\<rparr>))))"

definition js_processInsert :: "('d, 'k) script \<Rightarrow> int \<Rightarrow> mutation \<Rightarrow> js_view \<Rightarrow> js_view res" where
  "js_processInsert S sq m v =
     (if mutStorage m \<noteq> viewStorage v then Inr v else js_insert S (mutDocument m) sq (mutBuffer m) v)"

definition js_processModify :: "('d, 'k) script \<Rightarrow> int \<Rightarrow> mutation \<Rightarrow> js_view \<Rightarrow> js_view res" where
  "js_processModify S sq m v =
     (if mutStorage m \<noteq> viewStorage v then Inr v else js_insert S (mutDocument m) sq (mutBuffer m) v)"

section \<open>Queries\<close>

record query_request =
  qSequence :: int
  useFromKey :: bool
  useToKey :: bool
  fromKey :: "byte list"
  toKey :: "byte list"
  qLimit :: int

definition query_request_new :: query_request where
  "query_request_new = \<lparr>qSequence = 0, useFromKey = False, useToKey = False, fromKey = [], toKey = [], qLimit = -1\<rparr>"

text \<open>\<open>acquireInstance\<close>; the end key is computed there and not used by anything.\<close>

definition js_begin :: "('d, 'k) script \<Rightarrow> query_request \<Rightarrow> js_view \<Rightarrow> (bref \<times> (keyref, byte list) btree) res" where
  "js_begin S q v =
     (if useFromKey q then findNext (compareKey S (keyFile v) (extractKey S (fromKey q))) (orderTree v)
      else findFirst (orderTree v))"

text \<open>\<open>onFetchData\<close>: the row is reported when the entry is that of the version the fetch returned.\<close>

definition onFetchData :: "('d, 'k) script \<Rightarrow> int \<Rightarrow> int \<Rightarrow> int \<Rightarrow> byte list \<Rightarrow> byte list list \<times> int \<Rightarrow> byte list list \<times> int" where
  "onFetchData S doc expected sq buffer x = (case x of (items, nr) \<Rightarrow>
     if sq \<noteq> expected then (items, nr) else (items @ [report S (extractDoc S doc buffer)], nr + 1))"

text \<open>
  \<open>fetchItem\<close>, \<open>onFetchComplete\<close> and \<open>complete\<close>. \<open>ft\<close> is the fetch of the engine from the storage of the
  view; \<open>nr\<close> is \<open>p_fetchedCount\<close>, which the constructor does not initialise. The result are the
  batches handed to the client.
\<close>

definition flush_items :: "byte list list \<Rightarrow> byte list list list \<Rightarrow> byte list list \<times> byte list list list" where
  "flush_items items out = (if length items \<ge> 1000 then ([], out @ [items]) else (items, out))"

definition complete_query :: "iter \<Rightarrow> byte list list \<Rightarrow> byte list list list \<Rightarrow> (keyref, byte list) btree
    \<Rightarrow> (byte list list list \<times> (keyref, byte list) btree) res" where
  "complete_query it items out t =
     (let out = (if length items > 0 then out @ [items] else out) in
      res_bind (iter_destroy it t) (\<lambda>t. Inr (out, t)))"

fun fetchItem :: "('d, 'k) script \<Rightarrow> (int \<Rightarrow> int \<Rightarrow> fetch_result) \<Rightarrow> query_request \<Rightarrow> nat \<Rightarrow> int \<Rightarrow> byte list list
    \<Rightarrow> byte list list list \<Rightarrow> iter \<Rightarrow> (keyref, byte list) btree \<Rightarrow> (byte list list list \<times> (keyref, byte list) btree) res" where
  "fetchItem S ft q 0 nr items out it t = Inl OutOfFuel"
| "fetchItem S ft q (Suc n) nr items out it t =
     (if \<not> iter_valid it then complete_query it items out t
      else if qLimit q \<noteq> -1 \<and> nr = qLimit q then complete_query it items out t
      else res_bind (iter_getValue it t) (\<lambda>link.
        let doc = link_document link; expected = link_sequence link in
        if doc = 0 then res_bind (iter_forward it t) (\<lambda>(it, t). fetchItem S ft q n nr items out it t)
        else case ft doc (qSequence q) of
          DocumentNotFound \<Rightarrow> Inl (LogicError ''Unexpected error during fetch'')
        | FetchData sq buffer \<Rightarrow>
            let (items, nr) = onFetchData S doc expected sq buffer (items, nr);
                (items, out) = flush_items items out in
            res_bind (iter_forward it t) (\<lambda>(it, t). fetchItem S ft q n nr items out it t)))"

definition js_query :: "('d, 'k) script \<Rightarrow> (int \<Rightarrow> int \<Rightarrow> fetch_result) \<Rightarrow> nat \<Rightarrow> int \<Rightarrow> query_request \<Rightarrow> js_view
    \<Rightarrow> (byte list list list \<times> js_view) res" where
  "js_query S ft fuel nr q v =
     res_bind (js_begin S q v) (\<lambda>(r, t).
     res_bind (iter_seek r new_iter t) (\<lambda>(it, t).
     res_bind (fetchItem S ft q fuel nr [] [] it t) (\<lambda>(out, t).
     Inr (out, v\<lparr>orderTree := t\<rparr>))))"

declare fetchItem.simps(2) [simp del]

end
