(* ===== verification/Js_View_Spec.thy ===== *)
theory Js_View_Spec
  imports Js_View Versions Flex_Storage "HOL-Library.Multiset"
begin

text \<open>
  The view refines a list of versions that is sorted by the keys the script computes, and a query
  reports, in this order, exactly the versions that are visible at its sequence id.
\<close>

section \<open>Trees under another order\<close>

text \<open>The order is only looked at on the keys that are in the tree.\<close>

lemma sorted_ents_cong:
  assumes "\<And>a b. a \<in> fst ` set es \<Longrightarrow> b \<in> fst ` set es \<Longrightarrow> kcmp' a b = kcmp a b"
  shows "sorted_ents kcmp' es = sorted_ents kcmp es"
  using assms unfolding sorted_ents_def by (intro iffI; elim sorted_wrt_mono_rel[rotated]) auto

lemma tree_inv_order:
  assumes "tree_inv kcmp c T t" "\<And>a b. a \<in> fst ` set (tents T) \<Longrightarrow> b \<in> fst ` set (tents T) \<Longrightarrow> kcmp' a b = kcmp a b"
  shows "tree_inv kcmp' c T t"
proof -
  have "sorted_ents kcmp' (tents T) = sorted_ents kcmp (tents T)" by (rule sorted_ents_cong) (rule assms(2))
  then show ?thesis using assms(1) by (simp add: tree_inv_def)
qed


section \<open>Insertion into related lists\<close>

lemma list_all2_split:
  assumes "list_all2 R xs ys" "\<And>x y. R x y \<Longrightarrow> P x \<longleftrightarrow> Q y"
  shows "list_all2 R (takeWhile P xs) (takeWhile Q ys)" "list_all2 R (dropWhile P xs) (dropWhile Q ys)"
    "length (takeWhile P xs) = length (takeWhile Q ys)"
  using assms by (induction rule: list_all2_induct) auto

lemma list_all2_ins_after2:
  assumes "list_all2 R xs ys" "\<And>x y. R x y \<Longrightarrow> cmp (fst x) k \<le> 0 \<longleftrightarrow> cmp' (fst y) k' \<le> 0" "R (k, v) (k', v')"
  shows "list_all2 R (ins_after cmp k v xs) (ins_after cmp' k' v' ys)"
  unfolding ins_after_def
  using list_all2_split[OF assms(1), of "\<lambda>x. cmp (fst x) k \<le> 0" "\<lambda>y. cmp' (fst y) k' \<le> 0"] assms(2,3)
  by (auto intro: list_all2_appendI)

section \<open>The invariant\<close>

text \<open>The comparison of two entries of the tree, as the script sees them through the key file.\<close>

definition file_order :: "('d, 'k) script \<Rightarrow> raf \<Rightarrow> keyref \<Rightarrow> keyref \<Rightarrow> int" where
  "file_order S kf a b = compareKey S kf (deserializeKey S (read_key kf b)) a"

text \<open>The abstract entries: the key and the version it was computed from.\<close>

definition entry_rel :: "('d, 'k) script \<Rightarrow> raf \<Rightarrow> nat \<Rightarrow> (keyref \<times> byte list) \<Rightarrow> ('k \<times> version) \<Rightarrow> bool" where
  "entry_rel S kf p x y \<longleftrightarrow> unat (krOffset (fst x)) + unat (krLength (fst x)) \<le> p
     \<and> read_key kf (fst x) = serializeKey S (fst y) \<and> (case snd y of (d, s, b) \<Rightarrow> snd x = packLink d s)"

definition view_inv :: "('d, 'k) script \<Rightarrow> ('k \<times> version) list \<Rightarrow> js_view \<Rightarrow> bool" where
  "view_inv S es v \<longleftrightarrow> raf_ok (keyFile v)
     \<and> (\<exists>T. tree_inv (file_order S (keyFile v)) js_cfg T (orderTree v)
          \<and> list_all2 (entry_rel S (keyFile v) (keyPointer v)) (tents T) es)"

definition view_key :: "('d, 'k) script \<Rightarrow> version \<Rightarrow> 'k" where
  "view_key S x = (case x of (d, s, b) \<Rightarrow> keyOf S (extractDoc S d b))"

definition view_ins :: "('d, 'k) script \<Rightarrow> version \<Rightarrow> ('k \<times> version) list \<Rightarrow> ('k \<times> version) list" where
  "view_ins S x = ins_after (scompare S) (view_key S x) x"

lemma js_cfg_ok: "cfg_ok js_cfg"
  by (simp add: cfg_ok_def js_cfg_def entsPerInner_def entsPerLeaf_def)

lemma file_order_order: "script_ok S \<Longrightarrow> key_order (file_order S kf)"
  unfolding script_ok_def key_order_def file_order_def compareKey_def by blast

lemma read_key_bytes:
  assumes "raf_ok kf"
  shows "read_key kf r = map (\<lambda>i. byte_at kf (unat (krOffset r) + i)) [0..<unat (krLength r)]"
  using raf_read_correct[OF assms, of "unat (krOffset r)" "unat (krLength r)"] by (auto simp: read_key_def)

lemma createView_files_inv: "\<exists>v. createView_files st = Inr v \<and> view_inv S [] v \<and> keyPointer v = 0 \<and> viewStorage v = st"
proof -
  let ?v = "\<lparr>viewStorage = st, keyPointer = 0, orderTree = tree0, keyFile = raf_create\<rparr>"
  have "view_inv S [] ?v" using tree0_inv raf_create_ok(1) by (auto simp: view_inv_def intro!: exI[of _ "Lf 1 []"])
  then show ?thesis by (simp add: createView_files_def createTree_tree0)
qed

lemma js_insert_correct:
  assumes S: "script_ok S" and inv: "view_inv S es v"
    and bound: "keyPointer v + length (serializeKey S (view_key S (d, s, b))) < 2 ^ 64"
  shows "\<exists>v'. js_insert S d s b v = Inr v' \<and> view_inv S (view_ins S (d, s, b) es) v'
    \<and> keyPointer v' = keyPointer v + length (serializeKey S (view_key S (d, s, b))) \<and> viewStorage v' = viewStorage v"
proof -
  let ?k = "view_key S (d, s, b)"
  let ?ser = "serializeKey S ?k" and ?p = "keyPointer v"
  let ?r = "\<lparr>krOffset = word_of_nat ?p, krLength = word_of_nat (length ?ser)\<rparr> :: keyref"
  obtain T where I: "raf_ok (keyFile v)" "tree_inv (file_order S (keyFile v)) js_cfg T (orderTree v)"
    "list_all2 (entry_rel S (keyFile v) ?p) (tents T) es"
    using inv by (auto simp: view_inv_def)
  have off: "unat (krOffset ?r) = ?p" using bound by (simp add: unat_of_nat)
  have "length ?ser < 2 ^ 31" using S by (simp add: script_ok_def)
  then have len: "unat (krLength ?r) = length ?ser" by (simp add: unat_of_nat)
  obtain kf where W: "raf_write ?p ?ser (keyFile v) = Inr kf" "raf_ok kf"
    "\<And>a. byte_at kf a = (if ?p \<le> a \<and> a < ?p + length ?ser then ?ser ! (a - ?p) else byte_at (keyFile v) a)"
    using raf_write_correct[OF I(1), of ?p ?ser] by blast
  have keep: "read_key kf r = read_key (keyFile v) r" if "unat (krOffset r) + unat (krLength r) \<le> ?p" for r
    using that W(3) by (simp add: read_key_bytes[OF W(2)] read_key_bytes[OF I(1)])
  have new: "read_key kf ?r = ?ser"
    using W(3) off len by (intro nth_equalityI) (simp_all add: read_key_bytes[OF W(2)])
  have des: "deserializeKey S (serializeKey S k) = k" for k using S by (simp add: script_ok_def)
  have "\<forall>x \<in> set (tents T). unat (krOffset (fst x)) + unat (krLength (fst x)) \<le> ?p"
    using I(3) by (auto simp: list_all2_conv_all_nth all_set_conv_all_nth entry_rel_def)
  then have rng: "unat (krOffset r) + unat (krLength r) \<le> ?p" if "r \<in> fst ` set (tents T)" for r
    using that by auto
  have T': "tree_inv (file_order S kf) js_cfg T (orderTree v)"
    by (rule tree_inv_order[OF I(2)]) (simp add: file_order_def compareKey_def keep rng)
  have cmp: "compareKey S kf ?k = (\<lambda>e. file_order S kf e ?r)"
    by (rule ext) (simp add: file_order_def new des)
  obtain t T2 where B: "btree_insert js_cfg (compareKey S kf ?k) ?r (packLink d s) (orderTree v) = Inr t"
    "tree_inv (file_order S kf) js_cfg T2 t" "tents T2 = ins_after (file_order S kf) ?r (packLink d s) (tents T)"
    using key_order.insert_correct[OF file_order_order[OF S] T' js_cfg_ok, of ?r "packLink d s"] unfolding cmp by blast
  let ?v = "v\<lparr>keyPointer := ?p + length ?ser, orderTree := t, keyFile := kf\<rparr>"
  have "list_all2 (entry_rel S kf (?p + length ?ser)) (tents T) es"
    using I(3) keep by (auto simp: entry_rel_def elim!: list_all2_mono)
  then have "list_all2 (entry_rel S kf (?p + length ?ser)) (tents T2) (view_ins S (d, s, b) es)"
    unfolding B(3) view_ins_def
    by (rule list_all2_ins_after2) (use off len new des in \<open>auto simp: entry_rel_def file_order_def compareKey_def\<close>)
  then have "view_inv S (view_ins S (d, s, b) es) ?v" using W(2) B(2) by (auto simp: view_inv_def)
  moreover have "js_insert S d s b v = Inr ?v"
    using W(1) B(1) off by (simp add: js_insert_def view_key_def Let_def)
  ultimately show ?thesis by (intro exI[of _ ?v]) simp
qed

section \<open>Queries\<close>

lemma link_packLink [simp]:
  "in_int64 d \<Longrightarrow> link_document (packLink d s) = d" "in_int64 s \<Longrightarrow> link_sequence (packLink d s) = s"
  by (simp_all add: link_document_def link_sequence_def packLink_def)

definition ids_ok :: "version \<Rightarrow> bool" where
  "ids_ok x = (case x of (d, s, b) \<Rightarrow> in_int64 d \<and> in_int64 s)"





text \<open>The iterator and the tree when the query stands at entry \<open>j\<close>.\<close>

definition at_entry :: "('k, 'v) tree \<Rightarrow> ('k, 'v) btree \<Rightarrow> nat \<Rightarrow> iter \<times> ('k, 'v) btree" where
  "at_entry T t j = (if j < length (tents T) then (iter_of (trefs T ! j), addUse (fst (trefs T ! j)) t)
     else (iter_of no_ref, t))"


lemma at_entry_valid:
  assumes "tree_inv kcmp c T t"
  shows "iter_valid (fst (at_entry T t j)) \<longleftrightarrow> j < length (tents T)"
  using tree_inv_ref_pos[OF assms] by (simp add: at_entry_def iter_of_def no_ref_def iter_valid_def)

lemma at_entry_forward:
  assumes "tree_inv kcmp c T t" "j < length (tents T)"
  shows "iter_forward (fst (at_entry T t j)) (snd (at_entry T t j)) = Inr (at_entry T t (Suc j))"
  using iter_forward_correct[OF assms] assms(2) by (simp add: at_entry_def)




text \<open>One turn of the loop, when the limit is not reached.\<close>

lemma fetchItem_at:
  assumes T: "tree_inv kcmp c T t" and rel: "list_all2 (entry_rel S kf p) (tents T) es"
    and j: "j < length es" "es ! j = (k, d, s, b)" and ids: "in_int64 d" "in_int64 s"
    and lim: "qLimit q = -1 \<or> nr \<noteq> qLimit q"
  shows "fetchItem S ft q (Suc n) nr items out (fst (at_entry T t j)) (snd (at_entry T t j)) =
    (let go = (\<lambda>nr items out. fetchItem S ft q n nr items out (fst (at_entry T t (Suc j))) (snd (at_entry T t (Suc j)))) in
     if d = 0 then go nr items out
     else case ft d (qSequence q) of DocumentNotFound \<Rightarrow> Inl (LogicError ''Unexpected error during fetch'')
      | FetchData sq buffer \<Rightarrow> let (items, nr) = onFetchData S d s sq buffer (items, nr); (items, out) = flush_items items out in
          go nr items out)"
proof -
  obtain it u where at: "at_entry T t j = (it, u)" by fastforce
  have jl: "j < length (tents T)" using list_all2_lengthD[OF rel] j(1) by simp
  have valid: "iter_valid it" using at_entry_valid[OF T, of j] at jl by simp
  obtain it' u' where at': "at_entry T t (Suc j) = (it', u')" by fastforce
  have fwd: "iter_forward it u = Inr (it', u')" using at_entry_forward[OF T jl] at at' by simp
  have "snd (tents T ! j) = packLink d s" using list_all2_nthD[OF rel jl] j(2) by (simp add: entry_rel_def)
  then have val: "iter_getValue it u = Inr (packLink d s)"
    using iter_entry_correct[OF T jl] at jl by (simp add: iter_getValue_def at_entry_def)
  show ?thesis
    unfolding at at' fst_conv snd_conv fetchItem.simps(2) val res_bind_simps Let_def link_packLink(1)[OF ids(1)]
      link_packLink(2)[OF ids(2)] fwd prod.case
    using valid lim by auto
qed


lemma iter_seek_at:
  assumes "tree_inv kcmp c T t"
  shows "iter_seek (if j < length (tents T) then trefs T ! j else no_ref) new_iter t = Inr (at_entry T t j)"
  using iter_seek_correct[OF assms]
  by (simp add: at_entry_def iter_seek_def new_iter_def no_ref_def iter_of_def)




section \<open>Histories\<close>

fun js_apply :: "('d, 'k) script \<Rightarrow> version list \<Rightarrow> js_view \<Rightarrow> js_view res" where
  "js_apply S [] v = Inr v"
| "js_apply S ((d, s, b) # vs) v = res_bind (js_insert S d s b v) (js_apply S vs)"

definition key_bytes :: "('d, 'k) script \<Rightarrow> version list \<Rightarrow> nat" where
  "key_bytes S vs = sum_list (map (\<lambda>x. length (serializeKey S (view_key S x))) vs)"

lemma js_apply_correct:
  assumes S: "script_ok S"
  shows "view_inv S es v \<Longrightarrow> keyPointer v + key_bytes S vs < 2 ^ 64 \<Longrightarrow>
   \<exists>v'. js_apply S vs v = Inr v' \<and> view_inv S (fold (view_ins S) vs es) v' \<and> keyPointer v' = keyPointer v + key_bytes S vs"
proof (induction vs arbitrary: es v)
  case (Cons x vs)
  obtain d s b where x: "x = (d, s, b)" by (cases x)
  have "keyPointer v + length (serializeKey S (view_key S (d, s, b))) < 2 ^ 64" using Cons.prems(2) x by (simp add: key_bytes_def)
  from js_insert_correct[OF S Cons.prems(1) this] obtain v1 where v1: "js_insert S d s b v = Inr v1"
    "view_inv S (view_ins S x es) v1" "keyPointer v1 = keyPointer v + length (serializeKey S (view_key S x))" using x by blast
  moreover have "keyPointer v1 + key_bytes S vs < 2 ^ 64" using Cons.prems(2) v1(3) by (simp add: key_bytes_def)
  ultimately show ?case using Cons.IH[OF v1(2)] x by (auto simp: key_bytes_def)
qed (simp add: key_bytes_def)


text \<open>Versions sorted by their keys, those with equal keys in the order in which they were written.\<close>

definition by_key :: "('d, 'k) script \<Rightarrow> version list \<Rightarrow> ('k \<times> version) list" where
  "by_key S vs = fold (view_ins S) vs []"

lemma by_key_snoc: "by_key S (vs @ [x]) = ins_after (scompare S) (view_key S x) x (by_key S vs)"
  by (simp add: by_key_def view_ins_def)


lemma by_key_set: "set (by_key S vs) = (\<lambda>x. (view_key S x, x)) ` set vs"
  by (induction vs rule: rev_induct) (simp_all add: by_key_snoc set_ins_after, simp add: by_key_def)

lemma by_key_length: "length (by_key S vs) = length vs"
  by (induction vs rule: rev_induct) (simp_all add: by_key_snoc, simp add: by_key_def)









text \<open>A document that the fetch does not find ends the query with an exception.\<close>

lemma fetchItem_throws:
  assumes T: "tree_inv kcmp c T t" and rel: "list_all2 (entry_rel S kf p) (tents T) es"
    and ids: "\<forall>e \<in> set es. ids_ok (snd e)" and i: "i < length es" "es ! i = (k, d, s, b)"
    and nf: "d \<noteq> 0" "ft d (qSequence q) = DocumentNotFound" and lim: "qLimit q = -1"
  shows "j \<le> i \<Longrightarrow> i < n + j \<Longrightarrow>
    fetchItem S ft q n nr items out (fst (at_entry T t j)) (snd (at_entry T t j)) = Inl (LogicError ''Unexpected error during fetch'')"
proof (induction n arbitrary: j nr items out)
  case (Suc n)
  obtain k' d' s' b' where e: "es ! j = (k', d', s', b')" by (metis prod_cases4)
  have jl: "j < length es" using Suc.prems(1) i(1) by simp
  have "ids_ok (d', s', b')" using ids nth_mem[OF jl] e by fastforce
  then have "in_int64 d'" "in_int64 s'" by (simp_all add: ids_ok_def)
  note step = fetchItem_at[OF T rel jl e this disjI1[OF lim], of ft n nr items out]
  show ?case
  proof (cases "j = i")
    case True
    then show ?thesis using step e i(2) nf by simp
  next
    case False
    then have "Suc j \<le> i" "i < n + Suc j" using Suc.prems by simp_all
    from Suc.IH[OF this] show ?thesis unfolding step by (auto simp: split_def split: fetch_result.splits)
  qed
qed simp

text \<open>
  The condition that every document is visible is needed: when a document was created after the
  sequence id that a query without begin key and limit asks for, the query throws \<open>logic_error\<close> instead
  of leaving the document out, wherever it stands in the order.
\<close>

theorem view_query_old_snapshot_throws:
  assumes "script_ok S" "key_bytes S vs < 2 ^ 64" "\<forall>(d, s, b) \<in> set vs. in_int64 d \<and> in_int64 s"
    "(d, s, b) \<in> set vs" "d \<noteq> 0" "visible d (qSequence q) vs = DocumentNotFound" "qLimit q = -1" "\<not> useFromKey q"
  shows "res_bind (createView_files st) (\<lambda>v. res_bind (js_apply S vs v) (js_query S (\<lambda>d s. visible d s vs) (Suc (length vs)) nr q))
    = Inl (LogicError ''Unexpected error during fetch'')"
proof -
  obtain v0 where v0: "createView_files st = Inr v0" "view_inv S [] v0" "keyPointer v0 = 0"
    using createView_files_inv[of st S] by blast
  obtain v where v: "js_apply S vs v0 = Inr v" "view_inv S (by_key S vs) v"
    using js_apply_correct[OF assms(1) v0(2), of vs] assms(2) v0(3) by (auto simp: by_key_def)
  obtain T where T: "tree_inv (file_order S (keyFile v)) js_cfg T (orderTree v)"
    "list_all2 (entry_rel S (keyFile v) (keyPointer v)) (tents T) (by_key S vs)" using v(2) by (auto simp: view_inv_def)
  have "(view_key S (d, s, b), d, s, b) \<in> set (by_key S vs)" using assms(4) by (simp add: by_key_set)
  then obtain i where i: "i < length (by_key S vs)" "by_key S vs ! i = (view_key S (d, s, b), d, s, b)"
    by (metis in_set_conv_nth)
  have "js_begin S q v = Inr (if 0 < length (tents T) then trefs T ! 0 else no_ref, orderTree v)"
    using assms(8) key_order.findFirst_correct[OF file_order_order[OF assms(1)] T(1)] length_trefs[of T]
    by (auto simp: js_begin_def hd_conv_nth simp flip: length_greater_0_conv)
  moreover have "\<forall>e \<in> set (by_key S vs). ids_ok (snd e)" using assms(3) by (auto simp: by_key_set ids_ok_def)
  ultimately have "js_query S (\<lambda>d s. visible d s vs) (Suc (length vs)) nr q v = Inl (LogicError ''Unexpected error during fetch'')"
    using fetchItem_throws[OF T _ i assms(5), where ft = "\<lambda>d s. visible d s vs" and q = q and j = 0 and n = "Suc (length vs)" and nr = nr and items = "[]" and out = "[]"]
      iter_seek_at[OF T(1), of 0] assms(6,7) i(1)
    by (simp add: js_query_def split_def by_key_length)
  then show ?thesis using v0(1) v(1) by simp
qed

section \<open>Instances\<close>


text \<open>A script that orders documents by their length.\<close>

definition demo_script :: "(byte list, 64 word) script" where
  "demo_script = \<lparr>extractDoc = (\<lambda>d b. b), extractKey = (\<lambda>b. of_nat (length b)), keyOf = (\<lambda>b. of_nat (length b)),
     scompare = (\<lambda>a b. if a < b then -1 else if b < a then 1 else 0), serializeKey = packLe64, deserializeKey = unpackLe64,
     report = (\<lambda>b. b)\<rparr>"

lemma demo_script_ok: "script_ok demo_script"
  proof -
  have "key_order (scompare demo_script)" by unfold_locales (auto simp: demo_script_def split: if_splits)
  moreover have "length (packLe64 k) < 2 ^ 31" for k by (simp add: packLe64_def)
  ultimately show ?thesis by (simp add: script_ok_def) (simp add: demo_script_def)
qed

definition demo_query :: query_request where
  "demo_query = query_request_new\<lparr>qSequence := 3\<rparr>"


theorem view_query_old_snapshot_throws_witness:
  "res_bind (createView_files 0) (\<lambda>v. res_bind (js_apply demo_script [(1, 1, [9]), (2, 5, [5])] v)
     (js_query demo_script (\<lambda>d s. visible d s [(1, 1, [9]), (2, 5, [5])]) (Suc (length [(1 :: int, 1 :: int, [9 :: byte]), (2, 5, [5])])) 0 demo_query))
    = Inl (LogicError ''Unexpected error during fetch'')"
proof (rule view_query_old_snapshot_throws[OF demo_script_ok])
  show "(2, 5, [5]) \<in> set [(1, 1, [9]), (2, 5, [5])]" by simp
qed (simp_all add: key_bytes_def demo_script_def packLe64_def in_int64_def visible_def demo_query_def query_request_new_def)

text \<open>
  The upper end of a query's range has no effect: two queries that differ only in the end key are
  answered alike, for every script, storage and view.
\<close>

theorem view_query_ignores_toKey:
  "js_query S ft fuel nr (q\<lparr>useToKey := u, toKey := k\<rparr>) v = js_query S ft fuel nr q v"
proof -
  let ?q = "q\<lparr>useToKey := u, toKey := k\<rparr>"
  have q: "qSequence ?q = qSequence q" "qLimit ?q = qLimit q" by simp_all
  have "fetchItem S ft ?q n = fetchItem S ft q n" for n
  proof (induction n)
    case (Suc n)
    show ?case by (intro ext) (unfold fetchItem.simps(2) Suc.IH q, rule refl)
  qed (intro ext, simp)
  then show ?thesis by (simp add: js_query_def js_begin_def)
qed

section \<open>The pool of instances\<close>

text \<open>Nobody waits while an instance is idle, and no instance is lost: \<open>used\<close> are those handed out.\<close>

definition pool_ok :: "nat list \<Rightarrow> nat list \<Rightarrow> js_pool \<Rightarrow> bool" where
  "pool_ok insts used p \<longleftrightarrow> (idleInstances p = [] \<or> waitForInstance p = []) \<and> mset (idleInstances p @ used) = mset insts"

lemma grabInstance_ok:
  assumes "pool_ok insts used p"
  shows "case grabInstance w p of (None, p') \<Rightarrow> pool_ok insts used p' \<and> mset used = mset insts
    | (Some (w', i), p') \<Rightarrow> w' = w \<and> pool_ok insts (i # used) p'"
  using assms by (auto simp: grabInstance_def pool_ok_def split: list.splits)

lemma releaseInstance_ok:
  assumes "pool_ok insts (i # used) p"
  shows "case releaseInstance i p of (None, p') \<Rightarrow> waitForInstance p' = [] \<and> pool_ok insts used p'
    | (Some (w, i'), p') \<Rightarrow> i' = i \<and> waitForInstance p = w # waitForInstance p' \<and> pool_ok insts (i # used) p'"
  using assms by (auto simp: releaseInstance_def pool_ok_def split: list.splits)

end
