(* ===== verification/Queued_View_Driver.thy ===== *)
theory Queued_View_Driver
  imports Queued_Driver
begin

text \<open>
  \<open>QueuedViewDriver\<close> (\<open>shard/src/db/view-driver.cpp\<close>), translated on its own although it repeats the
  code of the storage driver: the result is that the two are the same machine, so the theorems on
  the storage driver hold for views, with queries in place of fetches.
\<close>

section \<open>State\<close>

record ('d, 'q) vdriver =
  vcurrentSeq :: int
  vsequenceQueue :: "seq_item list"
  queryQueue :: "'q list"
  veventCount :: nat
  vactiveRequests :: int
  vrequestPhase :: bool
  vflying :: "'q list"
  vinner :: 'd
  vctl :: control

definition v_init :: "'d \<Rightarrow> ('d, 'q) vdriver" where
  "v_init d = \<lparr>vcurrentSeq = 0, vsequenceQueue = [], queryQueue = [], veventCount = 0,
     vactiveRequests = 0, vrequestPhase = True, vflying = [], vinner = d, vctl = AtProcess\<rparr>"

section \<open>Methods called from outside\<close>

definition v_sequence :: "int \<Rightarrow> mutation list \<Rightarrow> ('d, 'q) vdriver \<Rightarrow> ('d, 'q) vdriver" where
  "v_sequence sid muts v =
    (let v = v\<lparr>vsequenceQueue := vsequenceQueue v @ [(sid, muts)]\<rparr> in v\<lparr>veventCount := veventCount v + 1\<rparr>)"

definition v_query :: "'q \<Rightarrow> ('d, 'q) vdriver \<Rightarrow> ('d, 'q) vdriver" where
  "v_query r v =
    (let v = (if vrequestPhase v
       then v\<lparr>vactiveRequests := vactiveRequests v + 1, vflying := vflying v @ [r]\<rparr>
       else v\<lparr>queryQueue := queryQueue v @ [r]\<rparr>) in
     v\<lparr>veventCount := veventCount v + 1\<rparr>)"

definition v_finishRequest :: "('d, 'q) vdriver \<Rightarrow> ('d, 'q) vdriver" where
  "v_finishRequest v = v\<lparr>vactiveRequests := vactiveRequests v - 1\<rparr>"

definition v_complete :: "('d, 'q, 'r) hooks \<Rightarrow> nat \<Rightarrow> ('d, 'q) vdriver \<Rightarrow> ('r \<times> ('d, 'q) vdriver) res" where
  "v_complete H i v =
     res_bind (hkRequest H (vflying v ! i) (vinner v)) (\<lambda>(r, d).
     Inr (r, v_finishRequest (v\<lparr>vinner := d, vflying := take i (vflying v) @ drop (Suc i) (vflying v)\<rparr>)))"

section \<open>ProcessClosure\<close>

definition v_sequencePhase :: "('d, 'q) vdriver \<Rightarrow> ('d, 'q) vdriver" where
  "v_sequencePhase v =
     (if vsequenceQueue v = [] then v\<lparr>vrequestPhase := True, vctl := AtUnqueue (length (queryQueue v) + 1)\<rparr>
      else v\<lparr>vsequenceQueue := tl (vsequenceQueue v), vctl := AtMutation (hd (vsequenceQueue v)) 0\<rparr>)"

definition v_endRequestPhase :: "('d, 'q) vdriver \<Rightarrow> ('d, 'q) vdriver" where
  "v_endRequestPhase v = (if vactiveRequests v = 0 then v_sequencePhase v else v\<lparr>vctl := AtEndRequest\<rparr>)"

definition v_process :: "('d, 'q) vdriver \<Rightarrow> ('d, 'q) vdriver" where
  "v_process v =
     (if vsequenceQueue v \<noteq> [] then v_endRequestPhase (v\<lparr>vrequestPhase := False\<rparr>) else v\<lparr>vctl := AtProcess\<rparr>)"

definition v_unqueueRequest :: "nat \<Rightarrow> ('d, 'q) vdriver \<Rightarrow> ('d, 'q) vdriver" where
  "v_unqueueRequest tasks v =
     (if queryQueue v = [] then v_process v
      else v\<lparr>queryQueue := tl (queryQueue v), vactiveRequests := vactiveRequests v + 1,
        vflying := vflying v @ [hd (queryQueue v)], vctl := AtUnqueue tasks\<rparr>)"

definition v_processSequence :: "('d, 'q, 'r) hooks \<Rightarrow> seq_item \<Rightarrow> nat \<Rightarrow> ('d, 'q) vdriver \<Rightarrow> ('d, 'q) vdriver res" where
  "v_processSequence H item i v =
     (if i = length (snd item) then Inr (v\<lparr>vcurrentSeq := fst item, vctl := AtSequencePhase\<rparr>)
      else
        let m = snd item ! i in
        res_bind (if mutType m = MutInsert then hkInsert H (fst item) m (vinner v)
          else if mutType m = MutModify then hkModify H (fst item) m (vinner v)
          else Inl (LogicError ''Illegal mutation type'')) (\<lambda>d.
        Inr (v\<lparr>vinner := d, vctl := AtMutation item (Suc i)\<rparr>)))"

definition v_internal :: "('d, 'q, 'r) hooks \<Rightarrow> ('d, 'q) vdriver \<Rightarrow> ('d, 'q) vdriver res option" where
  "v_internal H v = (case vctl v of
     AtProcess \<Rightarrow> if veventCount v > 0 then Some (Inr (v_process (v\<lparr>veventCount := 0\<rparr>))) else None
   | AtEndRequest \<Rightarrow> if veventCount v > 0 then Some (Inr (v_endRequestPhase (v\<lparr>veventCount := 0\<rparr>))) else None
   | AtSequencePhase \<Rightarrow> Some (Inr (v_sequencePhase v))
   | AtMutation item i \<Rightarrow> Some (v_processSequence H item i v)
   | AtUnqueue 0 \<Rightarrow> None
   | AtUnqueue (Suc n) \<Rightarrow> Some (Inr (v_unqueueRequest n v)))"

text \<open>The runs of the driver, as for storages.\<close>

inductive vrun :: "('d, 'q, 'r) hooks \<Rightarrow> 'd \<Rightarrow> seq_item list \<Rightarrow> ('d, 'q) vdriver \<Rightarrow> bool"
  for H :: "('d, 'q, 'r) hooks" and d0 :: 'd where
  VInit: "vrun H d0 [] (v_init d0)"
| VSequence: "vrun H d0 ss v \<Longrightarrow> vrun H d0 (ss @ [(sid, muts)]) (v_sequence sid muts v)"
| VQuery: "vrun H d0 ss v \<Longrightarrow> vrun H d0 ss (v_query r v)"
| VComplete: "vrun H d0 ss v \<Longrightarrow> i < length (vflying v) \<Longrightarrow> v_complete H i v = Inr (r, v') \<Longrightarrow> vrun H d0 ss v'"
| VInternal: "vrun H d0 ss v \<Longrightarrow> v_internal H v = Some (Inr v') \<Longrightarrow> vrun H d0 ss v'"

section \<open>The same machine\<close>

definition as_queued :: "('d, 'q) vdriver \<Rightarrow> ('d, 'q) qdriver" where
  "as_queued v = \<lparr>qcurrentSeq = vcurrentSeq v, sequenceQueue = vsequenceQueue v, requestQueue = queryQueue v,
     eventCount = veventCount v, activeRequests = vactiveRequests v, requestPhase = vrequestPhase v,
     flying = vflying v, inner = vinner v, ctl = vctl v\<rparr>"

lemma as_queued_simps [simp]:
  "sequenceQueue (as_queued v) = vsequenceQueue v" "requestQueue (as_queued v) = queryQueue v"
  "eventCount (as_queued v) = veventCount v" "activeRequests (as_queued v) = vactiveRequests v"
  "requestPhase (as_queued v) = vrequestPhase v" "flying (as_queued v) = vflying v" "inner (as_queued v) = vinner v"
  "ctl (as_queued v) = vctl v" "qcurrentSeq (as_queued v) = vcurrentSeq v"
  by (simp_all add: as_queued_def)

lemma as_queued_wait [simp]: "as_queued (v\<lparr>veventCount := 0\<rparr>) = (as_queued v)\<lparr>eventCount := 0\<rparr>"
  by (simp add: as_queued_def)

lemma as_queued_store [simp]:
  "as_queued (v\<lparr>vinner := d, vflying := fl\<rparr>) = (as_queued v)\<lparr>inner := d, flying := fl\<rparr>"
  by (simp add: as_queued_def)

lemma as_queued_inj: "as_queued v = as_queued w \<longleftrightarrow> v = w"
  by (auto simp: as_queued_def)

lemma as_queued_calls [simp]:
  "as_queued (v_init d) = q_init d"
  "as_queued (v_sequence sid muts v) = q_sequence sid muts (as_queued v)"
  "as_queued (v_query r v) = q_request r (as_queued v)"
  "as_queued (v_finishRequest v) = finishRequest (as_queued v)"
  by (simp_all add: as_queued_def v_init_def q_init_def v_sequence_def q_sequence_def v_query_def q_request_def
      v_finishRequest_def finishRequest_def Let_def)

lemma as_queued_phases [simp]:
  "as_queued (v_sequencePhase v) = sequencePhase (as_queued v)"
  "as_queued (v_endRequestPhase v) = endRequestPhase (as_queued v)"
  "as_queued (v_process v) = process (as_queued v)"
  "as_queued (v_unqueueRequest n v) = unqueueRequest n (as_queued v)"
  by (auto simp: as_queued_def v_sequencePhase_def sequencePhase_def v_endRequestPhase_def endRequestPhase_def
      v_process_def process_def v_unqueueRequest_def unqueueRequest_def split: list.splits)

lemma as_queued_processSequence:
  "map_sum id as_queued (v_processSequence H item i v) = processSequence H item i (as_queued v)"
proof -
  have a: "(if mutType m = MutInsert then hkInsert H (fst item) m (vinner v)
          else if mutType m = MutModify then hkModify H (fst item) m (vinner v)
          else Inl (LogicError ''Illegal mutation type'')) = apply_mutation H (fst item) m (vinner v)" for m
    by (simp add: apply_mutation_def split: mut_type.splits)
  show ?thesis unfolding v_processSequence_def Let_def a
    by (cases "apply_mutation H (fst item) (snd item ! i) (vinner v)") (simp_all add: processSequence_def as_queued_def)
qed

lemma as_queued_internal: "map_option (map_sum id as_queued) (v_internal H v) = q_internal H (as_queued v)"
  by (auto simp: v_internal_def q_internal_def as_queued_processSequence split: control.splits nat.splits)

lemma as_queued_complete:
  "map_sum id (map_prod id as_queued) (v_complete H i v) = complete_request H i (as_queued v)"
proof (cases "hkRequest H (vflying v ! i) (vinner v)")
  case (Inr x)
  obtain r d where "x = (r, d)" by (cases x)
  then show ?thesis using Inr by (simp add: v_complete_def complete_request_def)
qed (simp add: v_complete_def complete_request_def)

lemma vrun_qrun: "vrun H d0 ss v \<Longrightarrow> qrun H d0 ss (as_queued v)"
proof (induction rule: vrun.induct)
  case (VComplete ss v i r v')
  have "complete_request H i (as_queued v) = Inr (r, as_queued v')"
    using as_queued_complete[of H i v] VComplete.hyps(3) by simp
  moreover have "i < length (flying (as_queued v))" using VComplete.hyps(2) by simp
  ultimately show ?case using qrun.Complete[OF VComplete.IH] by blast
next
  case (VInternal ss v v')
  have "q_internal H (as_queued v) = Some (Inr (as_queued v'))"
    using as_queued_internal[of H v] VInternal.hyps(2) by simp
  then show ?case by (rule qrun.Internal[OF VInternal.IH])
qed (simp_all add: qrun.Init qrun.Sequence qrun.Request)

text \<open>
  C39. The driver of views is the driver of storages: under the renaming of the state, which is one to
  one, its constructor, its calls, the completion of a query and every step of its process closure
  do what their counterparts do.
\<close>

theorem view_driver_same:
  "inj (as_queued :: ('d, 'q) vdriver \<Rightarrow> ('d, 'q) qdriver)
   \<and> as_queued (v_init d :: ('d, 'q) vdriver) = q_init d
   \<and> as_queued (v_sequence sid muts v) = q_sequence sid muts (as_queued v)
   \<and> as_queued (v_query r v) = q_request r (as_queued v)
   \<and> map_sum id (map_prod id as_queued) (v_complete H i v) = complete_request H i (as_queued v)
   \<and> map_option (map_sum id as_queued) (v_internal H v) = q_internal H (as_queued (v :: ('d, 'q) vdriver))"
  using as_queued_inj by (auto simp: inj_def as_queued_complete as_queued_internal)

end
