(* ===== verification/Js_View_Driver.thy ===== *)
theory Js_View_Driver
  imports Js_View_Spec Queued_View_Driver
begin

text \<open>
  A JavaScript view behind its queue: \<open>JsView\<close> provides the virtual methods of \<open>QueuedViewDriver\<close>. The
  contract of the queue holds for it, with the versions of its base storage as the abstract content.
  A query brings along the fetch of the engine, the bound on the number of entries it may visit and
  the initial value of \<open>p_fetchedCount\<close>; its result is the rows or the exception it ends with.
\<close>

section \<open>The result of a query, whatever the storage answers\<close>






section \<open>The view as a store behind the queue\<close>




















end
