(* ===== verification/File_Io.thy ===== *)
theory File_Io
  imports Bytes
begin

text \<open>
  \<open>Linux::File\<close> (\<open>shard/src/os/linux.cpp\<close>) over a POSIX file: its bytes and the position of the
  descriptor. Writing past the end fills the gap with zeros; a read near the end delivers fewer bytes
  than asked for, which \<open>readSync\<close> and \<open>preadSync\<close> do not notice: the rest of the buffer keeps what
  it held before. System calls do not fail here.
\<close>

record lfile =
  fdata :: "byte list"
  fpos :: nat

record file_mode =
  modeCreate :: bool
  modeTrunc :: bool

text \<open>\<open>openSync\<close> on a path whose file has the given content, if it exists.\<close>

definition openSync :: "file_mode \<Rightarrow> byte list option \<Rightarrow> lfile res" where
  "openSync mode content = (case content of
     None \<Rightarrow> if modeCreate mode then Inr \<lparr>fdata = [], fpos = 0\<rparr> else Inl (RuntimeError ''Could not open file'')
   | Some bs \<Rightarrow> Inr \<lparr>fdata = (if modeTrunc mode then [] else bs), fpos = 0\<rparr>)"

definition write_at :: "nat \<Rightarrow> byte list \<Rightarrow> byte list \<Rightarrow> byte list" where
  "write_at pos bs content =
     take pos (content @ replicate (pos - length content) 0) @ bs @ drop (pos + length bs) content"

definition read_at :: "nat \<Rightarrow> byte list \<Rightarrow> byte list \<Rightarrow> byte list" where
  "read_at pos buffer content =
     (let got = take (length buffer) (drop pos content) in got @ drop (length got) buffer)"

definition writeSync :: "byte list \<Rightarrow> lfile \<Rightarrow> lfile" where
  "writeSync bs f = f\<lparr>fdata := write_at (fpos f) bs (fdata f), fpos := fpos f + length bs\<rparr>"

definition readSync :: "byte list \<Rightarrow> lfile \<Rightarrow> byte list \<times> lfile" where
  "readSync buffer f = (read_at (fpos f) buffer (fdata f),
     f\<lparr>fpos := fpos f + min (length buffer) (length (fdata f) - fpos f)\<rparr>)"

definition pwriteSync :: "nat \<Rightarrow> byte list \<Rightarrow> lfile \<Rightarrow> lfile" where
  "pwriteSync off bs f = f\<lparr>fdata := write_at off bs (fdata f)\<rparr>"

definition preadSync :: "nat \<Rightarrow> byte list \<Rightarrow> lfile \<Rightarrow> byte list" where
  "preadSync off buffer f = read_at off buffer (fdata f)"

definition seekTo :: "nat \<Rightarrow> lfile \<Rightarrow> lfile" where
  "seekTo pos f = f\<lparr>fpos := pos\<rparr>"

definition seekEnd :: "lfile \<Rightarrow> lfile" where
  "seekEnd f = f\<lparr>fpos := length (fdata f)\<rparr>"

definition lengthSync :: "lfile \<Rightarrow> nat" where
  "lengthSync f = length (fdata f)"

section \<open>Reading what was written\<close>

lemma length_read_at [simp]: "length (read_at pos buffer content) = length buffer"
  by (simp add: read_at_def Let_def)

lemma length_write_at: "length (write_at pos bs content) = max (length content) (pos + length bs)"
  by (cases "pos \<le> length content") (simp_all add: write_at_def max_def min_def)

lemma nth_write_at:
  assumes "i < max (length content) (pos + length bs)"
  shows "write_at pos bs content ! i = (if pos \<le> i \<and> i < pos + length bs then bs ! (i - pos)
    else if i < length content then content ! i else 0)"
proof -
  let ?pre = "take pos (content @ replicate (pos - length content) 0)"
  have l: "length ?pre = pos" by (simp add: min_def)
  have pre: "?pre ! i = (if i < length content then content ! i else 0)" if "i < pos"
    using that by (simp add: nth_append)
  consider "i < pos" | "pos \<le> i" "i < pos + length bs" | "pos + length bs \<le> i" by linarith
  then show ?thesis
  proof cases
    case 1
    then have "write_at pos bs content ! i = ?pre ! i" using l unfolding write_at_def by (metis nth_append)
    then show ?thesis using 1 pre by simp
  next
    case 2
    then have "i - pos < length bs" by linarith
    then show ?thesis using 2 l unfolding write_at_def by (simp add: nth_append[of ?pre] nth_append[of bs] del: take_append)
  next
    case 3
    then have "i < length content" "pos + length bs + (i - (pos + length bs)) = i" using assms by linarith+
    then show ?thesis
      using 3 l nth_append[of "?pre @ bs" "drop (pos + length bs) content" i] unfolding write_at_def
      by (simp del: take_append)
  qed
qed

lemma nth_read_at:
  "i < length buffer \<Longrightarrow> read_at pos buffer content ! i = (if pos + i < length content then content ! (pos + i) else buffer ! i)"
  by (auto simp: read_at_def Let_def nth_append min_def)

lemma read_at_append: "length buffer = length ys \<Longrightarrow> read_at (length xs) buffer (xs @ ys @ zs) = ys"
  by (simp add: read_at_def)

lemma write_at_end: "write_at (length content) bs content = content @ bs"
  by (simp add: write_at_def)

text \<open>
  A positional read sees the last write: after \<open>pwriteSync\<close> at \<open>off\<close>, a \<open>preadSync\<close> returns in every
  place the written byte if it lies in the written range, otherwise what the file held before, with
  zeros between the old end of the file and \<open>off\<close>, and past the end the old content of the buffer.
\<close>

theorem pread_pwrite:
  "preadSync pos buffer (pwriteSync off bs f) = map (\<lambda>i.
     if off \<le> pos + i \<and> pos + i < off + length bs then bs ! (pos + i - off)
     else if pos + i < length (fdata f) then fdata f ! (pos + i)
     else if pos + i < off + length bs then 0 else buffer ! i) [0..<length buffer]"
proof (rule nth_equalityI)
  fix i assume "i < length (preadSync pos buffer (pwriteSync off bs f))"
  then have i: "i < length buffer" by (simp add: preadSync_def)
  have "pos + i < max (length (fdata f)) (off + length bs)
    \<longleftrightarrow> pos + i < length (fdata f) \<or> pos + i < off + length bs" by linarith
  then show "preadSync pos buffer (pwriteSync off bs f) ! i = map (\<lambda>i.
     if off \<le> pos + i \<and> pos + i < off + length bs then bs ! (pos + i - off)
     else if pos + i < length (fdata f) then fdata f ! (pos + i)
     else if pos + i < off + length bs then 0 else buffer ! i) [0..<length buffer] ! i"
    using i nth_write_at[of "pos + i" "fdata f" off bs]
    by (auto simp: preadSync_def pwriteSync_def nth_read_at length_write_at)
qed (simp add: preadSync_def)

end
