(* ===== verification/Config_Store.thy ===== *)
theory Config_Store
  imports Engine File_Io "HOL-Library.Countable"
begin

text \<open>
  The configuration of the engine on disk: \<open>readFileSync\<close>, \<open>writeFileSync\<close>, \<open>fileExists\<close> and \<open>mkDir\<close> of
  \<open>shard/src/os/linux.cpp\<close> over files and directories, and the parts of \<open>createConfig\<close>, \<open>createStorage\<close>,
  \<open>unlinkStorage\<close>, \<open>createView\<close>, \<open>unlinkView\<close>, \<open>writeConfig\<close> and \<open>loadConfig\<close> (\<open>shard/src/db/engine.cpp\<close>) that
  \<open>Engine\<close> leaves out. The files a driver keeps in its own directory are not part of it. The protocol
  buffer library is a parameter.
\<close>

section \<open>Files and directories\<close>

text \<open>
  A path is the list of its parts from the root (which is also the working directory); there are no symbolic links.
  An error ends the run; what a failed call leaves on disk is not followed further.
\<close>

record fsys =
  fsFiles :: "string list \<rightharpoonup> byte list"
  fsDirs :: "string list set"

fun components :: "string \<Rightarrow> string list" where
  "components [] = [[]]"
| "components (ch # p) = (if ch = CHR ''/'' then [] # components p
     else case components p of [] \<Rightarrow> [[ch]] | c # cs \<Rightarrow> (ch # c) # cs)"

definition path_step :: "string list \<Rightarrow> string \<Rightarrow> string list" where
  "path_step d c = (if c = '''' \<or> c = ''.'' then d else if c = ''..'' then butlast d else d @ [c])"

text \<open>Every part but the last has to name a directory; otherwise the result is the one that does not.\<close>

fun walk :: "string list set \<Rightarrow> string list \<Rightarrow> string list \<Rightarrow> string list + string list" where
  "walk D d [] = Inr d"
| "walk D d (c # cs) = (if d \<in> D then walk D (path_step d c) cs else Inl d)"

definition path_at :: "fsys \<Rightarrow> string \<Rightarrow> string list + string list" where
  "path_at fs p = walk (fsDirs fs) [] (components p)"

definition fileExists :: "string \<Rightarrow> fsys \<Rightarrow> bool res" where
  "fileExists p fs = (case path_at fs p of
     Inr q \<Rightarrow> Inr (fsFiles fs q \<noteq> None \<or> q \<in> fsDirs fs)
   | Inl d \<Rightarrow> if fsFiles fs d = None then Inr False else Inl (RuntimeError ''access() failed''))"

definition mkDir :: "string \<Rightarrow> fsys \<Rightarrow> fsys res" where
  "mkDir p fs = (case path_at fs p of
     Inl d \<Rightarrow> Inl (RuntimeError ''mkdir() failed'')
   | Inr q \<Rightarrow> if fsFiles fs q \<noteq> None \<or> q \<in> fsDirs fs then Inl (RuntimeError ''mkdir() failed'')
     else Inr (fs\<lparr>fsDirs := insert q (fsDirs fs)\<rparr>))"

definition open_file :: "file_mode \<Rightarrow> string \<Rightarrow> fsys \<Rightarrow> (string list \<times> lfile) res" where
  "open_file mode p fs = (case path_at fs p of
     Inl d \<Rightarrow> Inl (RuntimeError ''Could not open file'')
   | Inr q \<Rightarrow> if q \<in> fsDirs fs then Inl (RuntimeError ''Could not open file'')
     else res_bind (openSync mode (fsFiles fs q)) (\<lambda>f. Inr (q, f)))"

definition readFileSync :: "string \<Rightarrow> fsys \<Rightarrow> byte list res" where
  "readFileSync p fs =
     res_bind (open_file \<lparr>modeCreate = False, modeTrunc = False\<rparr> p fs) (\<lambda>(q, f).
     Inr (preadSync 0 (replicate (lengthSync f) 0) f))"

definition writeFileSync :: "string \<Rightarrow> byte list \<Rightarrow> fsys \<Rightarrow> fsys res" where
  "writeFileSync p bs fs =
     res_bind (open_file \<lparr>modeCreate = True, modeTrunc = True\<rparr> p fs) (\<lambda>(q, f).
     Inr (fs\<lparr>fsFiles := (fsFiles fs)(q \<mapsto> fdata (pwriteSync 0 bs f))\<rparr>))"

section \<open>The configuration\<close>

record config_codec =
  encConfig :: "string list \<times> string list \<Rightarrow> byte list"
  decConfig :: "byte list \<Rightarrow> string list \<times> string list"
  encDescriptor :: "string \<Rightarrow> byte list"
  decDescriptor :: "byte list \<Rightarrow> string"

definition config_path :: "string \<Rightarrow> string" where
  "config_path p = p @ ''/config''"

definition storage_dir :: "string \<Rightarrow> string \<Rightarrow> string" where
  "storage_dir p name = p @ ''/storages/'' @ name"

definition view_dir :: "string \<Rightarrow> string \<Rightarrow> string" where
  "view_dir p name = p @ ''/views/'' @ name"

definition descriptor :: "string \<Rightarrow> string" where
  "descriptor dir = dir @ ''/descriptor''"

definition store_config :: "config_codec \<Rightarrow> string \<Rightarrow> ('d, 'w) engine \<Rightarrow> fsys \<Rightarrow> fsys res" where
  "store_config K p e fs = writeFileSync (config_path p) (encConfig K (writeConfig e)) fs"

text \<open>\<open>createLog\<close> opens the log without truncating it.\<close>

definition create_log :: "string \<Rightarrow> fsys \<Rightarrow> fsys res" where
  "create_log p fs =
     res_bind (open_file \<lparr>modeCreate = True, modeTrunc = False\<rparr> (p @ ''/transact.wal'') fs) (\<lambda>(q, f).
     Inr (fs\<lparr>fsFiles := (fsFiles fs)(q \<mapsto> fdata f)\<rparr>))"

definition createConfig :: "config_codec \<Rightarrow> string \<Rightarrow> ('d, 'w) engine \<Rightarrow> fsys \<Rightarrow> fsys res" where
  "createConfig K p e fs =
     res_bind (fileExists (config_path p) fs) (\<lambda>ex.
     res_bind (check (\<not> ex) (RuntimeError ''Config file exists already!'')) (\<lambda>_.
     res_bind (mkDir (p @ ''/storages'') fs) (\<lambda>fs.
     res_bind (mkDir (p @ ''/views'') fs) (\<lambda>fs.
     res_bind (mkDir (p @ ''/extern'') fs) (\<lambda>fs.
     res_bind (create_log p fs) (\<lambda>fs.
     store_config K p e fs))))))"

definition disk_createStorage :: "config_codec \<Rightarrow> string \<Rightarrow> (string \<Rightarrow> 'd option) \<Rightarrow> string \<Rightarrow> string
    \<Rightarrow> ('d, 'w) engine \<times> fsys \<Rightarrow> (('d, 'w) engine \<times> fsys) res" where
  "disk_createStorage K p reg driver name = (\<lambda>(e, fs).
     if getStorage name e \<noteq> -1 then Inl (RuntimeError ''Storage exists already!'')
     else
       res_bind (mkDir (storage_dir p name) fs) (\<lambda>fs.
       res_bind (setupStorage reg driver name e) (\<lambda>e.
       res_bind (writeFileSync (descriptor (storage_dir p name)) (encDescriptor K driver) fs) (\<lambda>fs.
       res_bind (store_config K p e fs) (\<lambda>fs. Inr (e, fs))))))"

definition disk_createView :: "config_codec \<Rightarrow> string \<Rightarrow> (string \<Rightarrow> 'w option) \<Rightarrow> string \<Rightarrow> string
    \<Rightarrow> ('d, 'w) engine \<times> fsys \<Rightarrow> (('d, 'w) engine \<times> fsys) res" where
  "disk_createView K p reg driver name = (\<lambda>(e, fs).
     if getView name e \<noteq> -1 then Inl (RuntimeError ''View exists already!'')
     else
       res_bind (mkDir (view_dir p name) fs) (\<lambda>fs.
       res_bind (setupView reg driver name e) (\<lambda>e.
       res_bind (writeFileSync (descriptor (view_dir p name)) (encDescriptor K driver) fs) (\<lambda>fs.
       res_bind (store_config K p e fs) (\<lambda>fs. Inr (e, fs))))))"

definition disk_unlinkStorage :: "config_codec \<Rightarrow> string \<Rightarrow> int \<Rightarrow> ('d, 'w) engine \<times> fsys \<Rightarrow> (('d, 'w) engine \<times> fsys) res" where
  "disk_unlinkStorage K p i = (\<lambda>(e, fs).
     res_bind (unlinkStorage i e) (\<lambda>e. res_bind (store_config K p e fs) (\<lambda>fs. Inr (e, fs))))"

definition disk_unlinkView :: "config_codec \<Rightarrow> string \<Rightarrow> int \<Rightarrow> ('d, 'w) engine \<times> fsys \<Rightarrow> (('d, 'w) engine \<times> fsys) res" where
  "disk_unlinkView K p i = (\<lambda>(e, fs).
     res_bind (unlinkView i e) (\<lambda>e. res_bind (store_config K p e fs) (\<lambda>fs. Inr (e, fs))))"

text \<open>The first part of \<open>loadConfig\<close>: the names and the drivers of the descriptors, with which \<open>loadConfig\<close> of \<open>Engine\<close> goes on.\<close>

fun read_descriptors :: "config_codec \<Rightarrow> (string \<Rightarrow> string) \<Rightarrow> string list \<Rightarrow> fsys \<Rightarrow> (string \<times> string) list res" where
  "read_descriptors K dir [] fs = Inr []"
| "read_descriptors K dir (name # names) fs =
     res_bind (readFileSync (descriptor (dir name)) fs) (\<lambda>bs.
     res_bind (read_descriptors K dir names fs) (\<lambda>ns. Inr ((name, decDescriptor K bs) # ns)))"

definition read_config :: "config_codec \<Rightarrow> string \<Rightarrow> fsys \<Rightarrow> ((string \<times> string) list \<times> (string \<times> string) list) res" where
  "read_config K p fs =
     res_bind (readFileSync (config_path p) fs) (\<lambda>bs. case decConfig K bs of (snames, vnames) \<Rightarrow>
     res_bind (read_descriptors K (storage_dir p) snames fs) (\<lambda>sns.
     res_bind (read_descriptors K (view_dir p) vnames fs) (\<lambda>vns. Inr (sns, vns))))"

section \<open>Administrative calls\<close>

datatype admin_call = NewStorage string string | DropStorage int | NewView string string | DropView int

definition admin_step :: "config_codec \<Rightarrow> string \<Rightarrow> (string \<Rightarrow> 'd option) \<Rightarrow> (string \<Rightarrow> 'w option) \<Rightarrow> admin_call
    \<Rightarrow> ('d, 'w) engine \<times> fsys \<Rightarrow> (('d, 'w) engine \<times> fsys) res" where
  "admin_step K p sreg vreg a x = (case a of
     NewStorage driver name \<Rightarrow> disk_createStorage K p sreg driver name x
   | DropStorage i \<Rightarrow> disk_unlinkStorage K p i x
   | NewView driver name \<Rightarrow> disk_createView K p vreg driver name x
   | DropView i \<Rightarrow> disk_unlinkView K p i x)"

fun admin_run :: "config_codec \<Rightarrow> string \<Rightarrow> (string \<Rightarrow> 'd option) \<Rightarrow> (string \<Rightarrow> 'w option) \<Rightarrow> admin_call list
    \<Rightarrow> ('d, 'w) engine \<times> fsys \<Rightarrow> (('d, 'w) engine \<times> fsys) res" where
  "admin_run K p sreg vreg [] x = Inr x"
| "admin_run K p sreg vreg (a # as) x = res_bind (admin_step K p sreg vreg a x) (admin_run K p sreg vreg as)"

section \<open>Paths\<close>

lemma components_nonempty [simp]: "components p \<noteq> []"
  by (cases p) (auto split: list.splits)

lemma components_slash: "components (p @ CHR ''/'' # r) = components p @ components r"
  by (induction p) (auto split: list.splits)

text \<open>A name that is one part of a path.\<close>

definition plain :: "string \<Rightarrow> bool" where
  "plain n \<longleftrightarrow> n \<noteq> '''' \<and> n \<noteq> ''.'' \<and> n \<noteq> ''..'' \<and> CHR ''/'' \<notin> set n"

lemma components_plain: "CHR ''/'' \<notin> set n \<Longrightarrow> components n = [n]"
  by (induction n) auto

lemma path_step_plain [simp]: "plain n \<Longrightarrow> path_step d n = d @ [n]"
  by (simp add: plain_def path_step_def)

lemma walk_append: "walk D d (cs @ cs') = (case walk D d cs of Inl x \<Rightarrow> Inl x | Inr d \<Rightarrow> walk D d cs')"
  by (induction cs arbitrary: d) simp_all

lemma walk_mono: "walk D d cs = Inr q \<Longrightarrow> D \<subseteq> D' \<Longrightarrow> walk D' d cs = Inr q"
  by (induction cs arbitrary: d) (auto split: if_splits)

lemma path_slash: "path_at fs (p @ CHR ''/'' # r) = (case path_at fs p of Inl x \<Rightarrow> Inl x | Inr b \<Rightarrow> walk (fsDirs fs) b (components r))"
  by (simp add: path_at_def components_slash walk_append)

lemma plain_names [simp]: "plain ''storages''" "plain ''views''" "plain ''descriptor''" "plain ''config''"
  by (simp_all add: plain_def)

lemma config_path_at: "path_at fs (config_path p) = (case path_at fs p of Inl x \<Rightarrow> Inl x
    | Inr b \<Rightarrow> if b \<in> fsDirs fs then Inr (b @ [''config'']) else Inl b)"
  by (simp add: config_path_def path_slash components_plain path_step_def split: sum.splits)

lemma driver_dir_at:
  "plain n \<Longrightarrow> path_at fs (storage_dir p n) = (case path_at fs p of Inl x \<Rightarrow> Inl x | Inr b \<Rightarrow> walk (fsDirs fs) b [''storages'', n])"
  "plain n \<Longrightarrow> path_at fs (view_dir p n) = (case path_at fs p of Inl x \<Rightarrow> Inl x | Inr b \<Rightarrow> walk (fsDirs fs) b [''views'', n])"
  using components_slash[of "''storages''" n] components_slash[of "''views''" n]
  by (simp_all add: storage_dir_def view_dir_def path_slash components_plain plain_def path_step_def split: sum.splits)

lemma descriptor_at: "path_at fs (descriptor dir) = (case path_at fs dir of Inl x \<Rightarrow> Inl x
    | Inr q \<Rightarrow> if q \<in> fsDirs fs then Inr (q @ [''descriptor'']) else Inl q)"
  by (simp add: descriptor_def path_slash components_plain path_step_def split: sum.splits)

section \<open>What was written is read back\<close>

lemma read_at_all: "preadSync 0 (replicate (lengthSync f) 0) f = fdata f"
  by (simp add: preadSync_def lengthSync_def read_at_def)

definition has_file :: "fsys \<Rightarrow> string list \<Rightarrow> byte list \<Rightarrow> bool" where
  "has_file fs q bs \<longleftrightarrow> fsFiles fs q = Some bs \<and> q \<notin> fsDirs fs"

lemma readFile_iff: "readFileSync p fs = Inr bs \<longleftrightarrow> (\<exists>q. path_at fs p = Inr q \<and> has_file fs q bs)"
  by (auto simp: readFileSync_def open_file_def openSync_def read_at_all res_bind_Inr_conv has_file_def split: option.splits sum.splits)

lemma writeFile_iff: "writeFileSync p bs fs = Inr fs' \<longleftrightarrow>
    (\<exists>q. path_at fs p = Inr q \<and> q \<notin> fsDirs fs \<and> fs' = fs\<lparr>fsFiles := (fsFiles fs)(q \<mapsto> bs)\<rparr>)"
  by (auto simp: writeFileSync_def open_file_def openSync_def pwriteSync_def write_at_def res_bind_Inr_conv split: option.splits sum.splits)

lemma mkDir_iff: "mkDir p fs = Inr fs' \<longleftrightarrow>
    (\<exists>q. path_at fs p = Inr q \<and> fsFiles fs q = None \<and> q \<notin> fsDirs fs \<and> fs' = fs\<lparr>fsDirs := insert q (fsDirs fs)\<rparr>)"
  by (auto simp: mkDir_def split: sum.splits if_splits)

text \<open>No call removes a directory, so paths stay what they are.\<close>

lemma path_mono: "path_at fs p = Inr q \<Longrightarrow> fsDirs fs \<subseteq> fsDirs fs' \<Longrightarrow> path_at fs' p = Inr q"
  unfolding path_at_def by (rule walk_mono)

lemma has_file_keep:
  "has_file fs q bs \<Longrightarrow> r \<noteq> q \<Longrightarrow> has_file (fs\<lparr>fsFiles := (fsFiles fs)(r \<mapsto> bs')\<rparr>) q bs"
  "has_file fs q bs \<Longrightarrow> fsFiles fs r = None \<Longrightarrow> has_file (fs\<lparr>fsDirs := insert r (fsDirs fs)\<rparr>) q bs"
  by (auto simp: has_file_def)

text \<open>Every driver of the engine has its directory and its descriptor on disk.\<close>

definition described :: "config_codec \<Rightarrow> string list \<Rightarrow> (string \<Rightarrow> 'd option) \<Rightarrow> 'd driver option list \<Rightarrow> fsys \<Rightarrow> bool" where
  "described K b reg ds fs \<longleftrightarrow> (\<forall>n \<in> set (driver_names ds). plain n \<and> b \<in> fsDirs fs \<and> b @ [n] \<in> fsDirs fs
     \<and> (\<exists>k. reg k \<noteq> None \<and> has_file fs (b @ [n, ''descriptor'']) (encDescriptor K k)))"

definition disk_inv :: "config_codec \<Rightarrow> string \<Rightarrow> (string \<Rightarrow> 'd option) \<Rightarrow> (string \<Rightarrow> 'w option) \<Rightarrow> ('d, 'w) engine \<times> fsys \<Rightarrow> bool" where
  "disk_inv K p sreg vreg = (\<lambda>(e, fs). storages e \<noteq> [] \<and> views e \<noteq> [] \<and> storages e ! 0 = None \<and> views e ! 0 = None
     \<and> (\<exists>b. path_at fs p = Inr b \<and> b \<in> fsDirs fs \<and> has_file fs (b @ [''config'']) (encConfig K (writeConfig e))
       \<and> described K (b @ [''storages'']) sreg (drop 1 (storages e)) fs \<and> described K (b @ [''views'']) vreg (drop 1 (views e)) fs))"

text \<open>Writing a file and making a directory keep the descriptors.\<close>

lemma described_keep:
  "described K b reg ds fs \<Longrightarrow> \<forall>n. r \<noteq> b @ [n, ''descriptor''] \<Longrightarrow> described K b reg ds (fs\<lparr>fsFiles := (fsFiles fs)(r \<mapsto> bs)\<rparr>)"
  "described K b reg ds fs \<Longrightarrow> fsFiles fs r = None \<Longrightarrow> described K b reg ds (fs\<lparr>fsDirs := insert r (fsDirs fs)\<rparr>)"
  by (fastforce simp: described_def has_file_def)+

lemma described_subset: "described K b reg ds fs \<Longrightarrow> set (driver_names ds') \<subseteq> set (driver_names ds) \<Longrightarrow> described K b reg ds' fs"
  unfolding described_def by blast

lemma driver_names_snoc [simp]: "driver_names (ds @ [Some d]) = driver_names ds @ [drvName d]"
  by (simp add: driver_names_def List.map_filter_def)

lemma driver_names_set: "set (driver_names ds) = {drvName d | d. Some d \<in> set ds}"
  by (force simp: driver_names_def List.map_filter_def)

lemma driver_names_remove: "set (driver_names (drop 1 (ds[i := None]))) \<subseteq> set (driver_names (drop 1 ds))"
proof -
  have "drop 1 (ds[i := None]) = (if i = 0 then drop 1 ds else (drop 1 ds)[i - 1 := None])"
    by (cases ds; cases i) simp_all
  then show ?thesis unfolding driver_names_set by (auto dest: set_update_subset_insert[THEN subsetD])
qed

lemma head_stays_empty: "xs ! 0 = None \<Longrightarrow> xs[i := None] ! 0 = None"
  by (cases xs; cases i) simp_all

lemma find_driver_known: "name \<in> set (driver_names ds) \<Longrightarrow> int i \<le> find_driver i ds name"
proof (induction i ds name rule: find_driver.induct)
  case (3 i d ds name)
  then show ?case by (cases "drvName d = name") (auto simp: driver_names_def List.map_filter_def)
qed (auto simp: driver_names_def List.map_filter_def)

lemma new_name:
  "getStorage name e = -1 \<Longrightarrow> name \<notin> set (driver_names (drop 1 (storages e)))"
  "getView name e = -1 \<Longrightarrow> name \<notin> set (driver_names (drop 1 (views e)))"
  using find_driver_known[of name "drop 1 (storages e)" 1] find_driver_known[of name "drop 1 (views e)" 1]
  by (auto simp: getStorage_def getView_def)

lemma drop_snoc: "xs \<noteq> [] \<Longrightarrow> Suc 0 - length xs = 0"
  by (cases xs) simp_all

text \<open>The calls on disk of a creation: the directory of the driver, its descriptor, the configuration.\<close>

definition driver_files :: "config_codec \<Rightarrow> string list \<Rightarrow> string \<Rightarrow> string \<Rightarrow> string \<Rightarrow> byte list \<Rightarrow> fsys \<Rightarrow> fsys" where
  "driver_files K b kind name driver c fs = fs
    \<lparr>fsDirs := insert (b @ [kind, name]) (fsDirs fs),
     fsFiles := (fsFiles fs)(b @ [kind, name, ''descriptor''] \<mapsto> encDescriptor K driver, b @ [''config''] \<mapsto> c)\<rparr>"

lemma create_on_disk:
  assumes "path_at fs p = Inr b" "mkDir dir fs = Inr fs1" "writeFileSync (descriptor dir) (encDescriptor K driver) fs1 = Inr fs2"
    and "writeFileSync (config_path p) c fs2 = Inr fs3" "plain kind" "plain name"
    and "path_at fs dir = walk (fsDirs fs) b [kind, name]"
  shows "fs3 = driver_files K b kind name driver c fs \<and> b @ [kind] \<in> fsDirs fs \<and> fsFiles fs (b @ [kind, name]) = None
    \<and> b @ [kind, name, ''descriptor''] \<notin> fsDirs fs3 \<and> b @ [''config''] \<notin> fsDirs fs3"
proof -
  have 1: "b @ [kind] \<in> fsDirs fs" "fsFiles fs (b @ [kind, name]) = None" "fs1 = fs\<lparr>fsDirs := insert (b @ [kind, name]) (fsDirs fs)\<rparr>"
    "path_at fs dir = Inr (b @ [kind, name])"
    using assms(2,5,6) assms(7) by (auto simp: mkDir_iff split: if_splits)
  have "path_at fs1 dir = Inr (b @ [kind, name])" by (rule path_mono[OF 1(4)]) (simp add: 1(3) subset_insertI)
  then have 2: "fs2 = fs1\<lparr>fsFiles := (fsFiles fs1)(b @ [kind, name, ''descriptor''] \<mapsto> encDescriptor K driver)\<rparr>"
    "b @ [kind, name, ''descriptor''] \<notin> fsDirs fs1"
    using assms(3) 1(3) by (auto simp: writeFile_iff descriptor_at)
  have "path_at fs2 p = Inr b" by (rule path_mono[OF assms(1)]) (simp add: 1(3) 2(1) subset_insertI)
  then have 3: "fs3 = fs2\<lparr>fsFiles := (fsFiles fs2)(b @ [''config''] \<mapsto> c)\<rparr>" "b @ [''config''] \<notin> fsDirs fs2"
    using assms(4) by (auto simp: writeFile_iff config_path_at split: if_splits)
  show ?thesis using 1 2 3 by (simp add: driver_files_def)
qed

lemma described_new:
  assumes "described K (b @ [kind]) reg ds fs" "reg driver \<noteq> None" "plain name" "name \<notin> set (driver_names ds)" "b @ [kind] \<in> fsDirs fs"
    and "fsFiles fs (b @ [kind, name]) = None" "b @ [kind, name, ''descriptor''] \<notin> fsDirs (driver_files K b kind name driver c fs)"
  shows "described K (b @ [kind]) reg (ds @ [Some \<lparr>drvName = name, dstate = d\<rparr>]) (driver_files K b kind name driver c fs)"
proof -
  have "\<exists>k. reg k \<noteq> None \<and> has_file (driver_files K b kind name driver c fs) (b @ [kind, n, ''descriptor'']) (encDescriptor K k)"
    if n: "n \<in> set (driver_names ds)" for n
  proof -
    obtain k where "reg k \<noteq> None" "has_file fs (b @ [kind, n, ''descriptor'']) (encDescriptor K k)"
      using assms(1) n unfolding described_def append_assoc append.simps by blast
    moreover have "n \<noteq> name" using n assms(4) by blast
    ultimately show ?thesis using assms(6) by (intro exI[of _ k]) (auto simp: has_file_def driver_files_def)
  qed
  moreover have "has_file (driver_files K b kind name driver c fs) (b @ [kind, name, ''descriptor'']) (encDescriptor K driver)"
    using assms(7) by (simp add: has_file_def driver_files_def)
  ultimately show ?thesis using assms(1-3,5) by (auto simp: described_def driver_files_def)
qed

lemma described_others:
  assumes "described K (b @ [other]) reg ds fs" "other \<noteq> kind" "fsFiles fs (b @ [kind, name]) = None"
  shows "described K (b @ [other]) reg ds (driver_files K b kind name driver c fs)"
  using assms by (fastforce simp: described_def has_file_def driver_files_def)

lemma described_config:
  assumes "described K (b @ [kind]) reg ds fs"
  shows "described K (b @ [kind]) reg ds (fs\<lparr>fsFiles := (fsFiles fs)(b @ [''config''] \<mapsto> c)\<rparr>)"
  using assms by (intro described_keep(1)) auto

lemma store_config_on_disk:
  "store_config K p e fs = Inr fs' \<Longrightarrow> path_at fs p = Inr b \<Longrightarrow>
    fs' = fs\<lparr>fsFiles := (fsFiles fs)(b @ [''config''] \<mapsto> encConfig K (writeConfig e))\<rparr> \<and> b @ [''config''] \<notin> fsDirs fs"
  by (auto simp: store_config_def writeFile_iff config_path_at split: if_splits)

text \<open>The names in the calls are single parts of a path.\<close>

definition plain_call :: "admin_call \<Rightarrow> bool" where
  "plain_call a = (case a of NewStorage _ n \<Rightarrow> plain n | NewView _ n \<Rightarrow> plain n | _ \<Rightarrow> True)"

lemma admin_step_inv:
  assumes "disk_inv K p sreg vreg x" "admin_step K p sreg vreg a x = Inr x'" "plain_call a"
  shows "disk_inv K p sreg vreg x'"
proof -
  obtain e fs where x: "x = (e, fs)" by (cases x)
  obtain b where b: "path_at fs p = Inr b" "b \<in> fsDirs fs" "has_file fs (b @ [''config'']) (encConfig K (writeConfig e))"
    "described K (b @ [''storages'']) sreg (drop 1 (storages e)) fs" "described K (b @ [''views'']) vreg (drop 1 (views e)) fs"
    and I: "storages e \<noteq> []" "views e \<noteq> []" "storages e ! 0 = None" "views e ! 0 = None"
    using assms(1) by (auto simp: x disk_inv_def)
  show ?thesis
  proof (cases a)
    case (NewStorage driver name)
    then obtain fs1 d fs2 fs3 where s: "getStorage name e = -1" "mkDir (storage_dir p name) fs = Inr fs1" "sreg driver = Some d"
      "writeFileSync (descriptor (storage_dir p name)) (encDescriptor K driver) fs1 = Inr fs2"
      and e: "x' = (e\<lparr>storages := storages e @ [Some \<lparr>drvName = name, dstate = d\<rparr>]\<rparr>, fs3)" "store_config K p (fst x') fs2 = Inr fs3"
      using assms(2) x by (auto simp: admin_step_def disk_createStorage_def setupStorage_def res_bind_Inr_conv split: if_splits option.splits)
    have pl: "plain name" using assms(3) NewStorage by (simp add: plain_call_def)
    have "path_at fs (storage_dir p name) = walk (fsDirs fs) b [''storages'', name]" using b(1) driver_dir_at(1)[OF pl] by simp
    from create_on_disk[OF b(1) s(2,4) e(2)[unfolded store_config_def] plain_names(1) pl this]
    have f: "fs3 = driver_files K b ''storages'' name driver (encConfig K (writeConfig (fst x'))) fs" "b @ [''storages''] \<in> fsDirs fs"
      "fsFiles fs (b @ [''storages'', name]) = None" "b @ [''storages'', name, ''descriptor''] \<notin> fsDirs fs3" "b @ [''config''] \<notin> fsDirs fs3"
      by blast+
    have "described K (b @ [''storages'']) sreg (drop 1 (storages e) @ [Some \<lparr>drvName = name, dstate = d\<rparr>]) fs3"
      using described_new[OF b(4) _ pl new_name(1)[OF s(1)] f(2,3)] f(1,4) s(3) by simp
    moreover have "described K (b @ [''views'']) vreg (drop 1 (views e)) fs3" using described_others[OF b(5) _ f(3)] f(1) by simp
    moreover have "path_at fs3 p = Inr b" by (rule path_mono[OF b(1)]) (auto simp: f(1) driver_files_def)
    moreover have "has_file fs3 (b @ [''config'']) (encConfig K (writeConfig (fst x')))" "b \<in> fsDirs fs3"
      using f(5) b(2) by (auto simp: f(1) has_file_def driver_files_def)
    ultimately show ?thesis using I e(1) by (simp add: disk_inv_def drop_snoc nth_append)
  next
    case (NewView driver name)
    then obtain fs1 d fs2 fs3 where s: "getView name e = -1" "mkDir (view_dir p name) fs = Inr fs1" "vreg driver = Some d"
      "writeFileSync (descriptor (view_dir p name)) (encDescriptor K driver) fs1 = Inr fs2"
      and e: "x' = (e\<lparr>views := views e @ [Some \<lparr>drvName = name, dstate = d\<rparr>]\<rparr>, fs3)" "store_config K p (fst x') fs2 = Inr fs3"
      using assms(2) x by (auto simp: admin_step_def disk_createView_def setupView_def res_bind_Inr_conv split: if_splits option.splits)
    have pl: "plain name" using assms(3) NewView by (simp add: plain_call_def)
    have "path_at fs (view_dir p name) = walk (fsDirs fs) b [''views'', name]" using b(1) driver_dir_at(2)[OF pl] by simp
    from create_on_disk[OF b(1) s(2,4) e(2)[unfolded store_config_def] plain_names(2) pl this]
    have f: "fs3 = driver_files K b ''views'' name driver (encConfig K (writeConfig (fst x'))) fs" "b @ [''views''] \<in> fsDirs fs"
      "fsFiles fs (b @ [''views'', name]) = None" "b @ [''views'', name, ''descriptor''] \<notin> fsDirs fs3" "b @ [''config''] \<notin> fsDirs fs3"
      by blast+
    have "described K (b @ [''views'']) vreg (drop 1 (views e) @ [Some \<lparr>drvName = name, dstate = d\<rparr>]) fs3"
      using described_new[OF b(5) _ pl new_name(2)[OF s(1)] f(2,3)] f(1,4) s(3) by simp
    moreover have "described K (b @ [''storages'']) sreg (drop 1 (storages e)) fs3" using described_others[OF b(4) _ f(3)] f(1) by simp
    moreover have "path_at fs3 p = Inr b" by (rule path_mono[OF b(1)]) (auto simp: f(1) driver_files_def)
    moreover have "has_file fs3 (b @ [''config'']) (encConfig K (writeConfig (fst x')))" "b \<in> fsDirs fs3"
      using f(5) b(2) by (auto simp: f(1) has_file_def driver_files_def)
    ultimately show ?thesis using I e(1) by (simp add: disk_inv_def drop_snoc nth_append)
  next
    case (DropStorage i)
    then obtain fs' where e: "x' = (e\<lparr>storages := (storages e)[nat i := None]\<rparr>, fs')" "store_config K p (e\<lparr>storages := (storages e)[nat i := None]\<rparr>) fs = Inr fs'"
      using assms(2) x by (auto simp: admin_step_def disk_unlinkStorage_def unlinkStorage_def res_bind_Inr_conv split: if_splits sum.splits error.splits)
    note w = store_config_on_disk[OF e(2) b(1)]
    show ?thesis using I b(1,2,5) e(1) w head_stays_empty[OF I(3), of "nat i"]
        described_config[OF b(4)] described_config[OF b(5)] described_subset[OF _ driver_names_remove, of K _ sreg "storages e" fs' "nat i"]
      by (simp add: disk_inv_def has_file_def path_at_def)
  next
    case (DropView i)
    then obtain fs' where e: "x' = (e\<lparr>views := (views e)[nat i := None]\<rparr>, fs')" "store_config K p (e\<lparr>views := (views e)[nat i := None]\<rparr>) fs = Inr fs'"
      using assms(2) x by (auto simp: admin_step_def disk_unlinkView_def unlinkView_def res_bind_Inr_conv split: if_splits sum.splits error.splits)
    note w = store_config_on_disk[OF e(2) b(1)]
    show ?thesis using I b(1,2,4) e(1) w head_stays_empty[OF I(4), of "nat i"]
        described_config[OF b(4)] described_config[OF b(5)] described_subset[OF _ driver_names_remove, of K _ vreg "views e" fs' "nat i"]
      by (simp add: disk_inv_def has_file_def path_at_def)
  qed
qed

lemma admin_run_inv: "disk_inv K p sreg vreg x \<Longrightarrow> admin_run K p sreg vreg as x = Inr x' \<Longrightarrow> list_all plain_call as \<Longrightarrow> disk_inv K p sreg vreg x'"
proof (induction as arbitrary: x)
  case (Cons a as)
  then obtain y where "admin_step K p sreg vreg a x = Inr y" "admin_run K p sreg vreg as y = Inr x'" by (auto simp: res_bind_Inr_conv)
  then show ?case using Cons.IH[of y] Cons.prems(3) admin_step_inv[OF Cons.prems(1), of a y] by simp
qed simp

lemma createConfig_inv:
  assumes "createConfig K p (engine_new :: ('d, 'w) engine) fs = Inr fs'"
  shows "disk_inv K p sreg vreg (engine_new :: ('d, 'w) engine, fs')"
proof -
  obtain fs1 where "store_config K p (engine_new :: ('d, 'w) engine) fs1 = Inr fs'" using assms by (auto simp: createConfig_def res_bind_Inr_conv)
  then obtain q where q: "path_at fs1 (config_path p) = Inr q" "q \<notin> fsDirs fs1"
    "fs' = fs1\<lparr>fsFiles := (fsFiles fs1)(q \<mapsto> encConfig K (writeConfig (engine_new :: ('d, 'w) engine)))\<rparr>"
    by (auto simp: store_config_def writeFile_iff)
  then obtain b where b: "path_at fs1 p = Inr b" "b \<in> fsDirs fs1" "q = b @ [''config'']"
    by (auto simp: config_path_at split: sum.splits if_splits)
  have "path_at fs' p = Inr b" using path_mono[OF b(1)] q(3) by simp
  then show ?thesis using b q by (simp add: disk_inv_def described_def has_file_def engine_new_def driver_names_def List.map_filter_def)
qed

lemma read_descriptors_ok:
  assumes "\<And>d. decDescriptor K (encDescriptor K d) = d" "described K b reg ds fs"
    and "\<And>n. plain n \<Longrightarrow> b \<in> fsDirs fs \<Longrightarrow> path_at fs (dir n) = Inr (b @ [n])"
  shows "set ns \<subseteq> set (driver_names ds) \<Longrightarrow>
    \<exists>sns sts. read_descriptors K dir ns fs = Inr sns \<and> map fst sns = ns \<and> setup_all reg sns = Inr sts \<and> driver_names sts = ns"
proof (induction ns)
  case Nil
  then show ?case by (auto simp: driver_names_def List.map_filter_def)
next
  case (Cons n ns)
  obtain sns sts where I: "read_descriptors K dir ns fs = Inr sns" "map fst sns = ns" "setup_all reg sns = Inr sts" "driver_names sts = ns"
    using Cons by auto
  obtain k d where k: "reg k = Some d" "readFileSync (descriptor (dir n)) fs = Inr (encDescriptor K k)"
    using Cons.prems assms(2,3) by (fastforce simp: described_def readFile_iff descriptor_at)
  show ?case
    by (rule exI[of _ "(n, k) # sns"], rule exI[of _ "Some \<lparr>drvName = n, dstate = d\<rparr> # sts"])
      (use I k assms(1) in \<open>simp add: driver_names_def List.map_filter_def\<close>)
qed

text \<open>
  C34. The configuration survives. Whatever storages and views are created and unlinked after a database was created,
  the configuration on disk can be read at any point, and names exactly the storages and views the engine has, in
  their order, with drivers that can be set up again under the same names. The names are single parts of a path
  and the encoding of the messages can be decoded.
\<close>

theorem config_reload:
  fixes sreg :: "string \<Rightarrow> 'd option" and vreg :: "string \<Rightarrow> 'w option"
  assumes "\<And>x. decConfig K (encConfig K x) = x" "\<And>d. decDescriptor K (encDescriptor K d) = d"
    and "createConfig K p (engine_new :: ('d, 'w) engine) fs = Inr fs0" "admin_run K p sreg vreg calls (engine_new, fs0) = Inr (e, fs1)"
    and "list_all plain_call calls"
  shows "\<exists>sns vns sts vws. read_config K p fs1 = Inr (sns, vns)
    \<and> map fst sns = driver_names (drop 1 (storages e)) \<and> setup_all sreg sns = Inr sts \<and> driver_names sts = driver_names (drop 1 (storages e))
    \<and> map fst vns = driver_names (drop 1 (views e)) \<and> setup_all vreg vns = Inr vws \<and> driver_names vws = driver_names (drop 1 (views e))"
proof -
  obtain b where b: "path_at fs1 p = Inr b" "b \<in> fsDirs fs1" "has_file fs1 (b @ [''config'']) (encConfig K (writeConfig e))"
    "described K (b @ [''storages'']) sreg (drop 1 (storages e)) fs1" "described K (b @ [''views'']) vreg (drop 1 (views e)) fs1"
    using admin_run_inv[OF createConfig_inv[OF assms(3)] assms(4,5)] by (auto simp: disk_inv_def)
  obtain sns sts where s: "read_descriptors K (storage_dir p) (driver_names (drop 1 (storages e))) fs1 = Inr sns"
    "map fst sns = driver_names (drop 1 (storages e))" "setup_all sreg sns = Inr sts" "driver_names sts = driver_names (drop 1 (storages e))"
    using read_descriptors_ok[where K = K and dir = "storage_dir p", OF assms(2) b(4) _ subset_refl] b(1,2) by (auto simp: driver_dir_at)
  obtain vns vws where v: "read_descriptors K (view_dir p) (driver_names (drop 1 (views e))) fs1 = Inr vns"
    "map fst vns = driver_names (drop 1 (views e))" "setup_all vreg vns = Inr vws" "driver_names vws = driver_names (drop 1 (views e))"
    using read_descriptors_ok[where K = K and dir = "view_dir p", OF assms(2) b(5) _ subset_refl] b(1,2) by (auto simp: driver_dir_at)
  have "readFileSync (config_path p) fs1 = Inr (encConfig K (writeConfig e))" using b by (auto simp: readFile_iff config_path_at)
  then show ?thesis using s v assms(1) by (auto simp: read_config_def writeConfig_def)
qed

text \<open>
  The directory of a storage is never removed: a name that was used once cannot be used again, although the
  storage was unlinked.
\<close>

lemma admin_step_dirs: "admin_step K p sreg vreg a (e, fs) = Inr (e', fs') \<Longrightarrow> fsDirs fs \<subseteq> fsDirs fs'"
  by (auto simp: admin_step_def disk_createStorage_def disk_createView_def disk_unlinkStorage_def disk_unlinkView_def store_config_def
      res_bind_Inr_conv mkDir_iff writeFile_iff split: admin_call.splits if_splits)

lemma admin_run_dirs: "admin_run K p sreg vreg as (e, fs) = Inr (e', fs') \<Longrightarrow> fsDirs fs \<subseteq> fsDirs fs'"
proof (induction as arbitrary: e fs)
  case (Cons a as)
  then obtain e1 fs1 where "admin_step K p sreg vreg a (e, fs) = Inr (e1, fs1)" "admin_run K p sreg vreg as (e1, fs1) = Inr (e', fs')"
    by (auto simp: res_bind_Inr_conv)
  then show ?case using admin_step_dirs Cons.IH by blast
qed simp

lemma recreate_fails:
  assumes "disk_createStorage K p sreg driver name (e, fs) = Inr (e1, fs1)" "admin_run K p sreg vreg as (e1, fs1) = Inr (e2, fs2)"
    and "getStorage name e2 = -1"
  shows "disk_createStorage K p sreg driver name (e2, fs2) = Inl (RuntimeError ''mkdir() failed'')"
proof -
  obtain q where q: "path_at fs (storage_dir p name) = Inr q" "q \<in> fsDirs fs1"
    using assms(1) by (auto simp: disk_createStorage_def store_config_def res_bind_Inr_conv mkDir_iff writeFile_iff split: if_splits)
  have D: "fsDirs fs1 \<subseteq> fsDirs fs2" using admin_run_dirs[OF assms(2)] .
  have "path_at fs2 (storage_dir p name) = Inr q" by (rule path_mono[OF q(1)]) (use admin_step_dirs[of K p sreg Map.empty "NewStorage driver name" e fs e1 fs1] assms(1) D in \<open>auto simp: admin_step_def\<close>)
  then show ?thesis using assms(3) q(2) D by (auto simp: disk_createStorage_def mkDir_def)
qed

text \<open>A codec: the number of the value as a string of zeros.\<close>

instance char :: countable
  by countable_datatype

definition demo_config_codec :: config_codec where
  "demo_config_codec = \<lparr>encConfig = (\<lambda>x. replicate (to_nat x) 0), decConfig = (\<lambda>bs. from_nat (length bs)),
     encDescriptor = (\<lambda>d. replicate (to_nat d) 0), decDescriptor = (\<lambda>bs. from_nat (length bs))\<rparr>"

definition demo_disk :: fsys where
  "demo_disk = \<lparr>fsFiles = Map.empty, fsDirs = {[], [''db'']}\<rparr>"

definition demo_calls :: "admin_call list" where
  "demo_calls = [NewStorage ''F'' ''a'', NewStorage ''F'' ''b'', NewView ''J'' ''v'', DropStorage 1]"

definition demo_regs :: "string \<Rightarrow> nat option" where
  "demo_regs = (\<lambda>driver. if driver \<in> {''F'', ''J''} then Some 0 else None)"

lemma demo_create: "createConfig demo_config_codec ''/db'' (engine_new :: (nat, nat) engine) demo_disk \<noteq> Inl x"
  by (simp add: createConfig_def demo_disk_def fileExists_def mkDir_def path_at_def path_step_def config_path_def create_log_def
      open_file_def openSync_def store_config_def writeFileSync_def check_def)

lemma demo_runs: "createConfig demo_config_codec ''/db'' (engine_new :: (nat, nat) engine) demo_disk = Inr fs0 \<Longrightarrow>
    \<exists>e fs1. admin_run demo_config_codec ''/db'' demo_regs demo_regs demo_calls (engine_new, fs0) = Inr (e, fs1)
      \<and> writeConfig e = ([''b''], [''v''])"
  by (auto simp: createConfig_def demo_disk_def fileExists_def mkDir_def path_at_def path_step_def config_path_def create_log_def
      open_file_def openSync_def store_config_def writeFileSync_def check_def demo_calls_def admin_step_def disk_createStorage_def
      disk_createView_def disk_unlinkStorage_def unlinkStorage_def setupStorage_def setupView_def getStorage_def getView_def engine_new_def
      storage_dir_def view_dir_def descriptor_def demo_regs_def driver_at_def writeConfig_def driver_names_def List.map_filter_def)

lemma demo_codec_inverse:
  "decConfig demo_config_codec (encConfig demo_config_codec x) = x"
  "decDescriptor demo_config_codec (encDescriptor demo_config_codec d) = d"
  by (simp_all add: demo_config_codec_def)

theorem config_reload_witness:
  "\<exists>fs0 e fs1 sns vns. createConfig demo_config_codec ''/db'' (engine_new :: (nat, nat) engine) demo_disk = Inr fs0
    \<and> admin_run demo_config_codec ''/db'' demo_regs demo_regs demo_calls (engine_new, fs0) = Inr (e, fs1)
    \<and> read_config demo_config_codec ''/db'' fs1 = Inr (sns, vns) \<and> map fst sns = [''b''] \<and> map fst vns = [''v'']"
proof -
  obtain fs0 where c: "createConfig demo_config_codec ''/db'' (engine_new :: (nat, nat) engine) demo_disk = Inr fs0"
    using demo_create by (metis sumE)
  obtain e fs1 where r: "admin_run demo_config_codec ''/db'' demo_regs demo_regs demo_calls (engine_new, fs0) = Inr (e, fs1)"
    and w: "writeConfig e = ([''b''], [''v''])"
    using demo_runs[OF c] by blast
  have pl: "list_all plain_call demo_calls" by (simp add: demo_calls_def plain_call_def plain_def)
  show ?thesis using c r w config_reload[OF demo_codec_inverse c r] pl by (auto simp: writeConfig_def)
qed

end
