(* ===== verification/Js_Instance.thy ===== *)
theory Js_Instance
  imports Js_View_Driver Config_Store
begin

text \<open>
  The script of a view: \<open>JsView::JsInstance\<close> (\<open>shard/src/db/js-view.cpp\<close>) runs a script file in V8, collects
  the functions the script passes to \<open>hook\<close>, and calls them; \<open>createView\<close> and \<open>loadView\<close> make five
  instances. V8 is a parameter: its conversions between bytes, numbers and values, the calls of \<open>hook\<close>
  that running a script makes, and the call of a function. The result of a call depends only on the
  function and its arguments, and an exception that \<open>jsHook\<close> throws ends the run of the script.
\<close>

section \<open>The engine of the script\<close>

text \<open>
  \<open>jsString\<close> and \<open>jsCall\<close> give \<open>None\<close> for an empty handle (a string that can not be made, a function that
  throws). \<open>jsRun\<close> gives \<open>None\<close> for a script that does not compile, and otherwise the arguments of its calls
  of \<open>hook\<close> and whether it ends with an exception.
\<close>

record ('v, 'f) v8 =
  jsNumber :: "int \<Rightarrow> 'v"
  jsString :: "byte list \<Rightarrow> 'v option"
  jsUtf8 :: "'v \<Rightarrow> byte list"
  jsInt32 :: "'v \<Rightarrow> int"
  jsFunction :: "'v \<Rightarrow> 'f"
  jsCall :: "'f \<Rightarrow> 'v list \<Rightarrow> 'v option"
  jsRun :: "'v \<Rightarrow> ('v list list \<times> bool) option"

record 'f js_instance =
  hookExtractDoc :: "'f option"
  hookExtractKey :: "'f option"
  hookKeyOf :: "'f option"
  hookCompare :: "'f option"
  hookSerializeKey :: "'f option"
  hookDeserializeKey :: "'f option"
  hookReport :: "'f option"
  enableLog :: bool

definition js_instance_empty :: "'f js_instance" where
  "js_instance_empty = \<lparr>hookExtractDoc = None, hookExtractKey = None, hookKeyOf = None, hookCompare = None,
     hookSerializeKey = None, hookDeserializeKey = None, hookReport = None, enableLog = False\<rparr>"

definition utf8_text :: "('v, 'f) v8 \<Rightarrow> 'v \<Rightarrow> string" where
  "utf8_text J v = map (\<lambda>b. char_of (unat b)) (jsUtf8 J v)"

definition jsHook :: "('v, 'f) v8 \<Rightarrow> 'v list \<Rightarrow> 'f js_instance \<Rightarrow> 'f js_instance res" where
  "jsHook J info i =
     res_bind (check (length info = 2) (RuntimeError ''hook() expects exactly two arguments'')) (\<lambda>_.
     let func = jsFunction J (info ! 1); hook_name = utf8_text J (info ! 0) in
     if hook_name = ''extractDoc'' then Inr (i\<lparr>hookExtractDoc := Some func\<rparr>)
     else if hook_name = ''extractKey'' then Inr (i\<lparr>hookExtractKey := Some func\<rparr>)
     else if hook_name = ''keyOf'' then Inr (i\<lparr>hookKeyOf := Some func\<rparr>)
     else if hook_name = ''compare'' then Inr (i\<lparr>hookCompare := Some func\<rparr>)
     else if hook_name = ''serializeKey'' then Inr (i\<lparr>hookSerializeKey := Some func\<rparr>)
     else if hook_name = ''deserializeKey'' then Inr (i\<lparr>hookDeserializeKey := Some func\<rparr>)
     else if hook_name = ''report'' then Inr (i\<lparr>hookReport := Some func\<rparr>)
     else Inl (RuntimeError (''Illegal hook '' @ hook_name)))"

definition jsLog :: "('v, 'f) v8 \<Rightarrow> 'v list \<Rightarrow> 'f js_instance \<Rightarrow> byte list" where
  "jsLog J info i = (if enableLog i then concat (map (\<lambda>v. takeWhile (\<lambda>b. b \<noteq> 0) (jsUtf8 J v)) info) @ [10] else [])"

fun run_hooks :: "('v, 'f) v8 \<Rightarrow> 'v list list \<Rightarrow> 'f js_instance \<Rightarrow> 'f js_instance res" where
  "run_hooks J [] i = Inr i"
| "run_hooks J (info # infos) i = res_bind (jsHook J info i) (run_hooks J infos)"

definition toLocalChecked :: "'v option \<Rightarrow> 'v res" where
  "toLocalChecked x = (case x of None \<Rightarrow> Inl (AssertFailed) | Some v \<Rightarrow> Inr v)"

definition js_instance_new :: "('v, 'f) v8 \<Rightarrow> string \<Rightarrow> fsys \<Rightarrow> 'f js_instance res" where
  "js_instance_new J script_path fs =
     res_bind (readFileSync script_path fs) (\<lambda>buffer.
     res_bind (toLocalChecked (jsString J buffer)) (\<lambda>source.
     case jsRun J source of
       None \<Rightarrow> Inl (RuntimeError ''Exception while compiling script'')
     | Some (infos, thrown) \<Rightarrow>
         res_bind (run_hooks J infos js_instance_empty) (\<lambda>i.
         res_bind (check (\<not> thrown) (RuntimeError ''Exception while executing script'')) (\<lambda>_. Inr i))))"

section \<open>The hooks\<close>









section \<open>What the closures compute with an instance\<close>




section \<open>Setting up a view\<close>

record view_config =
  cfgStorage :: "string option"
  cfgScript :: "string option"

record 'f js_setup =
  setStorageName :: string
  setScriptFile :: string
  setIdle :: "'f js_instance list"
  setView :: js_view

fun js_instances :: "nat \<Rightarrow> ('v, 'f) v8 \<Rightarrow> string \<Rightarrow> fsys \<Rightarrow> 'f js_instance list res" where
  "js_instances 0 J script_path fs = Inr []"
| "js_instances (Suc n) J script_path fs =
     res_bind (js_instance_new J script_path fs) (\<lambda>i. res_bind (js_instances n J script_path fs) (\<lambda>ins. Inr (i # ins)))"

definition js_setup_with :: "('v, 'f) v8 \<Rightarrow> (string \<Rightarrow> int) \<Rightarrow> string \<Rightarrow> string \<Rightarrow> string \<Rightarrow> fsys \<Rightarrow> 'f js_setup res" where
  "js_setup_with J getS path storage script fs =
     res_bind (js_instances 5 J (path @ ''/../../extern/'' @ script) fs) (\<lambda>is.
     res_bind (createView_files (getS storage)) (\<lambda>v.
     Inr \<lparr>setStorageName = storage, setScriptFile = script, setIdle = is, setView = v\<rparr>))"

definition js_createView :: "('v, 'f) v8 \<Rightarrow> (view_config \<Rightarrow> byte list) \<Rightarrow> (string \<Rightarrow> int) \<Rightarrow> string \<Rightarrow> view_config \<Rightarrow> fsys
    \<Rightarrow> ('f js_setup \<times> fsys) res" where
  "js_createView J enc getS path config fs = (case (cfgStorage config, cfgScript config) of
     (Some storage, Some script) \<Rightarrow>
       res_bind (writeFileSync (path @ ''/config'') (enc config) fs) (\<lambda>fs.
       res_bind (js_setup_with J getS path storage script fs) (\<lambda>u. Inr (u, fs)))
   | _ \<Rightarrow> Inl (RuntimeError ''Illegal configuration for JsView''))"

definition js_loadView :: "('v, 'f) v8 \<Rightarrow> (byte list \<Rightarrow> view_config) \<Rightarrow> (string \<Rightarrow> int) \<Rightarrow> string \<Rightarrow> fsys \<Rightarrow> 'f js_setup res" where
  "js_loadView J dec getS path fs =
     res_bind (readFileSync (path @ ''/config'') fs) (\<lambda>bs.
     let config = dec bs in
     case (cfgStorage config, cfgScript config) of
       (Some storage, Some script) \<Rightarrow> js_setup_with J getS path storage script fs
     | _ \<Rightarrow> Inl (RuntimeError ''Illegal configuration for JsView''))"

section \<open>The hooks of a script\<close>

definition hook_names :: "string list" where
  "hook_names = [''extractDoc'', ''extractKey'', ''keyOf'', ''compare'', ''serializeKey'', ''deserializeKey'', ''report'']"

definition hook_of :: "'f js_instance \<Rightarrow> string \<rightharpoonup> 'f" where
  "hook_of i n = (if n = ''extractDoc'' then hookExtractDoc i else if n = ''extractKey'' then hookExtractKey i
     else if n = ''keyOf'' then hookKeyOf i else if n = ''compare'' then hookCompare i
     else if n = ''serializeKey'' then hookSerializeKey i else if n = ''deserializeKey'' then hookDeserializeKey i
     else if n = ''report'' then hookReport i else None)"

definition hook_call :: "('v, 'f) v8 \<Rightarrow> 'v list \<Rightarrow> bool" where
  "hook_call J info \<longleftrightarrow> length info = 2 \<and> utf8_text J (info ! 0) \<in> set hook_names"

text \<open>The function that the last call of \<open>hook\<close> with a name sets.\<close>

fun last_hook :: "('v, 'f) v8 \<Rightarrow> 'v list list \<Rightarrow> string \<rightharpoonup> 'f" where
  "last_hook J [] n = None"
| "last_hook J (info # infos) n = (case last_hook J infos n of Some f \<Rightarrow> Some f
     | None \<Rightarrow> if utf8_text J (info ! 0) = n then Some (jsFunction J (info ! 1)) else None)"

lemma jsHook_sets:
  assumes "hook_call J info"
  shows "\<exists>i'. jsHook J info i = Inr i' \<and> enableLog i' = enableLog i
    \<and> hook_of i' = (hook_of i)(utf8_text J (info ! 0) \<mapsto> jsFunction J (info ! 1))"
  using assms by (auto simp: hook_call_def hook_names_def jsHook_def hook_of_def fun_eq_iff)

lemma jsHook_throws: "\<not> hook_call J info \<Longrightarrow> \<exists>msg. jsHook J info i = Inl (RuntimeError msg)"
  by (cases "length info = 2") (auto simp: hook_call_def hook_names_def jsHook_def)

lemma run_hooks_sets:
  "list_all (hook_call J) infos \<Longrightarrow> \<exists>i'. run_hooks J infos i = Inr i' \<and> enableLog i' = enableLog i
    \<and> hook_of i' = (\<lambda>n. case last_hook J infos n of Some f \<Rightarrow> Some f | None \<Rightarrow> hook_of i n)"
proof (induction infos arbitrary: i)
  case (Cons info infos)
  obtain i1 where 1: "jsHook J info i = Inr i1" "enableLog i1 = enableLog i"
    "hook_of i1 = (hook_of i)(utf8_text J (info ! 0) \<mapsto> jsFunction J (info ! 1))"
    using jsHook_sets[of J info i] Cons.prems by auto
  obtain i2 where 2: "run_hooks J infos i1 = Inr i2" "enableLog i2 = enableLog i1"
    "hook_of i2 = (\<lambda>n. case last_hook J infos n of Some f \<Rightarrow> Some f | None \<Rightarrow> hook_of i1 n)"
    using Cons.IH[of i1] Cons.prems by auto
  show ?case using 1 2 by (auto simp: fun_eq_iff split: option.split)
qed simp

text \<open>A script with a wrong call of \<open>hook\<close> makes no instance.\<close>

lemma run_hooks_throws: "\<not> list_all (hook_call J) infos \<Longrightarrow> \<exists>msg. run_hooks J infos i = Inl (RuntimeError msg)"
proof (induction infos arbitrary: i)
  case (Cons info infos)
  show ?case
  proof (cases "hook_call J info")
    case True
    then show ?thesis using Cons jsHook_sets[of J info i] by auto
  qed (use jsHook_throws[of J info i] in auto)
qed simp

text \<open>Nothing sets \<open>p_enableLog\<close>, so \<open>log\<close> prints nothing.\<close>

lemma log_silent: "js_instance_new J path fs = Inr i \<Longrightarrow> jsLog J info i = []"
proof -
  assume "js_instance_new J path fs = Inr i"
  then obtain infos where "run_hooks J infos js_instance_empty = Inr i"
    by (auto simp: js_instance_new_def res_bind_Inr_conv split: option.splits)
  then show ?thesis
    using run_hooks_sets[of J infos js_instance_empty] run_hooks_throws[of J infos js_instance_empty]
    by (cases "list_all (hook_call J) infos") (auto simp: jsLog_def js_instance_empty_def)
qed




section \<open>Loading a view again\<close>

text \<open>Administrative calls write the configuration and the descriptors, and no other file.\<close>

definition other_file :: "string list \<Rightarrow> string list \<Rightarrow> bool" where
  "other_file b q \<longleftrightarrow> q \<noteq> b @ [''config''] \<and> (\<forall>kind n. q \<noteq> b @ [kind, n, ''descriptor''])"

lemma driver_files_keep:
  "has_file fs q bs \<Longrightarrow> other_file b q \<Longrightarrow> fsFiles fs (b @ [kind, name]) = None \<Longrightarrow> has_file (driver_files K b kind name driver c fs) q bs"
  by (auto simp: has_file_def other_file_def driver_files_def)

lemma admin_step_keeps:
  assumes "path_at fs p = Inr b" "admin_step K p sreg vreg a (e, fs) = Inr (e', fs')" "plain_call a"
  shows "path_at fs' p = Inr b" "has_file fs q bs \<Longrightarrow> other_file b q \<Longrightarrow> has_file fs' q bs"
proof -
  show "path_at fs' p = Inr b" using path_mono[OF assms(1)] admin_step_dirs[OF assms(2)] by blast
  assume h: "has_file fs q bs" "other_file b q"
  show "has_file fs' q bs"
  proof (cases a)
    case (NewStorage driver name)
    then have pl: "plain name" using assms(3) by (simp add: plain_call_def)
    obtain fs1 fs2 where s: "mkDir (storage_dir p name) fs = Inr fs1"
      "writeFileSync (descriptor (storage_dir p name)) (encDescriptor K driver) fs1 = Inr fs2" "store_config K p e' fs2 = Inr fs'"
      using assms(2) NewStorage by (auto simp: admin_step_def disk_createStorage_def res_bind_Inr_conv split: if_splits)
    have "path_at fs (storage_dir p name) = walk (fsDirs fs) b [''storages'', name]" using assms(1) driver_dir_at(1)[OF pl] by simp
    from create_on_disk[OF assms(1) s(1,2) s(3)[unfolded store_config_def] plain_names(1) pl this] show ?thesis
      using driver_files_keep[OF h] by simp
  next
    case (NewView driver name)
    then have pl: "plain name" using assms(3) by (simp add: plain_call_def)
    obtain fs1 fs2 where s: "mkDir (view_dir p name) fs = Inr fs1"
      "writeFileSync (descriptor (view_dir p name)) (encDescriptor K driver) fs1 = Inr fs2" "store_config K p e' fs2 = Inr fs'"
      using assms(2) NewView by (auto simp: admin_step_def disk_createView_def res_bind_Inr_conv split: if_splits)
    have "path_at fs (view_dir p name) = walk (fsDirs fs) b [''views'', name]" using assms(1) driver_dir_at(2)[OF pl] by simp
    from create_on_disk[OF assms(1) s(1,2) s(3)[unfolded store_config_def] plain_names(2) pl this] show ?thesis
      using driver_files_keep[OF h] by simp
  next
    case (DropStorage i)
    then have "store_config K p e' fs = Inr fs'"
      using assms(2) by (auto simp: admin_step_def disk_unlinkStorage_def res_bind_Inr_conv)
    from store_config_on_disk[OF this assms(1)] show ?thesis using h by (auto simp: has_file_def other_file_def)
  next
    case (DropView i)
    then have "store_config K p e' fs = Inr fs'"
      using assms(2) by (auto simp: admin_step_def disk_unlinkView_def res_bind_Inr_conv)
    from store_config_on_disk[OF this assms(1)] show ?thesis using h by (auto simp: has_file_def other_file_def)
  qed
qed

lemma admin_run_keeps:
  "path_at fs p = Inr b \<Longrightarrow> admin_run K p sreg vreg as (e, fs) = Inr (e', fs') \<Longrightarrow> list_all plain_call as \<Longrightarrow>
    has_file fs q bs \<Longrightarrow> other_file b q \<Longrightarrow> has_file fs' q bs"
proof (induction as arbitrary: e fs)
  case (Cons a as)
  then obtain e1 fs1 where s: "admin_step K p sreg vreg a (e, fs) = Inr (e1, fs1)" "admin_run K p sreg vreg as (e1, fs1) = Inr (e', fs')"
    by (auto simp: res_bind_Inr_conv)
  have pl: "plain_call a" using Cons.prems(3) by simp
  show ?case using Cons.IH[OF _ s(2)] admin_step_keeps[OF Cons.prems(1) s(1) pl] Cons.prems(3-5) by simp
qed simp

text \<open>The files of a view: its configuration, and the script in the directory for external files.\<close>

lemma view_config_at:
  assumes "path_at fs (view_dir p name) = Inr d"
  shows "path_at fs (view_dir p name @ ''/config'') = (if d \<in> fsDirs fs then Inr (d @ [''config'']) else Inl d)"
  using assms by (simp add: path_slash components_plain path_step_def)

lemma script_path_at:
  assumes "path_at fs (view_dir p name) = Inr (b @ [''views'', name])" "plain script"
    and "path_at fs (view_dir p name @ ''/../../extern/'' @ script) = Inr q"
  shows "q = b @ [''extern'', script]"
proof -
  have "components (''../../extern/'' @ script) = [''..'', ''..'', ''extern'', script]"
    using components_plain[of script] assms(2) by (simp add: plain_def)
  then show ?thesis using assms path_slash[of fs "view_dir p name" "''../../extern/'' @ script"]
    by (auto simp: path_step_def plain_def butlast_append split: if_splits)
qed

lemma js_instances_cong:
  "readFileSync path fs' = readFileSync path fs \<Longrightarrow> js_instances n J path fs' = js_instances n J path fs"
  by (induction n) (simp_all add: js_instance_new_def)

lemma createView_files_storage:
  "createView_files st = Inr v \<Longrightarrow> createView_files st' = Inr (v\<lparr>viewStorage := st'\<rparr>)"
  by (auto simp: createView_files_def res_bind_Inr_conv)

lemma js_setup_again:
  assumes "js_setup_with J getS path storage script fs = Inr u"
    and "readFileSync (path @ ''/../../extern/'' @ script) fs' = readFileSync (path @ ''/../../extern/'' @ script) fs"
  shows "js_setup_with J getS' path storage script fs' = Inr (u\<lparr>setView := (setView u)\<lparr>viewStorage := getS' storage\<rparr>\<rparr>)"
proof -
  obtain ins v where "js_instances 5 J (path @ ''/../../extern/'' @ script) fs = Inr ins" "createView_files (getS storage) = Inr v"
    "u = \<lparr>setStorageName = storage, setScriptFile = script, setIdle = ins, setView = v\<rparr>"
    using assms(1) unfolding js_setup_with_def res_bind_Inr_conv by blast
  then show ?thesis unfolding js_setup_with_def js_instances_cong[OF assms(2), of 5 J]
    by (simp add: createView_files_storage[where st' = "getS' storage"])
qed

text \<open>
  C37. A view that was created is loaded again. After the view was created and its descriptor written, and after any
  further creations and removals of storages and views, loading it reads back its configuration, runs the same
  script, and gives the same five instances with the same hooks and an empty view, on the storage that now has the
  name of the configuration.
\<close>

theorem view_reload:
  assumes "dec (enc config) = config" "path_at fs p = Inr b" "plain name" "cfgScript config = Some script" "plain script"
    and "js_createView J enc getS (view_dir p name) config fs = Inr (u, fs1)"
    and "writeFileSync (descriptor (view_dir p name)) d fs1 = Inr fs2"
    and "admin_run K p sreg vreg calls (e, fs2) = Inr (e', fs3)" "list_all plain_call calls"
  shows "js_loadView J dec getS' (view_dir p name) fs3 = Inr (u\<lparr>setView := (setView u)\<lparr>viewStorage := getS' (setStorageName u)\<rparr>\<rparr>)"
proof -
  let ?q = "b @ [''views'', name, ''config'']" and ?s = "b @ [''extern'', script]" and ?x = "view_dir p name @ ''/../../extern/'' @ script"
  obtain storage where st: "cfgStorage config = Some storage" "writeFileSync (view_dir p name @ ''/config'') (enc config) fs = Inr fs1"
    "js_setup_with J getS (view_dir p name) storage script fs1 = Inr u"
    using assms(4,6) by (auto simp: js_createView_def res_bind_Inr_conv split: option.splits)
  then obtain w where "path_at fs (view_dir p name @ ''/config'') = Inr w" by (auto simp: writeFile_iff)
  then have v: "path_at fs (view_dir p name) = Inr (b @ [''views'', name])" "b @ [''views'', name] \<in> fsDirs fs"
    using path_slash[of fs "view_dir p name" "''config''"] assms(2) driver_dir_at(2)[OF assms(3), of fs p] assms(3)
    by (auto simp: components_plain split: sum.splits if_splits)
  have 1: "fs1 = fs\<lparr>fsFiles := (fsFiles fs)(?q \<mapsto> enc config)\<rparr>" "has_file fs1 ?q (enc config)"
    using st(2) v by (auto simp: writeFile_iff view_config_at has_file_def)
  obtain i where "js_instance_new J ?x fs1 = Inr i"
    using st(3) by (auto simp: js_setup_with_def res_bind_Inr_conv numeral_eq_Suc)
  then obtain src where src: "readFileSync ?x fs1 = Inr src" by (auto simp: js_instance_new_def res_bind_Inr_conv)
  have v1: "path_at fs1 (view_dir p name) = Inr (b @ [''views'', name])" by (rule path_mono[OF v(1)]) (simp add: 1(1))
  from src script_path_at[OF v1 assms(5)] have s1: "path_at fs1 ?x = Inr ?s" "has_file fs1 ?s src" by (auto simp: readFile_iff)
  have p2: "path_at fs2 p = Inr b" "fsDirs fs2 = fsDirs fs1"
    using assms(7) path_mono[OF assms(2), of fs2] by (auto simp: writeFile_iff 1(1))
  have "has_file fs2 ?q (enc config)" "has_file fs2 ?s src"
    using assms(7) 1(2) s1(2) v1 by (auto simp: writeFile_iff has_file_def descriptor_at split: if_splits)
  then have h3: "has_file fs3 ?q (enc config)" "has_file fs3 ?s src"
    using admin_run_keeps[OF p2(1) assms(8,9)] by (simp_all add: other_file_def)
  have D: "fsDirs fs1 \<subseteq> fsDirs fs3" using admin_run_dirs[OF assms(8)] p2(2) by simp
  have "readFileSync ?x fs3 = Inr src" unfolding readFile_iff using path_mono[OF s1(1) D] h3(2) by blast
  then have "readFileSync ?x fs3 = readFileSync ?x fs1" using src by simp
  moreover have "readFileSync (view_dir p name @ ''/config'') fs3 = Inr (enc config)"
    using view_config_at[OF path_mono[OF v1 D]] v(2) D h3(1) 1(1) by (auto simp: readFile_iff)
  moreover have "setStorageName u = storage" using st(3) by (auto simp: js_setup_with_def res_bind_Inr_conv)
  ultimately show ?thesis using js_setup_again[OF st(3), of fs3 getS'] assms(1,4) st(1) by (simp add: js_loadView_def)
qed

section \<open>A concrete engine\<close>

datatype demo_val = JNum int | JStr "byte list" | JFun string

definition name_bytes :: "string \<Rightarrow> byte list" where
  "name_bytes n = map (\<lambda>ch. word_of_nat (of_char ch)) n"

definition demo_v8 :: "(demo_val, string) v8" where
  "demo_v8 = \<lparr>jsNumber = JNum, jsString = (\<lambda>b. Some (JStr b)), jsUtf8 = (\<lambda>v. case v of JStr b \<Rightarrow> b | _ \<Rightarrow> []),
     jsInt32 = (\<lambda>v. case v of JNum n \<Rightarrow> n | _ \<Rightarrow> 0), jsFunction = (\<lambda>v. case v of JFun n \<Rightarrow> n | _ \<Rightarrow> []),
     jsCall = (\<lambda>f args. Some (if f = ''compare'' then JNum 0 else if f = ''extractDoc'' then args ! 1 else args ! 0)),
     jsRun = (\<lambda>src. Some (map (\<lambda>n. [JStr (name_bytes n), JFun n]) hook_names, False))\<rparr>"

lemma utf8_text_name: "utf8_text demo_v8 (JStr (name_bytes n)) = n"
proof -
  have "unat (word_of_nat (of_char ch) :: byte) = of_char ch" for ch :: char by (simp add: unat_of_nat take_bit_eq_mod)
  then show ?thesis by (simp add: utf8_text_def demo_v8_def name_bytes_def comp_def)
qed

lemma demo_hooks:
  "jsRun demo_v8 s = Some (map (\<lambda>n. [JStr (name_bytes n), JFun n]) hook_names, False)"
  "list_all (hook_call demo_v8) (map (\<lambda>n. [JStr (name_bytes n), JFun n]) hook_names)"
  "\<forall>n \<in> set hook_names. last_hook demo_v8 (map (\<lambda>n. [JStr (name_bytes n), JFun n]) hook_names) n = Some n \<and> (\<forall>args. jsCall demo_v8 n args \<noteq> None)"
proof -
  have f: "jsFunction demo_v8 (JFun n) = n" for n by (simp add: demo_v8_def)
  have c: "jsCall demo_v8 n args \<noteq> None" for n args by (simp add: demo_v8_def)
  show "jsRun demo_v8 s = Some (map (\<lambda>n. [JStr (name_bytes n), JFun n]) hook_names, False)" by (simp add: demo_v8_def)
  show "list_all (hook_call demo_v8) (map (\<lambda>n. [JStr (name_bytes n), JFun n]) hook_names)"
    by (simp add: hook_call_def utf8_text_name list_all_iff)
  show "\<forall>n \<in> set hook_names. last_hook demo_v8 (map (\<lambda>n. [JStr (name_bytes n), JFun n]) hook_names) n = Some n \<and> (\<forall>args. jsCall demo_v8 n args \<noteq> None)"
    by (simp add: hook_names_def utf8_text_name f c)
qed

definition demo_script_disk :: fsys where
  "demo_script_disk = \<lparr>fsFiles = [[''db'', ''extern'', ''s''] \<mapsto> []],
     fsDirs = {[], [''db''], [''db'', ''storages''], [''db'', ''views''], [''db'', ''extern''], [''db'', ''views'', ''v'']}\<rparr>"


definition demo_view_config :: view_config where
  "demo_view_config = \<lparr>cfgStorage = Some ''a'', cfgScript = Some ''s''\<rparr>"

lemma demo_instance: "readFileSync path fs = Inr src \<Longrightarrow> \<exists>i :: string js_instance. js_instance_new demo_v8 path fs = Inr i"
  using run_hooks_sets[OF demo_hooks(2), of js_instance_empty]
  by (auto simp: js_instance_new_def toLocalChecked_def demo_hooks(1) demo_v8_def)

lemma js_instances_same: "js_instance_new J path fs = Inr i \<Longrightarrow> js_instances n J path fs = Inr (replicate n i)"
  by (induction n) simp_all

lemma demo_setup:
  assumes "readFileSync (path @ ''/../../extern/'' @ script) fs = Inr src"
  shows "\<exists>u. js_setup_with demo_v8 getS path storage script fs = Inr u \<and> length (setIdle u) = 5"
proof -
  obtain i v where i: "js_instance_new demo_v8 (path @ ''/../../extern/'' @ script) fs = Inr (i :: string js_instance)"
    and v: "createView_files (getS storage) = Inr v"
    using demo_instance[OF assms] createView_files_inv by metis
  from js_instances_same[OF i, of 5] v show ?thesis unfolding js_setup_with_def by simp
qed

text \<open>The disk after the configuration of the view was written, and after its descriptor was.\<close>

definition demo_disk1 :: fsys where
  "demo_disk1 = demo_script_disk\<lparr>fsFiles := (fsFiles demo_script_disk)([''db'', ''views'', ''v'', ''config''] \<mapsto> [])\<rparr>"

definition demo_disk2 :: fsys where
  "demo_disk2 = demo_disk1\<lparr>fsFiles := (fsFiles demo_disk1)([''db'', ''views'', ''v'', ''descriptor''] \<mapsto> [0])\<rparr>"

lemma demo_writes:
  "writeFileSync (view_dir ''/db'' ''v'' @ ''/config'') [] demo_script_disk = Inr demo_disk1"
  "writeFileSync (descriptor (view_dir ''/db'' ''v'')) [0] demo_disk1 = Inr demo_disk2"
  "readFileSync (view_dir ''/db'' ''v'' @ ''/../../extern/'' @ ''s'') demo_disk1 = Inr []"
  unfolding writeFile_iff readFile_iff
  by (simp_all add: path_at_def path_step_def has_file_def demo_script_disk_def demo_disk1_def demo_disk2_def view_dir_def descriptor_def)

lemma demo_admin: "\<exists>x. admin_run demo_config_codec ''/db'' demo_regs demo_regs [NewStorage ''F'' ''a''] ((engine_new :: (nat, nat) engine), demo_disk2) = Inr x"
  by (simp add: mkDir_def path_at_def path_step_def config_path_def open_file_def openSync_def store_config_def writeFileSync_def
      admin_step_def disk_createStorage_def setupStorage_def getStorage_def engine_new_def storage_dir_def descriptor_def demo_regs_def
      demo_script_disk_def demo_disk1_def demo_disk2_def)

theorem view_reload_witness:
  "\<exists>u e' fs3. js_createView demo_v8 (\<lambda>_. []) (\<lambda>_. 1) (view_dir ''/db'' ''v'') demo_view_config demo_script_disk = Inr (u, demo_disk1)
    \<and> admin_run demo_config_codec ''/db'' demo_regs demo_regs [NewStorage ''F'' ''a''] ((engine_new :: (nat, nat) engine), demo_disk2) = Inr (e', fs3)
    \<and> length (setIdle u) = 5
    \<and> js_loadView demo_v8 (\<lambda>_. demo_view_config) (\<lambda>_. 2) (view_dir ''/db'' ''v'') fs3 = Inr (u\<lparr>setView := (setView u)\<lparr>viewStorage := 2\<rparr>\<rparr>)"
proof -
  obtain u where u: "js_setup_with demo_v8 (\<lambda>_. 1) (view_dir ''/db'' ''v'') ''a'' ''s'' demo_disk1 = Inr u" "length (setIdle u) = 5"
    using demo_setup[OF demo_writes(3)] by blast
  have c: "js_createView demo_v8 (\<lambda>_. []) (\<lambda>_. 1) (view_dir ''/db'' ''v'') demo_view_config demo_script_disk = Inr (u, demo_disk1)"
    using u(1) demo_writes(1) by (simp add: js_createView_def demo_view_config_def)
  obtain e' fs3 where r: "admin_run demo_config_codec ''/db'' demo_regs demo_regs [NewStorage ''F'' ''a''] ((engine_new :: (nat, nat) engine), demo_disk2) = Inr (e', fs3)"
    using demo_admin by fastforce
  have p: "path_at demo_script_disk ''/db'' = Inr [''db'']" by (simp add: path_at_def path_step_def demo_script_disk_def)
  have s: "plain ''v''" "plain ''s''" "cfgScript demo_view_config = Some ''s''" "list_all plain_call [NewStorage ''F'' ''a'']"
    by (simp_all add: plain_def demo_view_config_def plain_call_def)
  from view_reload[where enc = "\<lambda>_. []" and dec = "\<lambda>_. demo_view_config" and getS' = "\<lambda>_. 2", OF refl p s(1,3,2) c demo_writes(2) r s(4)]
  show ?thesis using c r u(2) by blast
qed

end
