(* ===== verification/Write_Ahead.thy ===== *)
theory Write_Ahead
  imports File_Io Engine_Replay
begin

text \<open>
  \<open>Ll::WriteAhead\<close> (\<open>shard/src/ll/write-ahead.cpp\<close>): the log as a file of records, each the length of
  the message (four bytes, little-endian), its MD5 hash (sixteen bytes) and the message. Protobuf and
  MD5 are not part of the sources: \<open>ser\<close> is \<open>SerializeToArray\<close>, with \<open>ByteSize\<close> the length of what it
  writes, \<open>parse\<close> is \<open>ParseFromArray\<close> and \<open>md5\<close> is \<open>Md5::hash\<close>; \<open>junk\<close> is what uninitialised memory
  holds. The build is the little-endian one.
\<close>

record codec =
  ser :: "log_entry \<Rightarrow> byte list"
  parse :: "byte list \<Rightarrow> log_entry option"
  md5 :: "byte list \<Rightarrow> byte list"
  junk :: byte

definition createLog :: "byte list option \<Rightarrow> lfile res" where
  "createLog content = openSync \<lparr>modeCreate = True, modeTrunc = False\<rparr> content"

definition loadLog :: "byte list option \<Rightarrow> lfile res" where
  "loadLog content = res_bind (openSync \<lparr>modeCreate = False, modeTrunc = False\<rparr> content) (\<lambda>f. Inr (seekEnd f))"

text \<open>The head of a record; \<open>msg_length\<close> is an \<open>int\<close> that is converted to \<open>uint64_t\<close> and cut to 32 bits.\<close>

definition wa_head :: "codec \<Rightarrow> byte list \<Rightarrow> byte list" where
  "wa_head C msg = to_le 4 (ucast (toLe (word_of_nat (length msg))) :: 32 word) @ md5 C msg"

definition wa_log :: "codec \<Rightarrow> log_entry \<Rightarrow> lfile \<Rightarrow> lfile" where
  "wa_log C message f = (let msg = ser C message in writeSync (wa_head C msg @ msg) f)"

text \<open>The loop of \<open>replay\<close>; \<open>on_entry\<close> acts on a state \<open>s\<close>.\<close>

function wa_replay_loop :: "codec \<Rightarrow> (log_entry \<Rightarrow> 's \<Rightarrow> 's res) \<Rightarrow> nat \<Rightarrow> nat \<Rightarrow> lfile \<Rightarrow> 's \<Rightarrow> ('s \<times> lfile) res" where
  "wa_replay_loop C on_entry len position f s =
     (if len \<le> position then Inr (s, f)
      else
        let (head, f) = readSync (replicate 20 (junk C)) f;
            msg_length = unat (ucast (fromLe (ucast (of_le (take 4 head) :: 32 word))) :: 32 word);
            (buffer, f) = readSync (replicate msg_length (junk C)) f in
        if take 16 (drop 4 head) \<noteq> md5 C buffer then Inl (RuntimeError ''WriteAhead: Hash mismatch!'')
        else (case parse C buffer of
          None \<Rightarrow> Inl (RuntimeError ''Could not deserialize protobuf'')
        | Some entry \<Rightarrow> res_bind (on_entry entry s)
            (wa_replay_loop C on_entry len (position + (20 + msg_length)) f)))"
  by pat_completeness auto
termination
  by (relation "measure (\<lambda>(C, g, len, position, f, s). len - position)") auto

declare wa_replay_loop.simps [simp del]

definition wa_replay :: "codec \<Rightarrow> (log_entry \<Rightarrow> 's \<Rightarrow> 's res) \<Rightarrow> lfile \<Rightarrow> 's \<Rightarrow> ('s \<times> lfile) res" where
  "wa_replay C on_entry f s = wa_replay_loop C on_entry (lengthSync f) 0 (seekTo 0 f) s"

section \<open>The contract of protobuf and MD5\<close>

text \<open>
  Of the messages that are logged: they parse back and their size is a positive \<open>int\<close>. A hash has
  sixteen bytes.
\<close>

definition codec_ok :: "codec \<Rightarrow> log_entry list \<Rightarrow> bool" where
  "codec_ok C ms \<longleftrightarrow> (\<forall>m \<in> set ms. parse C (ser C m) = Some m \<and> length (ser C m) < 2 ^ 31) \<and> (\<forall>bs. length (md5 C bs) = 16)"

definition wa_record :: "codec \<Rightarrow> log_entry \<Rightarrow> byte list" where
  "wa_record C m = wa_head C (ser C m) @ ser C m"

definition wa_bytes :: "codec \<Rightarrow> log_entry list \<Rightarrow> byte list" where
  "wa_bytes C ms = concat (map (wa_record C) ms)"

lemma wa_bytes_simps [simp]: "wa_bytes C [] = []" "wa_bytes C (m # ms) = wa_record C m @ wa_bytes C ms"
  "wa_bytes C (ms @ ns) = wa_bytes C ms @ wa_bytes C ns"
  by (simp_all add: wa_bytes_def)

lemma length_wa_head: "codec_ok C ms \<Longrightarrow> length (wa_head C msg) = 20"
  by (simp add: wa_head_def codec_ok_def)

lemma head_length:
  assumes "n < 2 ^ 32"
  shows "unat (ucast (fromLe (ucast (of_le (to_le 4 (ucast (toLe (word_of_nat n)) :: 32 word)) :: 32 word))) :: 32 word) = n"
proof -
  have "ucast (word_of_nat n :: 64 word) = (word_of_nat n :: 32 word)"
    by (rule bit_word_eqI) (simp add: bit_simps)
  then show ?thesis using assms by (simp add: toLe_def fromLe_def of_le_to_le widen_narrow unat_of_nat take_bit_nat_eq_self unsigned_of_nat)
qed

text \<open>Logging appends a record.\<close>

lemma wa_log_append: "fpos f = length (fdata f) \<Longrightarrow> wa_log C m f
    = \<lparr>fdata = fdata f @ wa_record C m, fpos = length (fdata f) + length (wa_record C m)\<rparr>"
  by (cases f) (simp add: wa_log_def writeSync_def wa_record_def write_at_end Let_def)

text \<open>One record of the loop.\<close>

lemma readSync_append:
  assumes "fdata f = xs @ ys @ zs" "fpos f = length xs" "length buffer = length ys"
  shows "readSync buffer f = (ys, f\<lparr>fpos := length (xs @ ys)\<rparr>)"
  using assms read_at_append[of buffer ys xs zs] by (simp add: readSync_def)

lemma wa_replay_record:
  assumes msg: "length msg < 2 ^ 32" "length hash = 16"
    and f: "fdata f = xs @ (to_le 4 (ucast (toLe (word_of_nat (length msg))) :: 32 word) @ hash @ msg) @ ys" "fpos f = length xs"
    and len: "position < len"
  shows "wa_replay_loop C on_entry len position f s =
    (if hash \<noteq> md5 C msg then Inl (RuntimeError ''WriteAhead: Hash mismatch!'')
     else (case parse C msg of
         None \<Rightarrow> Inl (RuntimeError ''Could not deserialize protobuf'')
       | Some entry \<Rightarrow> res_bind (on_entry entry s)
            (wa_replay_loop C on_entry len (position + (20 + length msg)) (f\<lparr>fpos := length xs + 20 + length msg\<rparr>))))"
proof -
  let ?lb = "to_le 4 (ucast (toLe (word_of_nat (length msg))) :: 32 word)"
  let ?f1 = "f\<lparr>fpos := length xs + 20\<rparr>" and ?f2 = "f\<lparr>fpos := length xs + 20 + length msg\<rparr>"
  have h: "readSync (replicate 20 (junk C)) f = (?lb @ hash, ?f1)"
    using f msg(2) readSync_append[of f xs "?lb @ hash" "msg @ ys" "replicate 20 (junk C)"] by simp
  have m: "readSync (replicate (length msg) (junk C)) ?f1 = (msg, ?f2)"
    using f msg(2) readSync_append[of ?f1 "xs @ ?lb @ hash" msg ys "replicate (length msg) (junk C)"] by (simp add: add.commute)
  have t: "take 4 (?lb @ hash) = ?lb" "take 16 (drop 4 (?lb @ hash)) = hash" using msg(2) by simp_all
  show ?thesis
    unfolding wa_replay_loop.simps[of C on_entry len position f s] h Let_def prod.case t head_length[OF msg(1)] m
    using len by simp
qed

lemma wa_replay_entries:
  assumes "codec_ok C les" "fdata f = xs @ wa_bytes C les @ rest" "fpos f = length xs" "position = length xs"
    "len = length (fdata f)"
  shows "wa_replay_loop C (onEntry R get) len position f ps
    = res_bind (replay_entries R get les ps) (wa_replay_loop C (onEntry R get) len (position + length (wa_bytes C les))
        (f\<lparr>fpos := length xs + length (wa_bytes C les)\<rparr>))"
  using assms
proof (induction les arbitrary: xs f position ps)
  case Nil
  then have "f\<lparr>fpos := length xs\<rparr> = f" by simp
  then show ?case by simp
next
  case (Cons m les)
  let ?msg = "ser C m"
  have ok: "codec_ok C les" "parse C ?msg = Some m" "length ?msg < 2 ^ 32" "length (md5 C ?msg) = 16"
    using Cons.prems(1) by (auto simp: codec_ok_def)
  have rec: "wa_record C m = to_le 4 (ucast (toLe (word_of_nat (length ?msg))) :: 32 word) @ md5 C ?msg @ ?msg"
    by (simp add: wa_record_def wa_head_def)
  have len: "length (wa_record C m) = 20 + length ?msg" using ok(4) by (simp add: rec)
  let ?f = "f\<lparr>fpos := length xs + 20 + length ?msg\<rparr>"
  have step: "wa_replay_loop C (onEntry R get) len position f ps = res_bind (onEntry R get m ps)
      (wa_replay_loop C (onEntry R get) len (position + (20 + length ?msg)) ?f)"
    using wa_replay_record[OF ok(3,4), of f xs "wa_bytes C les @ rest" position len C] Cons.prems(2-5) ok(2) rec len
    by simp
  have IH: "wa_replay_loop C (onEntry R get) len (position + (20 + length ?msg)) ?f ps'
      = res_bind (replay_entries R get les ps') (wa_replay_loop C (onEntry R get) len
          (position + (20 + length ?msg) + length (wa_bytes C les)) (?f\<lparr>fpos := length (xs @ wa_record C m) + length (wa_bytes C les)\<rparr>))" for ps'
    by (rule Cons.IH[OF ok(1)]) (use Cons.prems(2-5) len in simp_all)
  show ?case
  proof (cases "onEntry R get m ps")
    case (Inr b)
    then show ?thesis using step IH[of b] len by (simp add: add.assoc)
  qed (use step in simp)
qed

section \<open>Properties\<close>

lemma log_all: "fpos f = length (fdata f) \<Longrightarrow> fold (wa_log C) les f
    = \<lparr>fdata = fdata f @ wa_bytes C les, fpos = length (fdata f @ wa_bytes C les)\<rparr>"
proof (induction les arbitrary: f)
  case (Cons m les)
  then show ?case by (simp add: wa_log_append)
qed (cases f; simp)

text \<open>
  C21. The log file is the log: the entries that were logged one after the other into a new log, loaded
  again after a restart, are replayed exactly, in their order, so replaying the file is replaying the
  list of the entries. This holds for every subclass of the replay and of every content of
  uninitialised memory.
\<close>

theorem wal_roundtrip:
  assumes "codec_ok C les" "createLog None = Inr f0" "loadLog (Some (fdata (fold (wa_log C) les f0))) = Inr f"
  shows "wa_replay C (onEntry R get) f ps = res_bind (replay_entries R get les ps) (\<lambda>r. Inr (r, f))"
proof -
  have "f0 = \<lparr>fdata = [], fpos = 0\<rparr>" using assms(2) by (simp add: createLog_def openSync_def)
  then have f: "f = \<lparr>fdata = wa_bytes C les, fpos = length (wa_bytes C les)\<rparr>"
    using assms(3) log_all[of f0 C les] by (simp add: loadLog_def openSync_def seekEnd_def)
  have "wa_replay C (onEntry R get) f ps = res_bind (replay_entries R get les ps)
      (wa_replay_loop C (onEntry R get) (lengthSync f) (length (wa_bytes C les)) (f\<lparr>fpos := length (wa_bytes C les)\<rparr>))"
    using wa_replay_entries[OF assms(1), of "seekTo 0 f" "[]" "[]" 0 "lengthSync f" R get ps] f
    by (simp add: wa_replay_def seekTo_def lengthSync_def)
  also have "wa_replay_loop C (onEntry R get) (lengthSync f) (length (wa_bytes C les)) (f\<lparr>fpos := length (wa_bytes C les)\<rparr>)
      = (\<lambda>r. Inr (r, f))"
    using f by (intro ext) (simp add: wa_replay_loop.simps lengthSync_def)
  finally show ?thesis .
qed

text \<open>
  Damage is noticed: when the file holds correct records followed by a record whose message is not
  the one that was hashed, the replay delivers the entries of the correct records and then throws.
\<close>

theorem wal_damage_detected:
  assumes "codec_ok C les" "replay_entries R get les ps = Inr ps'"
    "fdata f = wa_bytes C les @ wa_head C msg @ msg' @ rest" "length msg' = length msg" "length msg < 2 ^ 31"
    "md5 C msg' \<noteq> md5 C msg"
  shows "wa_replay C (onEntry R get) f ps = Inl (RuntimeError ''WriteAhead: Hash mismatch!'')"
proof -
  let ?n = "length (wa_bytes C les)" and ?f = "f\<lparr>fpos := length (wa_bytes C les)\<rparr>"
  have 1: "wa_replay C (onEntry R get) f ps = wa_replay_loop C (onEntry R get) (length (fdata f)) ?n ?f ps'"
    using wa_replay_entries[OF assms(1), of "seekTo 0 f" "[]" "wa_head C msg @ msg' @ rest" 0 "length (fdata f)" R get ps] assms(2,3)
    by (simp add: wa_replay_def seekTo_def lengthSync_def)
  have "length (md5 C msg) = 16" using assms(1) by (simp add: codec_ok_def)
  moreover have "?n < length (fdata f)" using assms(1,3) length_wa_head by (simp add: length_wa_head[OF assms(1)])
  ultimately show ?thesis
    using 1 wa_replay_record[of msg' "md5 C msg" ?f "wa_bytes C les" rest ?n "length (fdata f)" C "onEntry R get" ps'] assms(3-6)
    by (auto simp: wa_head_def)
qed

text \<open>
  C22. A torn write makes the log unusable: when the last record was cut within its message (the file
  was not synchronised), the replay does not stop before it. The missing bytes are whatever the
  uninitialised buffer holds; unless these happen to hash alike, the replay throws, and with it the
  restart of the engine.
\<close>

theorem wal_torn_tail_throws:
  assumes "codec_ok C les" "replay_entries R get les ps = Inr ps'"
    "fdata f = wa_bytes C les @ wa_head C msg @ take k msg" "k < length msg" "length msg < 2 ^ 31"
    "md5 C (take k msg @ replicate (length msg - k) (junk C)) \<noteq> md5 C msg"
  shows "wa_replay C (onEntry R get) f ps = Inl (RuntimeError ''WriteAhead: Hash mismatch!'')"
proof -
  let ?n = "length (wa_bytes C les)" and ?f = "f\<lparr>fpos := length (wa_bytes C les)\<rparr>"
  let ?lb = "to_le 4 (ucast (toLe (word_of_nat (length msg))) :: 32 word)" and ?f1 = "f\<lparr>fpos := length (wa_bytes C les) + 20\<rparr>"
  have 1: "wa_replay C (onEntry R get) f ps = wa_replay_loop C (onEntry R get) (length (fdata f)) ?n ?f ps'"
    using wa_replay_entries[OF assms(1), of "seekTo 0 f" "[]" "wa_head C msg @ take k msg" 0 "length (fdata f)" R get ps] assms(2,3)
    by (simp add: wa_replay_def seekTo_def lengthSync_def)
  have m5: "length (md5 C msg) = 16" using assms(1) by (simp add: codec_ok_def)
  have h: "readSync (replicate 20 (junk C)) ?f = (?lb @ md5 C msg, ?f1)"
    using m5 assms(3) readSync_append[of ?f "wa_bytes C les" "?lb @ md5 C msg" "take k msg" "replicate 20 (junk C)"]
    by (simp add: wa_head_def)
  have d: "fst (readSync (replicate (length msg) (junk C)) ?f1) = take k msg @ replicate (length msg - k) (junk C)"
    using m5 assms(3,4) by (simp add: readSync_def read_at_def wa_head_def Let_def)
  have t: "take 4 (?lb @ md5 C msg) = ?lb" "take 16 (drop 4 (?lb @ md5 C msg)) = md5 C msg" using m5 by simp_all
  have len: "\<not> length (fdata f) \<le> ?n" using assms(3) by (simp add: length_wa_head[OF assms(1)])
  have "length msg < 2 ^ 32" using assms(5) by simp
  note head = head_length[OF this]
  obtain b f2 where r: "readSync (replicate (length msg) (junk C)) ?f1 = (b, f2)" by fastforce
  have "wa_replay_loop C (onEntry R get) (length (fdata f)) ?n ?f ps' = Inl (RuntimeError ''WriteAhead: Hash mismatch!'')"
    unfolding wa_replay_loop.simps[of C _ "length (fdata f)" ?n ?f ps'] h Let_def prod.case t head r
    using len d r assms(6) by simp
  then show ?thesis using 1 by simp
qed

definition demo_entry :: log_entry where
  "demo_entry = \<lparr>leType = LogSubmitCommit, leSequence = 1, leTransaction = 1,
     leMutations = [\<lparr>lmType = MutInsert, lmStorage = ''docs'', lmDocument = 1, lmBuffer = [7]\<rparr>]\<rparr>"

definition demo_codec :: codec where
  "demo_codec = \<lparr>ser = (\<lambda>m. [5, 7]), parse = (\<lambda>bs. Some demo_entry), md5 = (\<lambda>bs. replicate 16 (sum_list bs)), junk = 0\<rparr>"

lemma demo_codec_ok: "codec_ok demo_codec [demo_entry, demo_entry]"
  by (simp add: codec_ok_def demo_codec_def)

theorem wal_roundtrip_witness:
  "wa_replay demo_codec (onEntry meta_hooks (\<lambda>n. 1)) \<lparr>fdata = wa_bytes demo_codec [demo_entry, demo_entry], fpos = 44\<rparr> ([], engine_new)
    = Inr (([], engine_new\<lparr>nextTransactId := 2, currentSequenceId := 1\<rparr>),
        \<lparr>fdata = wa_bytes demo_codec [demo_entry, demo_entry], fpos = 44\<rparr>)"
proof -
  have l: "length (wa_bytes demo_codec [demo_entry, demo_entry]) = 44"
    using length_wa_head[OF demo_codec_ok] by (simp add: wa_record_def) (simp add: demo_codec_def)
  have "createLog None = Inr \<lparr>fdata = [], fpos = 0\<rparr>" by (simp add: createLog_def openSync_def)
  from wal_roundtrip[OF demo_codec_ok this, of "\<lparr>fdata = wa_bytes demo_codec [demo_entry, demo_entry], fpos = 44\<rparr>"
      meta_hooks "\<lambda>n. 1" "([], engine_new)"] show ?thesis
    using l log_all[of "\<lparr>fdata = [], fpos = 0\<rparr>" demo_codec "[demo_entry, demo_entry]"]
    by (simp add: loadLog_def openSync_def seekEnd_def demo_entry_def onEntry_def replay_transaction_def meta_hooks_def engine_new_def)
qed

theorem wal_damage_detected_witness:
  "wa_replay demo_codec (onEntry meta_hooks (\<lambda>n. 1)) \<lparr>fdata = wa_head demo_codec [5, 7] @ [5, 8], fpos = 22\<rparr> ([], engine_new)
    = Inl (RuntimeError ''WriteAhead: Hash mismatch!'')"
proof (rule wal_damage_detected[where les = "[]" and rest = "[]" and msg = "[5, 7]" and msg' = "[5, 8]"])
  show "md5 demo_codec [5, 8] \<noteq> md5 demo_codec [5, 7]" by (simp add: demo_codec_def)
qed (simp_all add: codec_ok_def demo_codec_def)

theorem wal_torn_tail_throws_witness:
  "wa_replay demo_codec (onEntry meta_hooks (\<lambda>n. 1)) \<lparr>fdata = wa_head demo_codec [5, 7] @ [5], fpos = 21\<rparr> ([], engine_new)
    = Inl (RuntimeError ''WriteAhead: Hash mismatch!'')"
proof (rule wal_torn_tail_throws[where les = "[]" and k = 1 and msg = "[5, 7]"])
  show "md5 demo_codec (take 1 [5, 7] @ replicate (length [5, 7 :: byte] - 1) (junk demo_codec)) \<noteq> md5 demo_codec [5, 7]"
    by (simp add: demo_codec_def)
qed (simp_all add: codec_ok_def demo_codec_def)

end
