(* ===== verification/Btree_Layout.thy ===== *)
theory Btree_Layout
  imports Btree Bytes
begin

text \<open>
  The nodes of the B+-tree in the bytes of their pages: the offsets and accessors at the end of
  \<open>shard/include/ll/btree.hpp\<close>, and the operations of \<open>Btree\<close> as the code performs them, with \<open>memmove\<close>,
  \<open>memcpy\<close> and stores through pointers. Every access of an entry checks that it stays within the
  page (\<open>OutOfRange\<close>). They are shown to do what the operations on nodes do. Keys go through the
  callbacks \<open>readKey\<close> and \<open>writeKey\<close>, a record of two functions here; \<open>bo\<close> is the byte order of the host.
\<close>

section \<open>Memory\<close>

definition poke :: "nat \<Rightarrow> byte list \<Rightarrow> byte list \<Rightarrow> byte list res" where
  "poke off src b = (if off + length src \<le> length b then Inr (blit off src b) else Inl OutOfRange)"

definition memmove :: "nat \<Rightarrow> nat \<Rightarrow> nat \<Rightarrow> byte list \<Rightarrow> byte list res" where
  "memmove dst src n b = (if src + n \<le> length b then poke dst (bslice src n b) b else Inl OutOfRange)"

text \<open>A \<open>BlkIndexType\<close> field, stored with \<open>toLeU32\<close> or, in one place, without.\<close>

definition get32 :: "byte_order \<Rightarrow> nat \<Rightarrow> byte list \<Rightarrow> int" where
  "get32 bo off b = sint (fromLeU32 bo (load_u32 bo (bslice off 4 b)))"

definition set32 :: "byte_order \<Rightarrow> nat \<Rightarrow> int \<Rightarrow> byte list \<Rightarrow> byte list" where
  "set32 bo off n b = blit off (store_u32 bo (toLeU32 bo (word_of_int n))) b"

definition set32_native :: "byte_order \<Rightarrow> int \<Rightarrow> byte list" where
  "set32_native bo n = store_u32 bo (word_of_int n)"

section \<open>Offsets\<close>

definition entSizeInner :: "bt_cfg \<Rightarrow> nat" where
  "entSizeInner c = keySize c + 4"

definition entOffInner :: "bt_cfg \<Rightarrow> nat \<Rightarrow> nat" where
  "entOffInner c i = 8 + 4 + entSizeInner c * i"

definition lrefOffInner :: nat where
  "lrefOffInner = 8"

definition keyOffInner :: "bt_cfg \<Rightarrow> nat \<Rightarrow> nat" where
  "keyOffInner c i = entOffInner c i"

definition refOffInner :: "bt_cfg \<Rightarrow> nat \<Rightarrow> nat" where
  "refOffInner c i = entOffInner c i + keySize c"

definition entSizeLeaf :: "bt_cfg \<Rightarrow> nat" where
  "entSizeLeaf c = keySize c + valSize c"

definition entOffLeaf :: "bt_cfg \<Rightarrow> nat \<Rightarrow> nat" where
  "entOffLeaf c i = 16 + entSizeLeaf c * i"

definition valOffLeaf :: "bt_cfg \<Rightarrow> nat \<Rightarrow> nat" where
  "valOffLeaf c i = entOffLeaf c i"

definition keyOffLeaf :: "bt_cfg \<Rightarrow> nat \<Rightarrow> nat" where
  "keyOffLeaf c i = entOffLeaf c i + valSize c"

section \<open>Heads\<close>

definition headGetFlags :: "byte_order \<Rightarrow> byte list \<Rightarrow> 32 word" where
  "headGetFlags bo b = fromLeU32 bo (load_u32 bo (bslice 0 4 b))"

definition headSetFlags :: "byte_order \<Rightarrow> 32 word \<Rightarrow> byte list \<Rightarrow> byte list" where
  "headSetFlags bo flags b = blit 0 (store_u32 bo (toLeU32 bo flags)) b"

definition innerGetEntCount :: "byte_order \<Rightarrow> byte list \<Rightarrow> int" where
  "innerGetEntCount bo b = get32 bo 4 b"

definition innerSetEntCount :: "byte_order \<Rightarrow> int \<Rightarrow> byte list \<Rightarrow> byte list" where
  "innerSetEntCount bo n b = set32 bo 4 n b"

definition leafGetEntCount :: "byte_order \<Rightarrow> byte list \<Rightarrow> int" where
  "leafGetEntCount bo b = get32 bo 4 b"

definition leafSetEntCount :: "byte_order \<Rightarrow> int \<Rightarrow> byte list \<Rightarrow> byte list" where
  "leafSetEntCount bo n b = set32 bo 4 n b"

definition leafGetLeftLink :: "byte_order \<Rightarrow> byte list \<Rightarrow> int" where
  "leafGetLeftLink bo b = get32 bo 8 b"

definition leafSetLeftLink :: "byte_order \<Rightarrow> int \<Rightarrow> byte list \<Rightarrow> byte list" where
  "leafSetLeftLink bo n b = set32 bo 8 n b"

definition leafGetRightLink :: "byte_order \<Rightarrow> byte list \<Rightarrow> int" where
  "leafGetRightLink bo b = get32 bo 12 b"

definition leafSetRightLink :: "byte_order \<Rightarrow> int \<Rightarrow> byte list \<Rightarrow> byte list" where
  "leafSetRightLink bo n b = set32 bo 12 n b"

section \<open>Operations on a block\<close>

record 'k key_codec =
  writeKey :: "'k \<Rightarrow> byte list"
  readKey :: "byte list \<Rightarrow> 'k"

definition is_leaf :: "byte_order \<Rightarrow> byte list \<Rightarrow> bool" where
  "is_leaf bo b \<longleftrightarrow> headGetFlags bo b AND 1 \<noteq> 0"

definition b_blockIsFull :: "byte_order \<Rightarrow> bt_cfg \<Rightarrow> byte list \<Rightarrow> bool" where
  "b_blockIsFull bo c b =
     (if is_leaf bo b then leafGetEntCount bo b \<ge> int (entsPerLeaf c) - 1
      else innerGetEntCount bo b \<ge> int (entsPerInner c) - 1)"

text \<open>\<open>createOnInitialize\<close>\<close>

definition b_createLeaf :: "byte_order \<Rightarrow> byte list \<Rightarrow> byte list" where
  "b_createLeaf bo b = leafSetRightLink bo 0 (leafSetLeftLink bo 0 (leafSetEntCount bo 0 (headSetFlags bo 1 b)))"

definition b_insertAtLeaf :: "byte_order \<Rightarrow> bt_cfg \<Rightarrow> 'k key_codec \<Rightarrow> nat \<Rightarrow> 'k \<Rightarrow> byte list \<Rightarrow> byte list \<Rightarrow> byte list res" where
  "b_insertAtLeaf bo c K i k v b =
    (let ent_count = leafGetEntCount bo b in
     res_bind (check (int i \<le> ent_count) OutOfRange) (\<lambda>_.
     res_bind (memmove (entOffLeaf c (i + 1)) (entOffLeaf c i) (nat (ent_count - int i) * entSizeLeaf c) b) (\<lambda>b.
     res_bind (poke (keyOffLeaf c i) (writeKey K k) b) (\<lambda>b.
     res_bind (poke (valOffLeaf c i) v b) (\<lambda>b.
     Inr (leafSetEntCount bo (ent_count + 1) b))))))"

definition b_insertAtInnerR :: "byte_order \<Rightarrow> bt_cfg \<Rightarrow> 'k key_codec \<Rightarrow> nat \<Rightarrow> 'k \<Rightarrow> int \<Rightarrow> byte list \<Rightarrow> byte list res" where
  "b_insertAtInnerR bo c K i k ref b =
    (let ent_count = innerGetEntCount bo b in
     res_bind (check (int i \<le> ent_count) OutOfRange) (\<lambda>_.
     res_bind (memmove (entOffInner c (i + 1)) (entOffInner c i) (nat (ent_count - int i) * entSizeInner c) b) (\<lambda>b.
     res_bind (poke (keyOffInner c i) (writeKey K k) b) (\<lambda>b.
     res_bind (poke (refOffInner c i) (set32_native bo ref) b) (\<lambda>b.
     Inr (innerSetEntCount bo (ent_count + 1) b))))))"

text \<open>
  \<open>splitLeaf\<close> and \<open>splitLeafOnInitialize\<close> on the block \<open>cur\<close> and the new page \<open>n\<close>, whose content does not
  matter; the result are both blocks and the split key.
\<close>

definition b_splitLeaf :: "byte_order \<Rightarrow> bt_cfg \<Rightarrow> 'k key_codec \<Rightarrow> int \<Rightarrow> int \<Rightarrow> byte list \<Rightarrow> byte list \<Rightarrow> (byte list \<times> byte list \<times> 'k) res" where
  "b_splitLeaf bo c K cur n b s =
    (let ent_count = leafGetEntCount bo b; right = leafGetRightLink bo b;
         ls = nat (ent_count div 2); rs = nat (ent_count - int ls) in
     res_bind (check (ls > 0 \<and> rs > 0 \<and> ls < entsPerLeaf c - 1 \<and> rs < entsPerLeaf c - 1) AssertFailed) (\<lambda>_.
     let b = leafSetRightLink bo n (leafSetEntCount bo (int ls) b);
         s = leafSetRightLink bo right (leafSetLeftLink bo cur (leafSetEntCount bo (int rs) (headSetFlags bo 1 s)));
         k = readKey K (bslice (keyOffLeaf c (ls - 1)) (keySize c) b) in
     res_bind (poke (entOffLeaf c 0) (bslice (entOffLeaf c ls) (rs * entSizeLeaf c) b) s) (\<lambda>s.
     res_bind (poke (entOffLeaf c ls) (replicate (rs * entSizeLeaf c) 0) b) (\<lambda>b.
     Inr (b, s, k)))))"

definition b_splitInner :: "byte_order \<Rightarrow> bt_cfg \<Rightarrow> 'k key_codec \<Rightarrow> byte list \<Rightarrow> byte list \<Rightarrow> (byte list \<times> byte list \<times> 'k) res" where
  "b_splitInner bo c K b s =
    (let ent_count = innerGetEntCount bo b; ls = nat (ent_count div 2); rs = nat (ent_count - int ls - 1) in
     res_bind (check (ls > 0 \<and> rs > 0 \<and> ls < entsPerInner c - 2 \<and> rs < entsPerInner c - 1) AssertFailed) (\<lambda>_.
     let b = innerSetEntCount bo (int ls) b;
         s = innerSetEntCount bo (int rs) (headSetFlags bo 0 s) in
     res_bind (poke lrefOffInner (bslice (refOffInner c ls) 4 b) s) (\<lambda>s.
     let k = readKey K (bslice (keyOffInner c ls) (keySize c) b) in
     res_bind (poke (entOffInner c 0) (bslice (entOffInner c (ls + 1)) (rs * entSizeInner c) b) s) (\<lambda>s.
     res_bind (poke (entOffInner c ls) (replicate ((rs + 1) * entSizeInner c) 0) b) (\<lambda>b.
     Inr (b, s, k))))))"

text \<open>\<open>fixParentOnInitialize\<close>: a new root with two children.\<close>

definition b_newRoot :: "byte_order \<Rightarrow> bt_cfg \<Rightarrow> 'k key_codec \<Rightarrow> int \<Rightarrow> 'k \<Rightarrow> int \<Rightarrow> byte list \<Rightarrow> byte list res" where
  "b_newRoot bo c K cur k n b =
    (let b = innerSetEntCount bo 1 (headSetFlags bo 0 b);
         b = set32 bo lrefOffInner cur b;
         b = set32 bo (refOffInner c 0) n b in
     poke (keyOffInner c 0) (writeKey K k) b)"

text \<open>\<open>writeHeadOnInitialize\<close>: the head of the file, in page 0.\<close>

definition b_writeHead :: "byte_order \<Rightarrow> ('k, 'v) btree \<Rightarrow> byte list \<Rightarrow> byte list" where
  "b_writeHead bo t b = set32 bo 8 (depth t) (set32 bo 4 (numBlocks t) (set32 bo 0 (rootBlock t) b))"

text \<open>
  The searches in a block; \<open>rd i\<close> reads the key of entry \<open>i\<close>. The reference next to an entry, or the
  leftmost one.
\<close>

fun b_lowerBoundLoop :: "('k \<Rightarrow> int) \<Rightarrow> (nat \<Rightarrow> 'k) \<Rightarrow> nat \<Rightarrow> int" where
  "b_lowerBoundLoop cmp rd 0 = -1"
| "b_lowerBoundLoop cmp rd (Suc i) = (if cmp (rd i) \<le> 0 then int i else b_lowerBoundLoop cmp rd i)"

function b_nextLoop :: "('k \<Rightarrow> int) \<Rightarrow> (nat \<Rightarrow> 'k) \<Rightarrow> nat \<Rightarrow> nat \<Rightarrow> int" where
  "b_nextLoop cmp rd n i = (if i < n then (if cmp (rd i) \<ge> 0 then int i else b_nextLoop cmp rd n (i + 1)) else -1)"
  by auto
termination by (relation "measure (\<lambda>(_, _, n, i). n - i)") auto

declare b_nextLoop.simps [simp del]

definition keyAtLeaf :: "bt_cfg \<Rightarrow> 'k key_codec \<Rightarrow> byte list \<Rightarrow> nat \<Rightarrow> 'k" where
  "keyAtLeaf c K b i = readKey K (bslice (keyOffLeaf c i) (keySize c) b)"

definition keyAtInner :: "bt_cfg \<Rightarrow> 'k key_codec \<Rightarrow> byte list \<Rightarrow> nat \<Rightarrow> 'k" where
  "keyAtInner c K b i = readKey K (bslice (keyOffInner c i) (keySize c) b)"

definition b_lowerBoundInner :: "byte_order \<Rightarrow> bt_cfg \<Rightarrow> 'k key_codec \<Rightarrow> ('k \<Rightarrow> int) \<Rightarrow> byte list \<Rightarrow> int res" where
  "b_lowerBoundInner bo c K cmp b =
     res_bind (check (\<not> is_leaf bo b) AssertFailed) (\<lambda>_.
     Inr (b_lowerBoundLoop cmp (keyAtInner c K b) (nat (innerGetEntCount bo b))))"

definition b_lowerBoundLeaf :: "byte_order \<Rightarrow> bt_cfg \<Rightarrow> 'k key_codec \<Rightarrow> ('k \<Rightarrow> int) \<Rightarrow> byte list \<Rightarrow> int res" where
  "b_lowerBoundLeaf bo c K cmp b =
     res_bind (check (is_leaf bo b) AssertFailed) (\<lambda>_.
     Inr (b_lowerBoundLoop cmp (keyAtLeaf c K b) (nat (leafGetEntCount bo b))))"

definition b_nextInLeaf :: "byte_order \<Rightarrow> bt_cfg \<Rightarrow> 'k key_codec \<Rightarrow> ('k \<Rightarrow> int) \<Rightarrow> byte list \<Rightarrow> int" where
  "b_nextInLeaf bo c K cmp b = b_nextLoop cmp (keyAtLeaf c K b) (nat (leafGetEntCount bo b)) 0"

definition b_nextInInner :: "byte_order \<Rightarrow> bt_cfg \<Rightarrow> 'k key_codec \<Rightarrow> ('k \<Rightarrow> int) \<Rightarrow> byte list \<Rightarrow> int" where
  "b_nextInInner bo c K cmp b = b_nextLoop cmp (keyAtInner c K b) (nat (innerGetEntCount bo b)) 0"

definition b_innerRef :: "byte_order \<Rightarrow> bt_cfg \<Rightarrow> byte list \<Rightarrow> int \<Rightarrow> int" where
  "b_innerRef bo c b i = (if i \<ge> 0 then get32 bo (refOffInner c (nat i)) b else get32 bo lrefOffInner b)"

section \<open>Fields\<close>

definition in_int32 :: "int \<Rightarrow> bool" where
  "in_int32 i \<longleftrightarrow> - (2 ^ 31) \<le> i \<and> i < 2 ^ 31"

definition le32 :: "int \<Rightarrow> byte list" where
  "le32 n = packLe32 (word_of_int n)"

lemma length_le32 [simp]: "length (le32 n) = 4"
  by (simp add: le32_def)

lemma length_store_u32 [simp]: "length (store_u32 bo w) = 4"
  by (simp add: store_u32_def split: byte_order.splits)

lemma store_toLe: "store_u32 bo (toLeU32 bo w) = packLe32 w"
  using packLe32_on_any[of bo w] by (simp add: packLe32_on_def)

lemma toLe_toLe: "toLeU32 bo (toLeU32 bo v) = v"
proof (cases bo)
  case BigEndian
  have r: "to_le 4 (toLeU32 bo w) = rev (to_le 4 w)" for w
    using store_toLe[of bo w] by (simp add: BigEndian store_u32_def packLe32_def rev_swap)
  have "of_le (to_le 4 (toLeU32 bo (toLeU32 bo v))) = (of_le (to_le 4 v) :: 32 word)" by (simp add: r)
  then show ?thesis by (simp add: of_le_to_le)
qed (simp add: toLeU32_def)

lemma fromLe_toLe: "fromLeU32 = toLeU32"
  by (intro ext) (simp add: fromLeU32_def toLeU32_def split: byte_order.splits)

lemma load_store: "load_u32 bo (store_u32 bo w) = w"
  by (simp add: load_u32_def store_u32_def of_le_to_le split: byte_order.splits)

lemma load_packLe32 [simp]: "fromLeU32 bo (load_u32 bo (packLe32 w)) = w"
  unfolding store_toLe[of bo, symmetric] by (simp add: load_store fromLe_toLe toLe_toLe)

lemma sint_word_of_int32: "in_int32 x \<Longrightarrow> sint (word_of_int x :: 32 word) = x"
  using signed_take_bit_int_eq_self[of 31 x] by (simp add: in_int32_def sint_sbintrunc' del: power_numeral)

lemma set32_le: "set32 bo off n b = blit off (le32 n) b"
  by (simp add: set32_def store_toLe le32_def)

lemma get32_le: "bslice off 4 b = le32 n \<Longrightarrow> in_int32 n \<Longrightarrow> get32 bo off b = n"
  by (simp add: get32_def le32_def sint_word_of_int32)

lemma bslice_mid: "off = length p \<Longrightarrow> n = length m \<Longrightarrow> bslice off n (p @ m @ q) = m"
  by (simp add: bslice_def)

lemma blit_mid: "off = length p \<Longrightarrow> length m' = length m \<Longrightarrow> blit off m' (p @ m @ q) = p @ m' @ q"
  by (simp add: blit_def)

lemma poke_mid: "off = length p \<Longrightarrow> length m' = length m \<Longrightarrow> poke off m' (p @ m @ q) = Inr (p @ m' @ q)"
  by (simp add: poke_def blit_mid)

lemma memmove_mid:
  assumes "src = length p" "n = length m" "dst = length p + length g" "length g \<le> length q"
  shows "\<exists>g'. length g' = length g \<and> memmove dst src n (p @ m @ q) = Inr (p @ g' @ m @ drop (length g) q)"
proof -
  let ?b = "p @ m @ q"
  have "memmove dst src n ?b = Inr (blit dst m ?b)"
    using assms by (simp add: memmove_def poke_def bslice_mid)
  moreover have "blit dst m ?b = p @ take (length g) (m @ q) @ m @ drop (length g) q"
    using assms by (simp add: blit_def)
  ultimately show ?thesis using assms(4) by (intro exI[of _ "take (length g) (m @ q)"]) simp
qed

lemma sum_lengths: "(\<And>x. x \<in> set xs \<Longrightarrow> length (f x) = e) \<Longrightarrow> length (concat (map f xs)) = e * length xs"
  by (induction xs) (auto simp: algebra_simps)

text \<open>The fields of a head, when the block is cut into words.\<close>

lemma field_sets:
  "length w0 = 4 \<Longrightarrow> headSetFlags bo fl (w0 @ q) = packLe32 fl @ q"
  "length w0 = 4 \<Longrightarrow> length w1 = 4 \<Longrightarrow> leafSetEntCount bo n (w0 @ w1 @ q) = w0 @ le32 n @ q"
  "length w0 = 4 \<Longrightarrow> length w1 = 4 \<Longrightarrow> innerSetEntCount bo n (w0 @ w1 @ q) = w0 @ le32 n @ q"
  "length w0 = 4 \<Longrightarrow> length w1 = 4 \<Longrightarrow> length w2 = 4 \<Longrightarrow> leafSetLeftLink bo n (w0 @ w1 @ w2 @ q) = w0 @ w1 @ le32 n @ q"
  "length w0 = 4 \<Longrightarrow> length w1 = 4 \<Longrightarrow> length w2 = 4 \<Longrightarrow> set32 bo lrefOffInner n (w0 @ w1 @ w2 @ q) = w0 @ w1 @ le32 n @ q"
  "length w0 = 4 \<Longrightarrow> length w1 = 4 \<Longrightarrow> length w2 = 4 \<Longrightarrow> length w3 = 4 \<Longrightarrow>
   leafSetRightLink bo n (w0 @ w1 @ w2 @ w3 @ q) = w0 @ w1 @ w2 @ le32 n @ q"
  using blit_mid[of 0 "[]" "packLe32 fl" w0 q] blit_mid[of 4 w0 "le32 n" w1 q] blit_mid[of 8 "w0 @ w1" "le32 n" w2 q]
    blit_mid[of 12 "w0 @ w1 @ w2" "le32 n" w3 q]
  by (simp_all add: headSetFlags_def store_toLe leafSetEntCount_def innerSetEntCount_def leafSetLeftLink_def
      leafSetRightLink_def lrefOffInner_def set32_le)

lemma field_gets:
  "headGetFlags bo (packLe32 fl @ q) = fl"
  "length w0 = 4 \<Longrightarrow> in_int32 n \<Longrightarrow> leafGetEntCount bo (w0 @ le32 n @ q) = n"
  "length w0 = 4 \<Longrightarrow> in_int32 n \<Longrightarrow> innerGetEntCount bo (w0 @ le32 n @ q) = n"
  "length w0 = 4 \<Longrightarrow> length w1 = 4 \<Longrightarrow> in_int32 n \<Longrightarrow> leafGetLeftLink bo (w0 @ w1 @ le32 n @ q) = n"
  "length w0 = 4 \<Longrightarrow> length w1 = 4 \<Longrightarrow> length w2 = 4 \<Longrightarrow> in_int32 n \<Longrightarrow> leafGetRightLink bo (w0 @ w1 @ w2 @ le32 n @ q) = n"
proof -
  have "bslice 0 4 (packLe32 fl @ q) = packLe32 fl" using bslice_mid[of 0 "[]" 4 "packLe32 fl" q] by simp
  then show "headGetFlags bo (packLe32 fl @ q) = fl" by (simp add: headGetFlags_def)
  show "leafGetEntCount bo (w0 @ le32 n @ q) = n" "innerGetEntCount bo (w0 @ le32 n @ q) = n" if "length w0 = 4" "in_int32 n"
    unfolding leafGetEntCount_def innerGetEntCount_def by (rule get32_le[OF bslice_mid]; simp add: that)+
  have "get32 bo 8 ((w0 @ w1) @ le32 n @ q) = n" if "length w0 = 4" "length w1 = 4" "in_int32 n"
    by (rule get32_le[OF bslice_mid]; simp add: that)
  then show "leafGetLeftLink bo (w0 @ w1 @ le32 n @ q) = n" if "length w0 = 4" "length w1 = 4" "in_int32 n"
    using that unfolding leafGetLeftLink_def append_assoc by blast
  have "get32 bo 12 ((w0 @ w1 @ w2) @ le32 n @ q) = n" if "length w0 = 4" "length w1 = 4" "length w2 = 4" "in_int32 n"
    by (rule get32_le[OF bslice_mid]; simp add: that)
  then show "leafGetRightLink bo (w0 @ w1 @ w2 @ le32 n @ q) = n" if "length w0 = 4" "length w1 = 4" "length w2 = 4" "in_int32 n"
    using that unfolding leafGetRightLink_def append_assoc by blast
qed

lemma cut_words:
  assumes "16 \<le> length b"
  obtains w0 w1 w2 w3 q where "b = w0 @ w1 @ w2 @ w3 @ q" "length w0 = 4" "length w1 = 4" "length w2 = 4" "length w3 = 4"
    "length q = length b - 16"
proof
  have c: "drop n b = take 4 (drop n b) @ drop (n + 4) b" for n by (metis append_take_drop_id drop_drop add.commute)
  show "b = take 4 b @ take 4 (drop 4 b) @ take 4 (drop 8 b) @ take 4 (drop 12 b) @ drop 16 b"
    using c[of 0] c[of 4] c[of 8] c[of 12] by simp
qed (use assms in auto)

lemma b_lowerBoundLoop_list: "(\<And>j. j < i \<Longrightarrow> rd j = ks ! j) \<Longrightarrow> b_lowerBoundLoop cmp rd i = lowerBoundLoop cmp ks i"
  by (induction i) simp_all

lemma b_nextLoop_list:
  "(\<And>j. j < length ks \<Longrightarrow> rd j = ks ! j) \<Longrightarrow> i \<le> length ks \<Longrightarrow> b_nextLoop cmp rd (length ks) i = nextLoop cmp (drop i ks) i"
proof (induction cmp rd "length ks" i rule: b_nextLoop.induct)
  case (1 cmp rd i)
  show ?case
  proof (cases "i < length ks")
    case True
    then show ?thesis using 1 by (subst b_nextLoop.simps) (simp add: Cons_nth_drop_Suc[symmetric])
  qed (use 1 in \<open>simp add: b_nextLoop.simps\<close>)
qed

section \<open>Blocks that hold a node\<close>

definition leaf_ent :: "'k key_codec \<Rightarrow> 'k \<times> byte list \<Rightarrow> byte list" where
  "leaf_ent K = (\<lambda>(k, v). v @ writeKey K k)"

definition inner_ent :: "'k key_codec \<Rightarrow> 'k \<times> int \<Rightarrow> byte list" where
  "inner_ent K = (\<lambda>(k, n). writeKey K k @ le32 n)"

fun node_bytes :: "'k key_codec \<Rightarrow> ('k, byte list) node \<Rightarrow> byte list" where
  "node_bytes K (LeafN l r es) = packLe32 1 @ le32 (int (length es)) @ le32 l @ le32 r @ concat (map (leaf_ent K) es)"
| "node_bytes K (InnerN l es) = packLe32 0 @ le32 (int (length es)) @ le32 l @ concat (map (inner_ent K) es)"

text \<open>\<open>good\<close> are the keys that survive their byte form.\<close>

fun node_fits :: "bt_cfg \<Rightarrow> ('k \<Rightarrow> bool) \<Rightarrow> ('k, byte list) node \<Rightarrow> bool" where
  "node_fits c good (LeafN l r es) \<longleftrightarrow> length es \<le> entsPerLeaf c \<and> in_int32 l \<and> in_int32 r
     \<and> (\<forall>(k, v) \<in> set es. good k \<and> length v = valSize c)"
| "node_fits c good (InnerN l es) \<longleftrightarrow> length es \<le> entsPerInner c \<and> in_int32 l \<and> (\<forall>(k, n) \<in> set es. good k \<and> in_int32 n)"

definition holds :: "bt_cfg \<Rightarrow> 'k key_codec \<Rightarrow> ('k \<Rightarrow> bool) \<Rightarrow> byte list \<Rightarrow> ('k, byte list) node \<Rightarrow> bool" where
  "holds c K good b nd \<longleftrightarrow> length b = blockSize c \<and> node_fits c good nd \<and> (\<exists>rest. b = node_bytes K nd @ rest)"

lemma holdsI: "b = node_bytes K nd @ rest \<Longrightarrow> length b = blockSize c \<Longrightarrow> node_fits c good nd \<Longrightarrow> holds c K good b nd"
  by (auto simp: holds_def)

text \<open>What a tree asks of its sizes and of the callbacks for its keys.\<close>

locale block_layout =
  fixes c :: bt_cfg and K :: "'k key_codec" and good :: "'k \<Rightarrow> bool"
  assumes sizes: "cfg_ok c" "blockSize c < 2 ^ 31"
    and key_law: "good k \<Longrightarrow> length (writeKey K k) = keySize c \<and> readKey K (writeKey K k) = k"
begin

lemma room: "16 + entSizeLeaf c * entsPerLeaf c \<le> blockSize c" "12 + entSizeInner c * entsPerInner c \<le> blockSize c"
proof -
  have b: "16 < blockSize c" using sizes(1) by (simp add: cfg_ok_def)
  have "entsPerLeaf c * (keySize c + valSize c) \<le> blockSize c - 16"
    unfolding entsPerLeaf_def by (rule div_times_less_eq_dividend)
  then have "entSizeLeaf c * entsPerLeaf c \<le> blockSize c - 16" by (simp only: entSizeLeaf_def mult.commute)
  then show "16 + entSizeLeaf c * entsPerLeaf c \<le> blockSize c" using b by linarith
  have "entsPerInner c * (keySize c + 4) \<le> blockSize c - 8 - 4"
    unfolding entsPerInner_def by (rule div_times_less_eq_dividend)
  then have "entSizeInner c * entsPerInner c \<le> blockSize c - 8 - 4" by (simp only: entSizeInner_def mult.commute)
  then show "12 + entSizeInner c * entsPerInner c \<le> blockSize c" using b by linarith
qed

lemma few: "entsPerLeaf c < 2 ^ 31" "entsPerInner c < 2 ^ 31"
proof -
  have "entsPerLeaf c \<le> blockSize c" "entsPerInner c \<le> blockSize c"
    unfolding entsPerLeaf_def entsPerInner_def by (meson div_le_dividend diff_le_self le_trans)+
  then show "entsPerLeaf c < 2 ^ 31" "entsPerInner c < 2 ^ 31" using sizes(2) by linarith+
qed

lemma count_int32: "n \<le> entsPerLeaf c \<or> n \<le> entsPerInner c \<Longrightarrow> in_int32 (int n)"
  using few unfolding in_int32_def by auto

lemma leaf_lengths: "\<forall>(k, v) \<in> set es. good k \<and> length v = valSize c \<Longrightarrow> length (concat (map (leaf_ent K) es)) = entSizeLeaf c * length es"
  using key_law by (intro sum_lengths) (auto simp: leaf_ent_def entSizeLeaf_def)

lemma inner_lengths: "\<forall>(k, n) \<in> set es. good k \<and> in_int32 n \<Longrightarrow> length (concat (map (inner_ent K) es)) = entSizeInner c * length es"
  using key_law by (intro sum_lengths) (auto simp: inner_ent_def entSizeInner_def)

text \<open>Both insertions open a gap at entry \<open>i\<close> and fill it.\<close>

lemma insert_gap:
  assumes "length h = off0" "length (concat (map f es)) = e * length es" "length (concat (map f (take i es))) = e * i"
    "i \<le> length es" "e \<le> length rest"
  shows "\<exists>g. length g = e \<and> memmove (off0 + e * (i + 1)) (off0 + e * i) ((length es - i) * e) (h @ concat (map f es) @ rest)
    = Inr ((h @ concat (map f (take i es))) @ g @ concat (map f (drop i es)) @ drop e rest)"
proof -
  let ?p = "h @ concat (map f (take i es))" and ?m = "concat (map f (drop i es))"
  have split: "concat (map f es) = concat (map f (take i es)) @ ?m"
    by (metis append_take_drop_id concat_append map_append)
  then have m: "length ?m = (length es - i) * e" using assms(2-4) by (simp add: algebra_simps)
  have "\<exists>g. length g = length (replicate e (0 :: byte)) \<and> memmove (off0 + e * (i + 1)) (off0 + e * i) ((length es - i) * e) (?p @ ?m @ rest)
      = Inr (?p @ g @ ?m @ drop (length (replicate e (0 :: byte))) rest)"
    by (rule memmove_mid) (use assms m in simp_all)
  then show ?thesis using split by simp
qed

lemma insertAtLeaf_block:
  assumes b: "holds c K good b (LeafN l r es)" and i: "i \<le> length es" "length es < entsPerLeaf c"
    and k: "good k" "length v = valSize c"
  shows "\<exists>b'. b_insertAtLeaf bo c K i k v b = Inr b' \<and> holds c K good b' (LeafN l r (list_insert i (k, v) es))"
proof -
  let ?e = "entSizeLeaf c" and ?f = "leaf_ent K"
  let ?h = "packLe32 1 @ le32 (int (length es)) @ le32 l @ le32 r"
  obtain rest where rest: "b = ?h @ concat (map ?f es) @ rest" using b by (auto simp: holds_def)
  have fits: "\<forall>(k, v) \<in> set es. good k \<and> length v = valSize c" "in_int32 l" "in_int32 r" "length b = blockSize c"
    using b by (auto simp: holds_def)
  have len: "length (concat (map ?f es)) = ?e * length es" using leaf_lengths[OF fits(1)] .
  have lt: "length (concat (map ?f (take i es))) = ?e * i"
    using leaf_lengths[of "take i es"] fits(1) i(1) by (auto dest: in_set_takeD)
  have "16 + ?e * Suc (length es) \<le> blockSize c" using room(1) mult_le_mono2[of "Suc (length es)" "entsPerLeaf c" ?e] i(2) by linarith
  then have e: "?e \<le> length rest" using fits(4) len rest by simp
  have n: "in_int32 (int (length es))" using i(2) by (intro count_int32) simp
  have cnt: "leafGetEntCount bo b = int (length es)" unfolding rest append_assoc by (rule field_gets(2)) (simp_all add: n)
  obtain g where g: "length g = ?e" "memmove (entOffLeaf c (i + 1)) (entOffLeaf c i) ((length es - i) * ?e) b
      = Inr ((?h @ concat (map ?f (take i es))) @ g @ concat (map ?f (drop i es)) @ drop ?e rest)"
    using insert_gap[of ?h 16 ?f es ?e i rest] len lt i(1) e unfolding rest entOffLeaf_def by auto
  let ?p = "?h @ concat (map ?f (take i es))" and ?q = "concat (map ?f (drop i es)) @ drop ?e rest"
  obtain g1 g2 where g12: "g = g1 @ g2" "length g1 = valSize c" "length g2 = keySize c"
    using g(1) that[of "take (valSize c) g" "drop (valSize c) g"] by (simp add: entSizeLeaf_def)
  have kl: "length (writeKey K k) = keySize c" using key_law[OF k(1)] by simp
  have p: "length ?p = entOffLeaf c i" using lt by (simp add: entOffLeaf_def)
  have k1: "poke (keyOffLeaf c i) (writeKey K k) (?p @ g @ ?q) = Inr ((?p @ g1) @ writeKey K k @ ?q)"
    using poke_mid[of "keyOffLeaf c i" "?p @ g1" "writeKey K k" g2 ?q] p g12 kl by (simp add: keyOffLeaf_def)
  have v1: "poke (valOffLeaf c i) v ((?p @ g1) @ writeKey K k @ ?q) = Inr (?p @ v @ writeKey K k @ ?q)"
    using poke_mid[of "valOffLeaf c i" ?p v g1 "writeKey K k @ ?q"] p g12 k(2) by (simp add: valOffLeaf_def)
  let ?es = "list_insert i (k, v) es"
  let ?b = "node_bytes K (LeafN l r ?es) @ drop ?e rest"
  have c1: "leafSetEntCount bo (int (length es) + 1) (?p @ v @ writeKey K k @ ?q) = ?b"
    using field_sets(2)[of "packLe32 1" "le32 (int (length es))"] i(1)
    by (simp add: list_insert_def leaf_ent_def add.commute)
  have "nat (int (length es) - int i) = length es - i" using i(1) by linarith
  then have "b_insertAtLeaf bo c K i k v b = Inr ?b"
    using g(2) k1 v1 c1 i(1) unfolding b_insertAtLeaf_def Let_def cnt by simp
  moreover have "length ?b = blockSize c" using rest fits(4) len lt e g12 kl k(2) i(1)
    leaf_lengths[of ?es] fits(1) k(1) by (auto simp: set_list_insert entSizeLeaf_def)
  moreover have "node_fits c good (LeafN l r ?es)" using fits k i by (auto simp: set_list_insert)
  ultimately show ?thesis by (auto simp: holds_def)
qed

text \<open>The reference of a new entry of an inner node is stored in the byte order of the host.\<close>

lemma insertAtInnerR_block:
  assumes b: "holds c K good b (InnerN l es)" and i: "i \<le> length es" "length es < entsPerInner c"
    and k: "good k" "in_int32 ref" and bo: "bo = LittleEndian"
  shows "\<exists>b'. b_insertAtInnerR bo c K i k ref b = Inr b' \<and> holds c K good b' (InnerN l (list_insert i (k, ref) es))"
proof -
  let ?e = "entSizeInner c" and ?f = "inner_ent K"
  let ?h = "packLe32 0 @ le32 (int (length es)) @ le32 l"
  obtain rest where rest: "b = ?h @ concat (map ?f es) @ rest" using b by (auto simp: holds_def)
  have fits: "\<forall>(k, n) \<in> set es. good k \<and> in_int32 n" "in_int32 l" "length b = blockSize c"
    using b by (auto simp: holds_def)
  have len: "length (concat (map ?f es)) = ?e * length es" using inner_lengths[OF fits(1)] .
  have lt: "length (concat (map ?f (take i es))) = ?e * i"
    using inner_lengths[of "take i es"] fits(1) i(1) by (auto dest: in_set_takeD)
  have "12 + ?e * Suc (length es) \<le> blockSize c" using room(2) mult_le_mono2[of "Suc (length es)" "entsPerInner c" ?e] i(2) by linarith
  then have e: "?e \<le> length rest" using fits(3) len rest by simp
  have n: "in_int32 (int (length es))" using i(2) by (intro count_int32) simp
  have cnt: "innerGetEntCount bo b = int (length es)" unfolding rest append_assoc by (rule field_gets(3)) (simp_all add: n)
  obtain g where g: "length g = ?e" "memmove (entOffInner c (i + 1)) (entOffInner c i) ((length es - i) * ?e) b
      = Inr ((?h @ concat (map ?f (take i es))) @ g @ concat (map ?f (drop i es)) @ drop ?e rest)"
    using insert_gap[of ?h 12 ?f es ?e i rest] len lt i(1) e unfolding rest entOffInner_def by auto
  let ?p = "?h @ concat (map ?f (take i es))" and ?q = "concat (map ?f (drop i es)) @ drop ?e rest"
  obtain g1 g2 where g12: "g = g1 @ g2" "length g1 = keySize c" "length g2 = 4"
    using g(1) that[of "take (keySize c) g" "drop (keySize c) g"] by (simp add: entSizeInner_def)
  have kl: "length (writeKey K k) = keySize c" using key_law[OF k(1)] by simp
  have p: "length ?p = entOffInner c i" using lt by (simp add: entOffInner_def)
  have nat: "set32_native bo ref = le32 ref" by (simp add: bo set32_native_def le32_def store_u32_def packLe32_def)
  have k1: "poke (keyOffInner c i) (writeKey K k) (?p @ g @ ?q) = Inr (?p @ writeKey K k @ g2 @ ?q)"
    using poke_mid[of "keyOffInner c i" ?p "writeKey K k" g1 "g2 @ ?q"] p g12 kl by (simp add: keyOffInner_def)
  have r1: "poke (refOffInner c i) (le32 ref) (?p @ writeKey K k @ g2 @ ?q) = Inr (?p @ writeKey K k @ le32 ref @ ?q)"
    using poke_mid[of "refOffInner c i" "?p @ writeKey K k" "le32 ref" g2 ?q] p g12 kl by (simp add: refOffInner_def)
  let ?es = "list_insert i (k, ref) es"
  let ?b = "node_bytes K (InnerN l ?es) @ drop ?e rest"
  have c1: "innerSetEntCount bo (int (length es) + 1) (?p @ writeKey K k @ le32 ref @ ?q) = ?b"
    using field_sets(3)[of "packLe32 0" "le32 (int (length es))"] i(1)
    by (simp add: list_insert_def inner_ent_def add.commute)
  have "nat (int (length es) - int i) = length es - i" using i(1) by linarith
  then have "b_insertAtInnerR bo c K i k ref b = Inr ?b"
    using g(2) k1 r1 c1 i(1) unfolding b_insertAtInnerR_def Let_def cnt nat by simp
  moreover have "length ?b = blockSize c" using rest fits(3) len lt e g12 kl i(1)
    inner_lengths[of ?es] fits(1) k by (auto simp: set_list_insert entSizeInner_def)
  moreover have "node_fits c good (InnerN l ?es)" using fits k i by (auto simp: set_list_insert)
  ultimately show ?thesis by (auto simp: holds_def)
qed

lemma headGetFlags_block: "holds c K good b nd \<Longrightarrow> headGetFlags bo b = (case nd of LeafN _ _ _ \<Rightarrow> 1 | InnerN _ _ \<Rightarrow> 0)"
  by (cases nd) (auto simp: holds_def field_gets)

lemma entCount_block:
  "holds c K good b (LeafN l r es) \<Longrightarrow> leafGetEntCount bo b = int (length es)"
  "holds c K good b (InnerN l es') \<Longrightarrow> innerGetEntCount bo b = int (length es')"
  "holds c K good b (LeafN l r es) \<Longrightarrow> leafGetLeftLink bo b = l"
  "holds c K good b (LeafN l r es) \<Longrightarrow> leafGetRightLink bo b = r"
  using count_int32[of "length es"] count_int32[of "length es'"] by (auto simp: holds_def field_gets)

lemma blockIsFull_block: "holds c K good b nd \<Longrightarrow> b_blockIsFull bo c b = blockIsFull c nd"
  using sizes(1) headGetFlags_block[of b nd bo]
  by (cases nd) (auto simp: b_blockIsFull_def blockIsFull_def is_leaf_def entCount_block cfg_ok_def)

lemma createLeaf_block:
  assumes "length b = blockSize c"
  shows "holds c K good (b_createLeaf bo b) (LeafN 0 0 [])"
proof -
  have "16 \<le> length b" using assms sizes(1) by (simp add: cfg_ok_def)
  then obtain w0 w1 w2 w3 q where "b = w0 @ w1 @ w2 @ w3 @ q" "length w0 = 4" "length w1 = 4" "length w2 = 4" "length w3 = 4"
    "length q = length b - 16" by (rule cut_words)
  then show ?thesis using assms by (auto simp: b_createLeaf_def field_sets holds_def in_int32_def)
qed

lemma setLeftLink_block:
  assumes "holds c K good b (LeafN l r es)" "in_int32 n"
  shows "holds c K good (leafSetLeftLink bo n b) (LeafN n r es)"
proof -
  obtain rest where "b = node_bytes K (LeafN l r es) @ rest" using assms(1) by (auto simp: holds_def)
  then show ?thesis using assms by (auto simp: holds_def field_sets)
qed

text \<open>What the searches and the iterator read from a block.\<close>

lemma concat_nth:
  assumes "i < length es" "\<And>x. x \<in> set es \<Longrightarrow> length (f x) = e"
  obtains p q where "concat (map f es) = p @ f (es ! i) @ q" "length p = e * i"
proof
  show "concat (map f es) = concat (map f (take i es)) @ f (es ! i) @ concat (map f (drop (Suc i) es))"
    using arg_cong[OF id_take_nth_drop[OF assms(1)], of "\<lambda>xs. concat (map f xs)"] by simp
  show "length (concat (map f (take i es))) = e * i" using assms by (subst sum_lengths[where e = e]) (auto dest: in_set_takeD)
qed

lemma leaf_reads:
  assumes b: "holds c K good b (LeafN l r es)" and i: "i < length es"
  shows "readKey K (bslice (keyOffLeaf c i) (keySize c) b) = fst (es ! i)"
    "bslice (valOffLeaf c i) (valSize c) b = snd (es ! i)"
proof -
  have ok: "\<And>x. x \<in> set es \<Longrightarrow> good (fst x) \<and> length (snd x) = valSize c" using b by (auto simp: holds_def)
  have e: "\<And>x. x \<in> set es \<Longrightarrow> length (leaf_ent K x) = entSizeLeaf c"
    using ok key_law by (auto simp: leaf_ent_def entSizeLeaf_def split_def)
  obtain p q where pq: "concat (map (leaf_ent K) es) = p @ leaf_ent K (es ! i) @ q" "length p = entSizeLeaf c * i"
    using concat_nth[OF i, where f = "leaf_ent K", OF e] by blast
  obtain k v where kv: "es ! i = (k, v)" by (cases "es ! i")
  have g: "good k" "length v = valSize c" using ok[OF nth_mem[OF i]] kv by simp_all
  obtain rest where "b = node_bytes K (LeafN l r es) @ rest" using b by (auto simp: holds_def)
  then have bb: "b = (packLe32 1 @ le32 (int (length es)) @ le32 l @ le32 r @ p) @ v @ writeKey K k @ q @ rest"
    using pq(1) kv by (simp add: leaf_ent_def)
  have "bslice (valOffLeaf c i) (valSize c) b = v"
    unfolding bb by (rule bslice_mid) (simp_all add: valOffLeaf_def entOffLeaf_def pq(2) g(2))
  moreover have "bslice (keyOffLeaf c i) (keySize c)
      ((packLe32 1 @ le32 (int (length es)) @ le32 l @ le32 r @ p @ v) @ writeKey K k @ q @ rest) = writeKey K k"
    using key_law[OF g(1)] by (intro bslice_mid) (simp_all add: keyOffLeaf_def entOffLeaf_def pq(2) g(2))
  ultimately show "readKey K (bslice (keyOffLeaf c i) (keySize c) b) = fst (es ! i)"
    "bslice (valOffLeaf c i) (valSize c) b = snd (es ! i)" using kv key_law[OF g(1)] unfolding bb by simp_all
qed

lemma inner_reads:
  assumes b: "holds c K good b (InnerN l es)" and i: "i < length es"
  shows "readKey K (bslice (keyOffInner c i) (keySize c) b) = fst (es ! i)"
    "bslice (refOffInner c i) 4 b = le32 (snd (es ! i))"
    "get32 bo (refOffInner c i) b = snd (es ! i)"
proof -
  have ok: "\<And>x. x \<in> set es \<Longrightarrow> good (fst x) \<and> in_int32 (snd x)" using b by (auto simp: holds_def)
  have e: "\<And>x. x \<in> set es \<Longrightarrow> length (inner_ent K x) = entSizeInner c"
    using ok key_law by (auto simp: inner_ent_def entSizeInner_def split_def)
  obtain p q where pq: "concat (map (inner_ent K) es) = p @ inner_ent K (es ! i) @ q" "length p = entSizeInner c * i"
    using concat_nth[OF i, where f = "inner_ent K", OF e] by blast
  obtain k n where kn: "es ! i = (k, n)" by (cases "es ! i")
  have g: "good k" "in_int32 n" using ok[OF nth_mem[OF i]] kn by simp_all
  obtain rest where "b = node_bytes K (InnerN l es) @ rest" using b by (auto simp: holds_def)
  then have bb: "b = (packLe32 0 @ le32 (int (length es)) @ le32 l @ p) @ writeKey K k @ le32 n @ q @ rest"
    using pq(1) kn by (simp add: inner_ent_def)
  have "bslice (keyOffInner c i) (keySize c) b = writeKey K k" using key_law[OF g(1)]
    unfolding bb by (intro bslice_mid) (simp_all add: keyOffInner_def entOffInner_def pq(2))
  then show "readKey K (bslice (keyOffInner c i) (keySize c) b) = fst (es ! i)" using kn key_law[OF g(1)] by simp
  have "bslice (refOffInner c i) 4 ((packLe32 0 @ le32 (int (length es)) @ le32 l @ p @ writeKey K k) @ le32 n @ q @ rest) = le32 n"
    using key_law[OF g(1)] by (intro bslice_mid) (simp_all add: refOffInner_def entOffInner_def pq(2))
  then show "bslice (refOffInner c i) 4 b = le32 (snd (es ! i))" "get32 bo (refOffInner c i) b = snd (es ! i)"
    using get32_le[OF _ g(2)] kn unfolding bb by simp_all
qed

text \<open>The searches give what they give on the node.\<close>

lemma searchLeaf_block:
  assumes b: "holds c K good b (LeafN l r es)"
  shows "b_lowerBoundLeaf bo c K cmp b = lowerBoundLeaf cmp (LeafN l r es)" "b_nextInLeaf bo c K cmp b = nextInLeaf cmp es"
proof -
  have k: "j < length es \<Longrightarrow> keyAtLeaf c K b j = map fst es ! j" for j
    using leaf_reads(1)[OF b] by (simp add: keyAtLeaf_def)
  show "b_lowerBoundLeaf bo c K cmp b = lowerBoundLeaf cmp (LeafN l r es)"
    using k headGetFlags_block[OF b, of bo]
    by (simp add: b_lowerBoundLeaf_def lowerBoundLeaf_def is_leaf_def entCount_block(1)[OF b] b_lowerBoundLoop_list)
  show "b_nextInLeaf bo c K cmp b = nextInLeaf cmp es"
    using b_nextLoop_list[of "map fst es" "keyAtLeaf c K b" 0 cmp] k
    by (simp add: b_nextInLeaf_def nextInLeaf_def entCount_block(1)[OF b])
qed

lemma searchInner_block:
  assumes b: "holds c K good b (InnerN l es)"
  shows "b_lowerBoundInner bo c K cmp b = lowerBoundInner cmp (InnerN l es)" "b_nextInInner bo c K cmp b = nextInInner cmp es"
    "i < int (length es) \<Longrightarrow> innerRef (InnerN l es :: ('k, byte list) node) i = Inr (b_innerRef bo c b i)"
proof -
  have k: "j < length es \<Longrightarrow> keyAtInner c K b j = map fst es ! j" for j
    using inner_reads(1)[OF b] by (simp add: keyAtInner_def)
  show "b_lowerBoundInner bo c K cmp b = lowerBoundInner cmp (InnerN l es)"
    using k headGetFlags_block[OF b, of bo]
    by (simp add: b_lowerBoundInner_def lowerBoundInner_def is_leaf_def entCount_block(2)[OF b] b_lowerBoundLoop_list)
  show "b_nextInInner bo c K cmp b = nextInInner cmp es"
    using b_nextLoop_list[of "map fst es" "keyAtInner c K b" 0 cmp] k
    by (simp add: b_nextInInner_def nextInInner_def entCount_block(2)[OF b])
  obtain rest where r: "b = node_bytes K (InnerN l es) @ rest" and l: "in_int32 l" using b by (auto simp: holds_def)
  have "bslice 8 4 ((packLe32 0 @ le32 (int (length es))) @ le32 l @ concat (map (inner_ent K) es) @ rest) = le32 l"
    by (rule bslice_mid) simp_all
  then have "get32 bo lrefOffInner b = l" using l unfolding r lrefOffInner_def by (intro get32_le) simp_all
  then show "i < int (length es) \<Longrightarrow> innerRef (InnerN l es :: ('k, byte list) node) i = Inr (b_innerRef bo c b i)"
    using inner_reads(3)[OF b] by (simp add: innerRef_def b_innerRef_def nat_less_iff)
qed

text \<open>Splitting a leaf: both blocks hold their half, linked as the nodes are.\<close>

lemma splitLeaf_block:
  fixes es l r
  defines "ls \<equiv> length es div 2"
  assumes b: "holds c K good b (LeafN l r es)" and s: "length s = blockSize c" and ids: "in_int32 cur" "in_int32 n"
    and chk: "0 < ls" "ls < entsPerLeaf c - 1" "length es - ls < entsPerLeaf c - 1"
  shows "\<exists>b' s'. b_splitLeaf bo c K cur n b s = Inr (b', s', fst (es ! (ls - 1)))
    \<and> holds c K good b' (LeafN l n (take ls es)) \<and> holds c K good s' (LeafN cur r (drop ls es))"
proof -
  let ?e = "entSizeLeaf c" and ?f = "leaf_ent K" and ?rs = "length es - ls"
  let ?M1 = "concat (map ?f (take ls es))" and ?M2 = "concat (map ?f (drop ls es))"
  have fits: "\<forall>(k, v) \<in> set es. good k \<and> length v = valSize c" "in_int32 l" "in_int32 r" "length b = blockSize c"
    "length es \<le> entsPerLeaf c" using b by (auto simp: holds_def)
  have ft: "\<forall>(k, v) \<in> set (take ls es). good k \<and> length v = valSize c" "\<forall>(k, v) \<in> set (drop ls es). good k \<and> length v = valSize c"
    using fits(1) by (auto dest: in_set_takeD in_set_dropD)
  have "ls \<le> length es" by (simp add: ls_def)
  then have m: "length ?M1 = ?e * ls" "length ?M2 = ?e * ?rs" using leaf_lengths[OF ft(1)] leaf_lengths[OF ft(2)] by simp_all
  obtain rest where "b = node_bytes K (LeafN l r es) @ rest" using b by (auto simp: holds_def)
  moreover have split: "concat (map ?f es) = ?M1 @ ?M2" by (metis append_take_drop_id concat_append map_append)
  ultimately have bb: "b = packLe32 1 @ le32 (int (length es)) @ le32 l @ le32 r @ ?M1 @ ?M2 @ rest" by simp
  let ?h = "packLe32 1 @ le32 (int ls) @ le32 l @ le32 n"
  let ?b1 = "leafSetRightLink bo n (leafSetEntCount bo (int ls) b)"
  have b1: "?b1 = (?h @ ?M1) @ ?M2 @ rest" by (simp add: bb field_sets)
  have hb1: "holds c K good ?b1 (LeafN l n (take ls es))"
  proof (rule holdsI)
    show "?b1 = node_bytes K (LeafN l n (take ls es)) @ ?M2 @ rest" using \<open>ls \<le> length es\<close> unfolding b1 by (simp add: min_absorb2)
    show "length ?b1 = blockSize c" using fits(4) unfolding b1 unfolding bb by simp
  qed (use fits ft(1) ids(2) in simp)
  have key: "readKey K (bslice (keyOffLeaf c (ls - 1)) (keySize c) ?b1) = fst (es ! (ls - 1))"
    using leaf_reads(1)[OF hb1, of "ls - 1"] chk(1) \<open>ls \<le> length es\<close> by simp
  have sl: "bslice (entOffLeaf c ls) (?rs * ?e) ?b1 = ?M2"
    unfolding b1 by (rule bslice_mid) (simp_all add: entOffLeaf_def m)
  have "16 \<le> length s" using s sizes(1) by (simp add: cfg_ok_def)
  then obtain w0 w1 w2 w3 q where w: "s = w0 @ w1 @ w2 @ w3 @ q" "length w0 = 4" "length w1 = 4" "length w2 = 4" "length w3 = 4"
    "length q = length s - 16" by (rule cut_words)
  let ?g = "packLe32 1 @ le32 (int ?rs) @ le32 cur @ le32 r"
  have s1: "leafSetRightLink bo r (leafSetLeftLink bo cur (leafSetEntCount bo (int ?rs) (headSetFlags bo 1 s)))
      = ?g @ take (?e * ?rs) q @ drop (?e * ?rs) q" by (simp add: w(1-5) field_sets)
  have "?rs \<le> entsPerLeaf c" using fits(5) by simp
  then have "16 + ?e * ?rs \<le> blockSize c" using room(1) mult_le_mono2[of ?rs "entsPerLeaf c" ?e] by linarith
  then have q: "?e * ?rs \<le> length q" using w(6) s by linarith
  have p1: "poke (entOffLeaf c 0) ?M2 (?g @ take (?e * ?rs) q @ drop (?e * ?rs) q) = Inr (?g @ ?M2 @ drop (?e * ?rs) q)"
    using q by (intro poke_mid) (simp_all add: entOffLeaf_def m)
  have p2: "poke (entOffLeaf c ls) (replicate (?rs * ?e) 0) ?b1 = Inr ((?h @ ?M1) @ replicate (?rs * ?e) 0 @ rest)"
    unfolding b1 by (intro poke_mid) (simp_all add: entOffLeaf_def m)
  have n1: "nat (int (length es) div 2) = ls" by (simp add: ls_def nat_div_distrib)
  have n2: "nat (int (length es) - int ls) = ?rs" using \<open>ls \<le> length es\<close> by linarith
  have "0 < ?rs" using chk(1) by (simp add: ls_def)
  then have "b_splitLeaf bo c K cur n b s = Inr ((?h @ ?M1) @ replicate (?rs * ?e) 0 @ rest, ?g @ ?M2 @ drop (?e * ?rs) q, fst (es ! (ls - 1)))"
    using chk unfolding b_splitLeaf_def Let_def entCount_block(1)[OF b] entCount_block(4)[OF b] n1 n2 s1 key sl p1 p2 by simp
  moreover have "holds c K good ((?h @ ?M1) @ replicate (?rs * ?e) 0 @ rest) (LeafN l n (take ls es))"
  proof (rule holdsI)
    show "(?h @ ?M1) @ replicate (?rs * ?e) 0 @ rest = node_bytes K (LeafN l n (take ls es)) @ replicate (?rs * ?e) 0 @ rest"
      using \<open>ls \<le> length es\<close> by (simp add: min_absorb2)
    show "length ((?h @ ?M1) @ replicate (?rs * ?e) 0 @ rest) = blockSize c" using fits(4) m unfolding bb by (simp add: mult.commute del: length_concat)
  qed (use fits ft(1) ids(2) in simp)
  moreover have "holds c K good (?g @ ?M2 @ drop (?e * ?rs) q) (LeafN cur r (drop ls es))"
  proof (rule holdsI)
    show "?g @ ?M2 @ drop (?e * ?rs) q = node_bytes K (LeafN cur r (drop ls es)) @ drop (?e * ?rs) q" by simp
    have "length q + 16 = blockSize c" using w(6) s \<open>16 \<le> length s\<close> by linarith
    then show "length (?g @ ?M2 @ drop (?e * ?rs) q) = blockSize c" using q m(2) by (simp del: length_concat)
  qed (use fits ft(2) ids in simp)
  ultimately show ?thesis by blast
qed

lemma cut_inner:
  assumes "length s = blockSize c" "m \<le> entsPerInner c"
  obtains w0 w1 w2 g q where "s = w0 @ w1 @ w2 @ g @ q" "length w0 = 4" "length w1 = 4" "length w2 = 4" "length g = entSizeInner c * m"
proof -
  have "12 + entSizeInner c * m \<le> blockSize c" using room(2) mult_le_mono2[OF assms(2), of "entSizeInner c"] by linarith
  moreover have "16 \<le> length s" using assms(1) sizes(1) by (simp add: cfg_ok_def)
  then obtain w0 w1 w2 w3 q where "s = w0 @ w1 @ w2 @ w3 @ q" "length w0 = 4" "length w1 = 4" "length w2 = 4" "length w3 = 4"
    "length q = length s - 16" by (rule cut_words)
  ultimately show ?thesis using assms(1)
    that[of w0 w1 w2 "take (entSizeInner c * m) (w3 @ q)" "drop (entSizeInner c * m) (w3 @ q)"] by (simp add: min_def del: take_append drop_append)
qed

text \<open>Splitting an inner node: the middle entry gives the split key and the leftmost reference of the new block.\<close>

lemma splitInner_block:
  fixes es l
  defines "ls \<equiv> length es div 2"
  assumes b: "holds c K good b (InnerN l es)" and s: "length s = blockSize c"
    and chk: "0 < ls" "0 < length es - ls - 1" "ls < entsPerInner c - 2" "length es - ls - 1 < entsPerInner c - 1"
  shows "\<exists>b' s'. b_splitInner bo c K b s = Inr (b', s', fst (es ! ls))
    \<and> holds c K good b' (InnerN l (take ls es)) \<and> holds c K good s' (InnerN (snd (es ! ls)) (drop (ls + 1) es))"
proof -
  let ?e = "entSizeInner c" and ?f = "inner_ent K" and ?rs = "length es - ls - 1"
  obtain k n where kn: "es ! ls = (k, n)" by (cases "es ! ls")
  let ?M1 = "concat (map ?f (take ls es))" and ?M2 = "concat (map ?f (drop (ls + 1) es))"
  have fits: "\<forall>(k, n) \<in> set es. good k \<and> in_int32 n" "in_int32 l" "length b = blockSize c" "length es \<le> entsPerInner c"
    using b by (auto simp: holds_def)
  have lsl: "ls < length es" using chk(2) by linarith
  have g: "good k" "in_int32 n" using fits(1) nth_mem[OF lsl] kn by auto
  have kl: "length (writeKey K k) = keySize c" using key_law[OF g(1)] by simp
  have ft: "\<forall>(k, n) \<in> set (take ls es). good k \<and> in_int32 n" "\<forall>(k, n) \<in> set (drop (ls + 1) es). good k \<and> in_int32 n"
    using fits(1) by (auto dest: in_set_takeD in_set_dropD)
  have m: "length ?M1 = ?e * ls" "length ?M2 = ?e * ?rs" using inner_lengths[OF ft(1)] inner_lengths[OF ft(2)] lsl by simp_all
  obtain rest where "b = node_bytes K (InnerN l es) @ rest" using b by (auto simp: holds_def)
  moreover have "concat (map ?f es) = ?M1 @ ?f (es ! ls) @ ?M2"
    using arg_cong[OF id_take_nth_drop[OF lsl], of "\<lambda>xs. concat (map ?f xs)"] by simp
  ultimately have bb: "b = packLe32 0 @ le32 (int (length es)) @ le32 l @ ?M1 @ writeKey K k @ le32 n @ ?M2 @ rest"
    using kn by (simp add: inner_ent_def)
  let ?h = "packLe32 0 @ le32 (int ls) @ le32 l"
  let ?b1 = "innerSetEntCount bo (int ls) b"
  have b1: "?b1 = (?h @ ?M1) @ writeKey K k @ le32 n @ ?M2 @ rest" by (simp add: bb field_sets)
  have hb1: "holds c K good ?b1 (InnerN l (take ls es))"
  proof (rule holdsI)
    show "?b1 = node_bytes K (InnerN l (take ls es)) @ writeKey K k @ le32 n @ ?M2 @ rest" using lsl unfolding b1 by (simp add: min_absorb2)
    show "length ?b1 = blockSize c" using fits(3) unfolding b1 unfolding bb by simp
  qed (use fits ft(1) in simp)
  have key: "bslice (keyOffInner c ls) (keySize c) ?b1 = writeKey K k"
    unfolding b1 by (rule bslice_mid) (simp_all add: keyOffInner_def entOffInner_def m kl)
  have "bslice (refOffInner c ls) 4 ((?h @ ?M1 @ writeKey K k) @ le32 n @ ?M2 @ rest) = le32 n"
    by (rule bslice_mid) (simp_all add: refOffInner_def entOffInner_def m kl)
  then have ref: "bslice (refOffInner c ls) 4 ?b1 = le32 n" unfolding b1 by simp
  have "bslice (entOffInner c (ls + 1)) (?rs * ?e) ((?h @ ?M1 @ writeKey K k @ le32 n) @ ?M2 @ rest) = ?M2"
    using m by (intro bslice_mid) (simp_all add: entOffInner_def kl entSizeInner_def algebra_simps del: length_concat)
  then have sl: "bslice (entOffInner c (ls + 1)) (?rs * ?e) ?b1 = ?M2" unfolding b1 by simp
  have "?rs \<le> entsPerInner c" using fits(4) by simp
  from cut_inner[OF s this] obtain w0 w1 w2 g1 q where w: "s = w0 @ w1 @ w2 @ g1 @ q" "length w0 = 4" "length w1 = 4" "length w2 = 4"
    "length g1 = ?e * ?rs" .
  let ?g = "packLe32 0 @ le32 (int ?rs)"
  have s1: "innerSetEntCount bo (int ?rs) (headSetFlags bo 0 s) = ?g @ w2 @ g1 @ q" by (simp add: w field_sets)
  have p0: "poke lrefOffInner (le32 n) (?g @ w2 @ g1 @ q) = Inr (?g @ le32 n @ g1 @ q)"
    by (rule poke_mid) (simp_all add: lrefOffInner_def w)
  have "poke (entOffInner c 0) ?M2 ((?g @ le32 n) @ g1 @ q) = Inr ((?g @ le32 n) @ ?M2 @ q)"
    using m by (intro poke_mid) (simp_all add: entOffInner_def w del: length_concat)
  then have p1: "poke (entOffInner c 0) ?M2 (?g @ le32 n @ g1 @ q) = Inr (?g @ le32 n @ ?M2 @ q)" by simp
  let ?Z = "replicate ((?rs + 1) * ?e) 0"
  have "poke (entOffInner c ls) ?Z ((?h @ ?M1) @ (writeKey K k @ le32 n @ ?M2) @ rest) = Inr ((?h @ ?M1) @ ?Z @ rest)"
    using m by (intro poke_mid) (simp_all add: entOffInner_def kl entSizeInner_def algebra_simps del: length_concat)
  then have p2: "poke (entOffInner c ls) ?Z ?b1 = Inr ((?h @ ?M1) @ ?Z @ rest)" unfolding b1 by simp
  have n1: "nat (int (length es) div 2) = ls" by (simp add: ls_def nat_div_distrib)
  have n2: "nat (int (length es) - int ls - 1) = ?rs" using lsl by linarith
  have ck: "0 < ls \<and> 0 < ?rs \<and> ls < entsPerInner c - 2 \<and> ?rs < entsPerInner c - 1" using chk by blast
  have "b_splitInner bo c K b s = Inr ((?h @ ?M1) @ ?Z @ rest, ?g @ le32 n @ ?M2 @ q, k)"
    unfolding b_splitInner_def Let_def entCount_block(2)[OF b] n1 n2 check_simps(1)[OF ck] res_bind_simps(2) s1 ref p0 key sl p1 p2
      conjunct2[OF key_law[OF g(1)]] by (rule refl)
  moreover have "holds c K good ((?h @ ?M1) @ ?Z @ rest) (InnerN l (take ls es))"
  proof (rule holdsI)
    show "(?h @ ?M1) @ ?Z @ rest = node_bytes K (InnerN l (take ls es)) @ ?Z @ rest" using lsl by (simp add: min_absorb2 del: replicate.simps)
    show "length ((?h @ ?M1) @ ?Z @ rest) = blockSize c"
      using fits(3) m kl unfolding bb by (simp add: entSizeInner_def algebra_simps del: length_concat replicate.simps)
  qed (use fits ft(1) in simp)
  moreover have "holds c K good (?g @ le32 n @ ?M2 @ q) (InnerN n (drop (ls + 1) es))"
  proof (rule holdsI)
    show "?g @ le32 n @ ?M2 @ q = node_bytes K (InnerN n (drop (ls + 1) es)) @ q" using lsl by simp
    show "length (?g @ le32 n @ ?M2 @ q) = blockSize c" using s w(2-5) m(2) unfolding w(1) by (simp del: length_concat)
  qed (use fits ft(2) g(2) in simp)
  ultimately show ?thesis using kn by auto
qed

lemma newRoot_block:
  assumes s: "length b = blockSize c" and ids: "in_int32 cur" "in_int32 n" and k: "good k"
  shows "\<exists>b'. b_newRoot bo c K cur k n b = Inr b' \<and> holds c K good b' (InnerN cur [(k, n)])"
proof -
  have four: "4 \<le> entsPerInner c" using sizes(1) by (simp add: cfg_ok_def)
  then have one: "1 \<le> entsPerInner c" by linarith
  from cut_inner[OF s one] obtain w0 w1 w2 g q where w: "b = w0 @ w1 @ w2 @ g @ q" "length w0 = 4" "length w1 = 4" "length w2 = 4"
    "length g = entSizeInner c * 1" .
  obtain g1 g2 where g: "g = g1 @ g2" "length g1 = keySize c" "length g2 = 4"
    using w(5) that[of "take (keySize c) g" "drop (keySize c) g"] by (simp add: entSizeInner_def)
  have kl: "length (writeKey K k) = keySize c" using key_law[OF k] by simp
  let ?h = "packLe32 0 @ le32 1 @ le32 cur"
  have "set32 bo (refOffInner c 0) n ((?h @ g1) @ g2 @ q) = (?h @ g1) @ le32 n @ q"
    unfolding set32_le by (rule blit_mid) (simp_all add: refOffInner_def entOffInner_def g)
  then have r: "set32 bo (refOffInner c 0) n (set32 bo lrefOffInner cur (innerSetEntCount bo 1 (headSetFlags bo 0 b))) = ?h @ g1 @ le32 n @ q"
    by (simp add: w g field_sets)
  have "poke (keyOffInner c 0) (writeKey K k) (?h @ g1 @ le32 n @ q) = Inr (?h @ writeKey K k @ le32 n @ q)"
    using poke_mid[of "keyOffInner c 0" ?h "writeKey K k" g1 "le32 n @ q"] g kl by (simp add: keyOffInner_def entOffInner_def)
  then have "b_newRoot bo c K cur k n b = Inr (?h @ writeKey K k @ le32 n @ q)" unfolding b_newRoot_def Let_def r .
  moreover have "holds c K good (?h @ writeKey K k @ le32 n @ q) (InnerN cur [(k, n)])"
    using s w g kl ids k four by (simp add: holds_def inner_ent_def entSizeInner_def)
  ultimately show ?thesis by blast
qed

end

end
