(* ===== verification/Block_Codecs.thy ===== *)
theory Block_Codecs
  imports Btree_Layout Flex_Storage Js_View
begin

text \<open>
  The two trees of the program in the bytes of their pages: the index tree of \<open>FlexStorage\<close>, whose keys are
  written by \<open>writeIndex\<close>, and the order tree of \<open>JsView\<close>, whose keys are the references that \<open>writeKey\<close>
  of \<open>JsView\<close> stores. Both give \<open>Btree_Layout\<close> what it asks for, so that the operations on their blocks do
  what the operations on nodes do and never leave the page.
\<close>

definition flex_codec :: "index key_codec" where
  "flex_codec = \<lparr>writeKey = writeIndex, readKey = readIndex\<rparr>"

definition flex_key :: "index \<Rightarrow> bool" where
  "flex_key i \<longleftrightarrow> in_int64 (documentId i) \<and> in_int64 (sequenceId i)"

definition js_codec :: "keyref key_codec" where
  "js_codec = \<lparr>writeKey = writeKeyRef, readKey = readKeyRef\<rparr>"

definition js_key :: "keyref \<Rightarrow> bool" where
  "js_key r \<longleftrightarrow> True"

abbreviation flex_holds :: "byte list \<Rightarrow> (index, byte list) node \<Rightarrow> bool" where
  "flex_holds \<equiv> holds flex_cfg flex_codec flex_key"

abbreviation js_holds :: "byte list \<Rightarrow> (keyref, byte list) node \<Rightarrow> bool" where
  "js_holds \<equiv> holds js_cfg js_codec js_key"

interpretation fb: block_layout flex_cfg flex_codec flex_key
  using flex_cfg_ok readIndex_writeIndex
  by unfold_locales (auto simp: flex_codec_def flex_key_def flex_cfg_def writeIndex_def)

interpretation jb: block_layout js_cfg js_codec js_key
  by unfold_locales
    (auto simp: js_codec_def js_key_def js_cfg_def cfg_ok_def entsPerInner_def entsPerLeaf_def writeKeyRef_def readKeyRef_def)

section \<open>Insertion\<close>

lemma insertAtLeaf_ok: "insertAtLeaf i k v (LeafN l r es) = Inr (LeafN l r (list_insert i (k, v) es))"
  by (simp add: insertAtLeaf_def)

text \<open>
  C8. Insertion into a block of the index tree. A leaf with room, and an inner block with room on a
  little-endian host, take a new entry at every position up to their end without an access outside of the
  page, and hold afterwards what the operation on nodes gives.
\<close>

theorem flex_block_insert:
  assumes "flex_holds b (LeafN l r es)" "i \<le> length es" "length es < entsPerLeaf flex_cfg"
    and "flex_holds d (InnerN m ns)" "j \<le> length ns" "length ns < entsPerInner flex_cfg"
    and "flex_key k" "length v = valSize flex_cfg" "in_int32 ref"
  shows "(\<exists>b' nd'. b_insertAtLeaf bo flex_cfg flex_codec i k v b = Inr b' \<and> insertAtLeaf i k v (LeafN l r es) = Inr nd' \<and> flex_holds b' nd')
    \<and> (\<exists>d' nd'. b_insertAtInnerR LittleEndian flex_cfg flex_codec j k ref d = Inr d' \<and> insertAtInnerR j k ref (InnerN m ns) = Inr nd' \<and> flex_holds d' nd')"
  using fb.insertAtLeaf_block[OF assms(1-3,7,8), of bo] fb.insertAtInnerR_block[OF assms(4-7,9) refl]
  by (auto simp: insertAtLeaf_def insertAtInnerR_def)

text \<open>A page with a node at its start.\<close>

definition page_of :: "nat \<Rightarrow> byte list \<Rightarrow> byte list" where
  "page_of n bs = bs @ replicate (n - length bs) 0"

lemma holds_page_of:
  "node_fits c good nd \<Longrightarrow> length (node_bytes K nd) \<le> blockSize c \<Longrightarrow> holds c K good (page_of (blockSize c) (node_bytes K nd)) nd"
  unfolding page_of_def by (rule holdsI) simp_all

lemma flex_numbers [simp]: "blockSize flex_cfg = 4096" "keySize flex_cfg = 16" "valSize flex_cfg = 16"
  "entsPerLeaf flex_cfg = 127" "entsPerInner flex_cfg = 204"
  by (simp_all add: flex_cfg_def entsPerLeaf_def entsPerInner_def)

lemma js_numbers [simp]: "blockSize js_cfg = 4096" "keySize js_cfg = 12" "valSize js_cfg = 16"
  "entsPerLeaf js_cfg = 145" "entsPerInner js_cfg = 255"
  by (simp_all add: js_cfg_def entsPerLeaf_def entsPerInner_def)

theorem flex_block_insert_witness:
  "(\<exists>b' nd'. b_insertAtLeaf LittleEndian flex_cfg flex_codec 1 (ix 3 6) (packRef 7 8)
      (page_of 4096 (node_bytes flex_codec (LeafN 0 9 [(ix 3 5, packRef 0 7)]))) = Inr b'
      \<and> insertAtLeaf 1 (ix 3 6) (packRef 7 8) (LeafN 0 9 [(ix 3 5, packRef 0 7)]) = Inr nd' \<and> flex_holds b' nd')
   \<and> (\<exists>d' nd'. b_insertAtInnerR LittleEndian flex_cfg flex_codec 0 (ix 3 6) 4 (page_of 4096 (node_bytes flex_codec (InnerN 1 [(ix 3 9, 2)]))) = Inr d'
      \<and> insertAtInnerR 0 (ix 3 6) 4 (InnerN 1 [(ix 3 9, 2)]) = Inr nd' \<and> flex_holds d' nd')"
proof -
  have k: "length (writeKey flex_codec x) = 16" for x by (simp add: flex_codec_def writeIndex_def)
  have "flex_holds (page_of 4096 (node_bytes flex_codec (LeafN 0 9 [(ix 3 5, packRef 0 7)]))) (LeafN 0 9 [(ix 3 5, packRef 0 7)])"
    using holds_page_of[of flex_cfg flex_key "LeafN 0 9 [(ix 3 5, packRef 0 7)]" flex_codec]
    by (simp add: flex_key_def in_int64_def in_int32_def packRef_def leaf_ent_def k)
  moreover have "flex_holds (page_of 4096 (node_bytes flex_codec (InnerN 1 [(ix 3 9, 2)]))) (InnerN 1 [(ix 3 9, 2)])"
    using holds_page_of[of flex_cfg flex_key "InnerN 1 [(ix 3 9, 2)]" flex_codec]
    by (simp add: flex_key_def in_int64_def in_int32_def inner_ent_def k)
  ultimately show ?thesis
    using flex_block_insert[of _ 0 9 "[(ix 3 5, packRef 0 7)]" 1 _ 1 "[(ix 3 9, 2)]" 0 "ix 3 6" "packRef 7 8" 4 LittleEndian]
    by (simp add: flex_key_def in_int64_def in_int32_def packRef_def)
qed

section \<open>Splitting\<close>

lemma js_split_sizes:
  assumes "js_holds b nd" "b_blockIsFull bo js_cfg b"
  shows "nd = LeafN l r es \<Longrightarrow> 0 < length es div 2 \<and> length es div 2 < entsPerLeaf js_cfg - 1 \<and> length es - length es div 2 < entsPerLeaf js_cfg - 1"
    "nd = InnerN m ns \<Longrightarrow> 0 < length ns div 2 \<and> 0 < length ns - length ns div 2 - 1
      \<and> length ns div 2 < entsPerInner js_cfg - 2 \<and> length ns - length ns div 2 - 1 < entsPerInner js_cfg - 1"
  using assms jb.blockIsFull_block[OF assms(1), of bo] by (auto simp: holds_def blockIsFull_def)

text \<open>
  C9. Splitting in the order tree. A full block can be split, and the two pages hold the halves of its
  entries; the key for the parent is the last one of the left half of a leaf, and the middle one of an
  inner block, whose reference becomes the leftmost one of the new block. A new root holds its two children.
\<close>

theorem js_block_split:
  assumes "js_holds b (LeafN l r es)" "b_blockIsFull bo js_cfg b"
    and "js_holds d (InnerN m ns)" "b_blockIsFull bo js_cfg d"
    and "length s = 4096" "in_int32 cur" "in_int32 n"
  shows "(\<exists>b' s'. b_splitLeaf bo js_cfg js_codec cur n b s = Inr (b', s', fst (es ! (length es div 2 - 1)))
      \<and> js_holds b' (LeafN l n (take (length es div 2) es)) \<and> js_holds s' (LeafN cur r (drop (length es div 2) es)))
    \<and> (\<exists>d' s'. b_splitInner bo js_cfg js_codec d s = Inr (d', s', fst (ns ! (length ns div 2)))
      \<and> js_holds d' (InnerN m (take (length ns div 2) ns)) \<and> js_holds s' (InnerN (snd (ns ! (length ns div 2))) (drop (length ns div 2 + 1) ns)))
    \<and> (\<exists>s'. b_newRoot bo js_cfg js_codec cur k n s = Inr s' \<and> js_holds s' (InnerN cur [(k, n)]))"
proof (intro conjI)
  show "\<exists>b' s'. b_splitLeaf bo js_cfg js_codec cur n b s = Inr (b', s', fst (es ! (length es div 2 - 1)))
      \<and> js_holds b' (LeafN l n (take (length es div 2) es)) \<and> js_holds s' (LeafN cur r (drop (length es div 2) es))"
    using js_split_sizes(1)[OF assms(1,2) refl] assms(5-7) by (intro jb.splitLeaf_block[OF assms(1)]) simp_all
  show "\<exists>d' s'. b_splitInner bo js_cfg js_codec d s = Inr (d', s', fst (ns ! (length ns div 2)))
      \<and> js_holds d' (InnerN m (take (length ns div 2) ns)) \<and> js_holds s' (InnerN (snd (ns ! (length ns div 2))) (drop (length ns div 2 + 1) ns))"
    using js_split_sizes(2)[OF assms(3,4) refl] assms(5) by (intro jb.splitInner_block[OF assms(3)]) simp_all
  show "\<exists>s'. b_newRoot bo js_cfg js_codec cur k n s = Inr s' \<and> js_holds s' (InnerN cur [(k, n)])"
    using assms(5-7) by (intro jb.newRoot_block) (simp_all add: js_key_def)
qed

definition kr56 :: keyref where
  "kr56 = \<lparr>krOffset = 5, krLength = 6\<rparr>"

theorem js_block_split_witness:
  "\<exists>b' s'. b_splitLeaf LittleEndian js_cfg js_codec 3 7 (page_of 4096 (node_bytes js_codec (LeafN 0 0 (replicate 144 (kr56, packLink 1 2))))) (replicate 4096 0)
      = Inr (b', s', kr56) \<and> js_holds b' (LeafN 0 7 (replicate 72 (kr56, packLink 1 2))) \<and> js_holds s' (LeafN 3 0 (replicate 72 (kr56, packLink 1 2)))"
proof -
  let ?es = "replicate 144 (kr56, packLink 1 2)" and ?ns = "replicate 254 (kr56, 4 :: int)"
  let ?b = "page_of 4096 (node_bytes js_codec (LeafN 0 0 ?es))" and ?d = "page_of 4096 (node_bytes js_codec (InnerN 1 ?ns))"
  have f: "node_fits js_cfg js_key (LeafN 0 0 ?es)" "node_fits js_cfg js_key (InnerN 1 ?ns)"
    by (simp_all add: packLink_def js_key_def in_int32_def)
  have b: "js_holds ?b (LeafN 0 0 ?es)"
    using holds_page_of[OF f(1), of js_codec] jb.leaf_lengths[of ?es] f(1) by (simp add: entSizeLeaf_def del: length_concat)
  have d: "js_holds ?d (InnerN 1 ?ns)"
    using holds_page_of[OF f(2), of js_codec] jb.inner_lengths[of ?ns] f(2) by (simp add: entSizeInner_def del: length_concat)
  have full: "b_blockIsFull LittleEndian js_cfg ?b" "b_blockIsFull LittleEndian js_cfg ?d"
    using jb.blockIsFull_block[OF b] jb.blockIsFull_block[OF d] by (simp_all add: blockIsFull_def)
  show ?thesis using js_block_split[OF b full(1) d full(2), of "replicate 4096 0" 3 7] by (simp add: in_int32_def)
qed

text \<open>
  A finding: the reference of a new entry of an inner block is stored without \<open>toLeU32\<close>, but read with \<open>fromLeU32\<close>: on a
  big-endian host block 4 comes back as another block.
\<close>

lemma inner_ref_big_endian: "get32 BigEndian 0 (set32_native BigEndian 4) \<noteq> 4"
  by (simp add: get32_def set32_native_def bslice_def load_store fromLeU32_def)

end
