(* ===== verification/Cache_Host.thy ===== *)
theory Cache_Host
  imports Prelude
begin

text \<open>
  \<open>CacheHost\<close> (\<open>shard/src/ll/page-cache.cpp\<close>): the ring of cached items. The items are linked by two
  pointers each, with a sentinel for which the meaning of the pointers is swapped; the order is from
  the least to the most recently used item. The pointers are kept as they are in the code, and a
  relation to the list of the items gives the operations their meaning. An item is a page number; all
  items have the same footprint \<open>fp\<close>.
\<close>

datatype cref = Sentinel | Item nat

record cache_host =
  moreRecently :: "cref \<Rightarrow> cref"
  lessRecently :: "cref \<Rightarrow> cref"
  alive :: "nat \<Rightarrow> bool"
  activeFootprint :: int
  climit :: int

definition host_new :: "int \<Rightarrow> cache_host" where
  "host_new l = \<lparr>moreRecently = (\<lambda>_. Sentinel), lessRecently = (\<lambda>_. Sentinel), alive = (\<lambda>_. False),
     activeFootprint = 0, climit = l\<rparr>"

definition mostRecently :: "cache_host \<Rightarrow> cref" where
  "mostRecently h = lessRecently h Sentinel"

definition leastRecently :: "cache_host \<Rightarrow> cref" where
  "leastRecently h = moreRecently h Sentinel"

text \<open>Linking an item in at the end, the four assignments of the code in their order.\<close>

definition host_link :: "nat \<Rightarrow> cache_host \<Rightarrow> cache_host" where
  "host_link i h =
    (let h = h\<lparr>moreRecently := (moreRecently h)(Item i := Sentinel)\<rparr>;
         h = h\<lparr>lessRecently := (lessRecently h)(Item i := mostRecently h)\<rparr>;
         h = h\<lparr>moreRecently := (moreRecently h)(mostRecently h := Item i)\<rparr> in
     h\<lparr>lessRecently := (lessRecently h)(Sentinel := Item i)\<rparr>)"

definition host_unlink :: "nat \<Rightarrow> cache_host \<Rightarrow> cache_host" where
  "host_unlink i h =
    (let less_recently = lessRecently h (Item i); more_recently = moreRecently h (Item i);
         h = h\<lparr>moreRecently := (moreRecently h)(less_recently := more_recently)\<rparr> in
     h\<lparr>lessRecently := (lessRecently h)(more_recently := less_recently)\<rparr>)"

text \<open>The parts of \<open>requestAcquire\<close>, \<open>onAccess\<close> and \<open>releaseItem\<close> under the list lock.\<close>

definition host_acquired :: "int \<Rightarrow> nat \<Rightarrow> cache_host \<Rightarrow> cache_host res" where
  "host_acquired fp i h =
     res_bind (check (\<not> alive h i) AssertFailed) (\<lambda>_.
     Inr (host_link i (h\<lparr>alive := (alive h)(i := True), activeFootprint := activeFootprint h + fp\<rparr>)))"

definition onAccess :: "nat \<Rightarrow> cache_host \<Rightarrow> cache_host" where
  "onAccess i h = (if \<not> alive h i then h else host_link i (host_unlink i h))"

definition host_released :: "int \<Rightarrow> cref \<Rightarrow> cache_host \<Rightarrow> (nat \<times> cache_host) res" where
  "host_released fp r h = (case r of
     Sentinel \<Rightarrow> Inl AssertFailed
   | Item i \<Rightarrow> Inr (i, host_unlink i (h\<lparr>alive := (alive h)(i := False), activeFootprint := activeFootprint h - fp\<rparr>)))"

section \<open>The ring as a list\<close>

text \<open>\<open>seg h a xs b\<close>: from \<open>a\<close> the pointers lead over the items \<open>xs\<close> to \<open>b\<close>, and back.\<close>

fun seg :: "cache_host \<Rightarrow> cref \<Rightarrow> nat list \<Rightarrow> cref \<Rightarrow> bool" where
  "seg h a [] b \<longleftrightarrow> moreRecently h a = b \<and> lessRecently h b = a"
| "seg h a (x # xs) b \<longleftrightarrow> moreRecently h a = Item x \<and> lessRecently h (Item x) = a \<and> seg h (Item x) xs b"

definition ring :: "cache_host \<Rightarrow> nat list \<Rightarrow> bool" where
  "ring h xs \<longleftrightarrow> seg h Sentinel xs Sentinel \<and> distinct xs \<and> (\<forall>i. alive h i \<longleftrightarrow> i \<in> set xs)"

lemma seg_append: "seg h a (xs @ x # ys) b \<longleftrightarrow> seg h a xs (Item x) \<and> seg h (Item x) ys b"
  by (induction xs arbitrary: a) auto

lemma seg_cong:
  assumes "\<And>r. r \<in> insert a (Item ` set xs) \<Longrightarrow> moreRecently h' r = moreRecently h r"
    and "\<And>r. r \<in> insert b (Item ` set xs) \<Longrightarrow> lessRecently h' r = lessRecently h r"
  shows "seg h' a xs b = seg h a xs b"
  using assms by (induction xs arbitrary: a) auto

lemma seg_last: "seg h a xs b \<Longrightarrow> lessRecently h b = (if xs = [] then a else Item (last xs))"
  by (induction xs arbitrary: a) auto

lemma seg_first: "seg h a xs b \<Longrightarrow> moreRecently h a = (if xs = [] then b else Item (hd xs))"
  by (cases xs) auto

lemma seg_snoc:
  assumes "seg h a xs b" "b \<notin> Item ` set xs" "x \<notin> set xs" "a \<noteq> Item x" "b \<noteq> Item x" "distinct xs" "a \<notin> Item ` set xs"
    and "moreRecently h' = (moreRecently h)(Item x := b, lessRecently h b := Item x)"
    and "lessRecently h' = (lessRecently h)(Item x := lessRecently h b, b := Item x)"
  shows "seg h' a (xs @ [x]) b"
  using assms(1-7)
proof (induction xs arbitrary: a)
  case Nil
  then show ?case using assms(8,9) by auto
next
  case (Cons y xs)
  have l: "lessRecently h b \<noteq> a"
    using Cons.prems(1,7) seg_last[of h a "y # xs" b] last_in_set[of "y # xs"] by (metis imageI list.distinct(1))
  have "seg h' (Item y) (xs @ [x]) b"
    using Cons.prems by (intro Cons.IH) auto
  then show ?case using Cons.prems assms(8,9) l by auto
qed

lemma ring_new: "ring (host_new l) []"
  by (simp add: ring_def host_new_def)

lemma ring_least: "ring h xs \<Longrightarrow> leastRecently h = (case xs of [] \<Rightarrow> Sentinel | x # _ \<Rightarrow> Item x)"
  using seg_first[of h Sentinel xs Sentinel] by (auto simp: ring_def leastRecently_def split: list.splits)

lemma seg_link:
  assumes "seg h Sentinel xs Sentinel" "distinct xs" "i \<notin> set xs"
  shows "seg (host_link i h) Sentinel (xs @ [i]) Sentinel"
proof (rule seg_snoc[OF assms(1)])
  show "moreRecently (host_link i h) = (moreRecently h)(Item i := Sentinel, lessRecently h Sentinel := Item i)"
    "lessRecently (host_link i h) = (lessRecently h)(Item i := lessRecently h Sentinel, Sentinel := Item i)"
    by (simp_all add: host_link_def mostRecently_def Let_def)
qed (use assms in auto)

lemma seg_unlink:
  assumes "seg h Sentinel (xs @ i # ys) Sentinel" "distinct (xs @ i # ys)"
  shows "seg (host_unlink i h) Sentinel (xs @ ys) Sentinel"
proof -
  let ?a = "if xs = [] then Sentinel else Item (last xs)" and ?b = "if ys = [] then Sentinel else Item (hd ys)"
  have s: "seg h Sentinel xs (Item i)" "seg h (Item i) ys Sentinel" using assms(1) by (auto simp: seg_append)
  have h': "moreRecently (host_unlink i h) = (moreRecently h)(?a := ?b)" "lessRecently (host_unlink i h) = (lessRecently h)(?b := ?a)"
    using seg_last[OF s(1)] seg_first[OF s(2)] by (simp_all add: host_unlink_def Let_def)
  show ?thesis
  proof (cases ys)
    case Nil
    show ?thesis
    proof (cases xs rule: rev_cases)
      case Nil
      then show ?thesis using h' \<open>ys = []\<close> by simp
    next
      case (snoc zs z)
      have "seg (host_unlink i h) Sentinel zs (Item z) = seg h Sentinel zs (Item z)"
        using h' snoc \<open>ys = []\<close> assms(2) by (intro seg_cong) auto
      then show ?thesis using s(1) snoc \<open>ys = []\<close> h' by (simp add: seg_append)
    qed
  next
    case (Cons y ws)
    have y: "seg (host_unlink i h) (Item y) ws Sentinel = seg h (Item y) ws Sentinel"
      using h' Cons assms(2) by (intro seg_cong) (auto split: if_splits dest: last_in_set)
    show ?thesis
    proof (cases xs rule: rev_cases)
      case Nil
      then show ?thesis using h' Cons s y by simp
    next
      case (snoc zs z)
      have "seg (host_unlink i h) Sentinel zs (Item z) = seg h Sentinel zs (Item z)"
        using h' snoc Cons assms(2) by (intro seg_cong) auto
      then show ?thesis using s snoc Cons h' y by (simp add: seg_append)
    qed
  qed
qed

lemma link_alive [simp]: "alive (host_link i h) = alive h" "activeFootprint (host_link i h) = activeFootprint h"
  "climit (host_link i h) = climit h"
  by (simp_all add: host_link_def Let_def)

lemma unlink_alive [simp]: "alive (host_unlink i h) = alive h" "activeFootprint (host_unlink i h) = activeFootprint h"
  "climit (host_unlink i h) = climit h"
  by (simp_all add: host_unlink_def Let_def)

lemma seg_alive: "seg (h\<lparr>alive := al, activeFootprint := f\<rparr>) a xs b = seg h a xs b"
  by (rule seg_cong) simp_all

lemma host_acquired_ring:
  assumes "ring h xs" "i \<notin> set xs"
  shows "\<exists>h'. host_acquired fp i h = Inr h' \<and> ring h' (xs @ [i]) \<and> activeFootprint h' = activeFootprint h + fp \<and> climit h' = climit h"
proof -
  let ?h = "h\<lparr>alive := (alive h)(i := True), activeFootprint := activeFootprint h + fp\<rparr>"
  have "seg (host_link i ?h) Sentinel (xs @ [i]) Sentinel"
    using assms by (intro seg_link) (simp_all add: ring_def seg_alive)
  then show ?thesis using assms by (auto simp: host_acquired_def ring_def)
qed

lemma host_released_ring:
  assumes "ring h (x # xs)"
  shows "\<exists>h'. host_released fp (leastRecently h) h = Inr (x, h') \<and> ring h' xs
    \<and> activeFootprint h' = activeFootprint h - fp \<and> climit h' = climit h"
proof -
  let ?h = "h\<lparr>alive := (alive h)(x := False), activeFootprint := activeFootprint h - fp\<rparr>"
  have "seg (host_unlink x ?h) Sentinel ([] @ xs) Sentinel"
    using assms by (intro seg_unlink) (simp_all add: ring_def seg_alive)
  then show ?thesis using assms ring_least[OF assms] by (auto simp: host_released_def ring_def)
qed

text \<open>
  The pointers of the cache host represent a list of distinct items: acquiring an item that is not
  in it appends it, releasing the least recently used one removes the first, and an access moves an
  item to the end, whatever the items are, with the footprint counted accordingly.
\<close>

theorem cache_host_list:
  assumes "ring h xs"
  shows "(i \<notin> set xs \<longrightarrow> (\<exists>h'. host_acquired fp i h = Inr h' \<and> ring h' (xs @ [i]) \<and> activeFootprint h' = activeFootprint h + fp))
    \<and> (xs \<noteq> [] \<longrightarrow> (\<exists>h'. host_released fp (leastRecently h) h = Inr (hd xs, h') \<and> ring h' (tl xs)
         \<and> activeFootprint h' = activeFootprint h - fp))
    \<and> ring (onAccess i h) (if i \<in> set xs then remove1 i xs @ [i] else xs)"
proof (intro conjI impI)
  show "\<exists>h'. host_acquired fp i h = Inr h' \<and> ring h' (xs @ [i]) \<and> activeFootprint h' = activeFootprint h + fp" if "i \<notin> set xs"
    using host_acquired_ring[OF assms that] by blast
  show "\<exists>h'. host_released fp (leastRecently h) h = Inr (hd xs, h') \<and> ring h' (tl xs) \<and> activeFootprint h' = activeFootprint h - fp"
    if "xs \<noteq> []"
    using host_released_ring[of h "hd xs" "tl xs"] assms that by auto
  show "ring (onAccess i h) (if i \<in> set xs then remove1 i xs @ [i] else xs)"
  proof (cases "i \<in> set xs")
    case True
    then obtain as bs where xs: "xs = as @ i # bs" "i \<notin> set as" by (meson split_list_first)
    have "distinct xs" "alive h i" using assms True by (auto simp: ring_def)
    moreover have "seg (host_link i (host_unlink i h)) Sentinel ((as @ bs) @ [i]) Sentinel"
      using assms calculation(1) xs by (intro seg_link seg_unlink) (auto simp: ring_def)
    ultimately show ?thesis using assms xs by (auto simp: ring_def onAccess_def remove1_append)
  qed (use assms in \<open>auto simp: ring_def onAccess_def\<close>)
qed

theorem cache_host_list_witness:
  "\<exists>h'. host_acquired 4096 3 (host_new 65536) = Inr h' \<and> ring h' [3] \<and> activeFootprint h' = 4096"
  using cache_host_list[OF ring_new, of 3 4096 65536] by (simp add: host_new_def)

end
