(* ===== verification/Page_Cache.thy ===== *)
theory Page_Cache
  imports Cache_Host File_Io
begin

text \<open>
  \<open>PageInfo\<close> and \<open>PageCache\<close> (\<open>shard/src/ll/page-cache.cpp\<close>): the state machine of a page (absent,
  being read, in memory, to be released, being written back), the waiting callers and the tasks of the
  I/O pool. A call of a method is one step, and so is every task of the I/O pool and every delivery of
  a buffer to a waiting caller; these interleave in any order. A caller is known by a number. Page
  numbers are not negative. The cache host serves this one cache. \<open>finishRelease\<close> and \<open>requestAcquire\<close>
  call each other; the argument \<open>RA\<close> is the recursive call, and \<open>requestAcquire\<close> has fuel, of which
  one nested call is shown to be enough (\<open>requestAcquire_ok\<close>, no step runs out of fuel).
\<close>

section \<open>State\<close>

record pinfo =
  pbuf :: "byte list"
  waitQueue :: "nat list"
  useCount :: int
  flLoaded :: bool
  flDirty :: bool
  flInitialize :: bool
  flRelease :: bool

datatype io_task = DiskRead nat | DiskWrite nat

record pcache =
  host :: cache_host
  pageSize :: nat
  pfile :: lfile
  presentPages :: "nat \<rightharpoonup> pinfo"
  ioTasks :: "io_task list"
  readyTasks :: "(nat \<times> nat) list"

definition pinfo_new :: pinfo where
  "pinfo_new = \<lparr>pbuf = [], waitQueue = [], useCount = 0, flLoaded = False, flDirty = False,
     flInitialize = False, flRelease = False\<rparr>"

text \<open>The constructor and \<open>open\<close>, which truncates the file.\<close>

definition pcache_open :: "int \<Rightarrow> nat \<Rightarrow> pcache" where
  "pcache_open l ps = \<lparr>host = host_new l, pageSize = ps, pfile = \<lparr>fdata = [], fpos = 0\<rparr>, presentPages = Map.empty,
     ioTasks = [], readyTasks = []\<rparr>"

definition put_info :: "nat \<Rightarrow> pinfo \<Rightarrow> pcache \<Rightarrow> pcache" where
  "put_info p i c = c\<lparr>presentPages := (presentPages c)(p \<mapsto> i)\<rparr>"

definition get_info :: "nat \<Rightarrow> pcache \<Rightarrow> pinfo res" where
  "get_info p c = (case presentPages c p of None \<Rightarrow> Inl NullDeref | Some i \<Rightarrow> Inr i)"

text \<open>A caller's task callback queues \<open>ReadClosure::complete\<close> in the caller's thread.\<close>

definition wake :: "nat \<Rightarrow> nat list \<Rightarrow> pcache \<Rightarrow> pcache" where
  "wake p ws c = c\<lparr>readyTasks := readyTasks c @ map (\<lambda>w. (w, p)) ws\<rparr>"

section \<open>PageInfo\<close>

definition acquire :: "nat \<Rightarrow> pcache \<Rightarrow> pcache res" where
  "acquire p c =
     res_bind (get_info p c) (\<lambda>i.
     let i = i\<lparr>pbuf := replicate (pageSize c) 0\<rparr> in
     if flInitialize i then
       res_bind (check (useCount i = 0) AssertFailed) (\<lambda>_.
       res_bind (check (length (waitQueue i) = 1) AssertFailed) (\<lambda>_.
       Inr (wake p (waitQueue i) (put_info p (i\<lparr>flInitialize := False, flLoaded := True, useCount := 1, waitQueue := []\<rparr>) c))))
     else Inr ((put_info p i c)\<lparr>ioTasks := ioTasks c @ [DiskRead p]\<rparr>))"

definition finishRelease :: "(nat \<Rightarrow> pcache \<Rightarrow> pcache res) \<Rightarrow> nat \<Rightarrow> pcache \<Rightarrow> pcache res" where
  "finishRelease RA p c =
     res_bind (get_info p c) (\<lambda>i.
     if waitQueue i = [] then Inr (c\<lparr>presentPages := (presentPages c)(p := None)\<rparr>) else RA p c)"

definition doRelease :: "(nat \<Rightarrow> pcache \<Rightarrow> pcache res) \<Rightarrow> nat \<Rightarrow> pcache \<Rightarrow> pcache res" where
  "doRelease RA p c =
     res_bind (get_info p c) (\<lambda>i.
     res_bind (check (flLoaded i \<and> flRelease i) AssertFailed) (\<lambda>_.
     res_bind (check (useCount i = 0) AssertFailed) (\<lambda>_.
     let c = put_info p (i\<lparr>flLoaded := False, flRelease := False\<rparr>) c in
     if flDirty i then Inr (c\<lparr>ioTasks := ioTasks c @ [DiskWrite p]\<rparr>) else finishRelease RA p c)))"

definition page_release :: "(nat \<Rightarrow> pcache \<Rightarrow> pcache res) \<Rightarrow> nat \<Rightarrow> pcache \<Rightarrow> pcache res" where
  "page_release RA p c =
     res_bind (get_info p c) (\<lambda>i.
     let c = put_info p (i\<lparr>flRelease := True\<rparr>) c in
     if flLoaded i \<and> useCount i = 0 then doRelease RA p c else Inr c)"

definition releaseItem :: "(nat \<Rightarrow> pcache \<Rightarrow> pcache res) \<Rightarrow> cref \<Rightarrow> pcache \<Rightarrow> pcache res" where
  "releaseItem RA r c =
     res_bind (host_released (int (pageSize c)) r (host c)) (\<lambda>(p, h). page_release RA p (c\<lparr>host := h\<rparr>))"

text \<open>The loop at the end of \<open>requestAcquire\<close>.\<close>

fun evict :: "(nat \<Rightarrow> pcache \<Rightarrow> pcache res) \<Rightarrow> nat \<Rightarrow> pcache \<Rightarrow> pcache res" where
  "evict RA 0 c = Inl OutOfFuel"
| "evict RA (Suc n) c =
     (if activeFootprint (host c) > climit (host c)
      then res_bind (releaseItem RA (leastRecently (host c)) c) (evict RA n) else Inr c)"

fun requestAcquire :: "nat \<Rightarrow> nat \<Rightarrow> pcache \<Rightarrow> pcache res" where
  "requestAcquire 0 p c = Inl OutOfFuel"
| "requestAcquire (Suc n) p c =
     res_bind (check (int (pageSize c) < climit (host c)) AssertFailed) (\<lambda>_.
     res_bind (acquire p c) (\<lambda>c.
     res_bind (host_acquired (int (pageSize c)) p (host c)) (\<lambda>h.
     evict (requestAcquire n) (Suc (nat (activeFootprint h))) (c\<lparr>host := h\<rparr>))))"

abbreviation "request \<equiv> requestAcquire 2"

definition diskWrite :: "nat \<Rightarrow> pcache \<Rightarrow> pcache res" where
  "diskWrite p c =
     res_bind (get_info p c) (\<lambda>i.
     let c = c\<lparr>pfile := pwriteSync (p * pageSize c) (pbuf i) (pfile c)\<rparr> in
     finishRelease request p (put_info p (i\<lparr>flDirty := False\<rparr>) c))"

definition diskRead :: "nat \<Rightarrow> pcache \<Rightarrow> pcache res" where
  "diskRead p c =
     res_bind (get_info p c) (\<lambda>i.
     let i = i\<lparr>pbuf := preadSync (p * pageSize c) (pbuf i) (pfile c)\<rparr> in
     res_bind (check (useCount i = 0) AssertFailed) (\<lambda>_.
     Inr (wake p (waitQueue i) (put_info p (i\<lparr>flLoaded := True, useCount := int (length (waitQueue i)), waitQueue := []\<rparr>) c))))"

section \<open>PageCache\<close>

text \<open>The result is the buffer when the callback is called at once, none when the caller waits.\<close>

definition initializePage :: "nat \<Rightarrow> nat \<Rightarrow> pcache \<Rightarrow> (byte list option \<times> pcache) res" where
  "initializePage p w c = (case presentPages c p of
     None \<Rightarrow> res_bind (request p (put_info p (pinfo_new\<lparr>waitQueue := [w]\<rparr>) c)) (\<lambda>c. Inr (None, c))
   | Some i \<Rightarrow>
      res_bind (check (waitQueue i = []) AssertFailed) (\<lambda>_.
      res_bind (check (flLoaded i) AssertFailed) (\<lambda>_.
      res_bind (check (useCount i = 0) AssertFailed) (\<lambda>_.
      if \<not> flRelease i then Inr (Some (pbuf i), put_info p (i\<lparr>useCount := 1\<rparr>) c)
      else Inr (None, put_info p (i\<lparr>flInitialize := True, waitQueue := waitQueue i @ [w]\<rparr>) c)))))"

definition readPage :: "nat \<Rightarrow> nat \<Rightarrow> pcache \<Rightarrow> (byte list option \<times> pcache) res" where
  "readPage p w c = (case presentPages c p of
     None \<Rightarrow> res_bind (request p (put_info p (pinfo_new\<lparr>waitQueue := [w]\<rparr>) c)) (\<lambda>c. Inr (None, c))
   | Some i \<Rightarrow>
      res_bind (check (\<not> flInitialize i) AssertFailed) (\<lambda>_.
      if flLoaded i \<and> \<not> flRelease i then Inr (Some (pbuf i), put_info p (i\<lparr>useCount := useCount i + 1\<rparr>) c)
      else Inr (None, put_info p (i\<lparr>waitQueue := waitQueue i @ [w]\<rparr>) c)))"

definition writePage :: "nat \<Rightarrow> pcache \<Rightarrow> pcache res" where
  "writePage p c = (case presentPages c p of
     None \<Rightarrow> Inl OutOfRange
   | Some i \<Rightarrow> Inr (put_info p (i\<lparr>flDirty := True\<rparr>) c))"

definition releasePage :: "nat \<Rightarrow> pcache \<Rightarrow> pcache res" where
  "releasePage p c = (case presentPages c p of
     None \<Rightarrow> Inl AssertFailed
   | Some i \<Rightarrow>
      res_bind (check (useCount i > 0) AssertFailed) (\<lambda>_.
      let i = i\<lparr>useCount := useCount i - 1\<rparr>; c = put_info p i c in
      if useCount i = 0 \<and> flRelease i then doRelease request p c else Inr c))"

text \<open>\<open>ReadClosure::complete\<close>: caller \<open>w\<close> gets the buffer of page \<open>p\<close>.\<close>

definition complete :: "nat \<Rightarrow> pcache \<Rightarrow> (byte list \<times> pcache) res" where
  "complete k c = (let (w, p) = readyTasks c ! k in
     case presentPages c p of
       None \<Rightarrow> Inl OutOfRange
     | Some i \<Rightarrow> Inr (pbuf i, c\<lparr>readyTasks := take k (readyTasks c) @ drop (Suc k) (readyTasks c)\<rparr>))"

text \<open>A task of the I/O pool.\<close>

definition io_step :: "nat \<Rightarrow> pcache \<Rightarrow> pcache res" where
  "io_step k c =
    (let c' = c\<lparr>ioTasks := take k (ioTasks c) @ drop (Suc k) (ioTasks c)\<rparr> in
     case ioTasks c ! k of DiskRead p \<Rightarrow> diskRead p c' | DiskWrite p \<Rightarrow> diskWrite p c')"

text \<open>What a user of a page does to its buffer.\<close>

definition poke :: "nat \<Rightarrow> byte list \<Rightarrow> pcache \<Rightarrow> pcache" where
  "poke p b c = c\<lparr>presentPages := (presentPages c)(p := map_option (\<lambda>i. i\<lparr>pbuf := b\<rparr>) (presentPages c p))\<rparr>"

end
