(* ===== verification/Page_Cache_Inv.thy ===== *)
theory Page_Cache_Inv
  imports Page_Cache
begin

text \<open>
  The page cache is transparent. The invariant relates the cache to a plain memory \<open>m\<close> of pages: a
  page in memory has its content there, a page that is absent or being read has it in the file, and a
  page that is being written back has it in its buffer. The users are described by what they hold
  (\<open>held\<close>, the use counts they were given) and by the pages they have changed and not yet reported with
  \<open>writePage\<close> (\<open>touched\<close>).
\<close>

section \<open>The states of a page\<close>

definition tasks_of :: "nat \<Rightarrow> pcache \<Rightarrow> io_task list" where
  "tasks_of p c = filter (\<lambda>t. t = DiskRead p \<or> t = DiskWrite p) (ioTasks c)"

definition ready_of :: "nat \<Rightarrow> pcache \<Rightarrow> nat" where
  "ready_of p c = length (filter (\<lambda>x. snd x = p) (readyTasks c))"

definition disk_page :: "nat \<Rightarrow> lfile \<Rightarrow> nat \<Rightarrow> byte list" where
  "disk_page ps f p = preadSync (p * ps) (replicate ps 0) f"

definition loading :: "nat \<Rightarrow> nat \<Rightarrow> pinfo \<Rightarrow> io_task list \<Rightarrow> bool \<Rightarrow> bool" where
  "loading ps p i ts al \<longleftrightarrow> \<not> flLoaded i \<and> ts = [DiskRead p] \<and> waitQueue i \<noteq> [] \<and> \<not> flDirty i \<and> useCount i = 0
     \<and> pbuf i = replicate ps 0 \<and> (flRelease i \<longleftrightarrow> \<not> al)"

definition ready :: "pinfo \<Rightarrow> io_task list \<Rightarrow> bool \<Rightarrow> bool" where
  "ready i ts al \<longleftrightarrow> flLoaded i \<and> \<not> flRelease i \<and> ts = [] \<and> waitQueue i = [] \<and> al"

definition leaving :: "pinfo \<Rightarrow> io_task list \<Rightarrow> bool \<Rightarrow> bool" where
  "leaving i ts al \<longleftrightarrow> flLoaded i \<and> flRelease i \<and> ts = [] \<and> useCount i > 0 \<and> \<not> al"

definition writing :: "nat \<Rightarrow> pinfo \<Rightarrow> io_task list \<Rightarrow> bool \<Rightarrow> bool" where
  "writing p i ts al \<longleftrightarrow> \<not> flLoaded i \<and> \<not> flRelease i \<and> flDirty i \<and> ts = [DiskWrite p] \<and> useCount i = 0 \<and> \<not> al"

lemmas page_states = loading_def ready_def leaving_def writing_def

text \<open>
  The invariant of one page, from the parts of the state that concern it: \<open>h\<close> uses are held, \<open>r\<close>
  deliveries are queued, \<open>t\<close> says that it is touched, \<open>d\<close> is its content on disk, \<open>b\<close> that of the memory.
\<close>

definition page_ok :: "nat \<Rightarrow> nat \<Rightarrow> pinfo option \<Rightarrow> io_task list \<Rightarrow> bool \<Rightarrow> nat \<Rightarrow> nat \<Rightarrow> bool \<Rightarrow> byte list \<Rightarrow> byte list \<Rightarrow> bool" where
  "page_ok ps p info ts al h r t d b \<longleftrightarrow> (case info of
     None \<Rightarrow> ts = [] \<and> \<not> al \<and> h = 0 \<and> r = 0 \<and> \<not> t \<and> d = b
   | Some i \<Rightarrow> \<not> flInitialize i \<and> useCount i = int (h + r) \<and> (t \<longrightarrow> h > 0) \<and> length (pbuf i) = ps
       \<and> (loading ps p i ts al \<and> d = b
         \<or> (ready i ts al \<or> leaving i ts al) \<and> pbuf i = b \<and> (flDirty i \<or> t \<or> d = b)
         \<or> writing p i ts al \<and> pbuf i = b))"

abbreviation page_inv :: "pcache \<Rightarrow> (nat \<Rightarrow> nat) \<Rightarrow> nat set \<Rightarrow> (nat \<Rightarrow> byte list) \<Rightarrow> nat \<Rightarrow> bool" where
  "page_inv c held touched m p \<equiv> page_ok (pageSize c) p (presentPages c p) (tasks_of p c) (alive (host c) p)
     (held p) (ready_of p c) (p \<in> touched) (disk_page (pageSize c) (pfile c) p) (m p)"

text \<open>A page that has been entered for waiting callers and not been acquired.\<close>

definition page_fresh :: "pcache \<Rightarrow> (nat \<Rightarrow> nat) \<Rightarrow> nat set \<Rightarrow> (nat \<Rightarrow> byte list) \<Rightarrow> nat \<Rightarrow> bool" where
  "page_fresh c held touched m p \<longleftrightarrow> (\<exists>i. presentPages c p = Some i \<and> \<not> flInitialize i \<and> \<not> flLoaded i \<and> \<not> flRelease i
     \<and> \<not> flDirty i \<and> useCount i = 0 \<and> waitQueue i \<noteq> []) \<and> tasks_of p c = [] \<and> \<not> alive (host c) p \<and> held p = 0
     \<and> ready_of p c = 0 \<and> p \<notin> touched \<and> disk_page (pageSize c) (pfile c) p = m p"

definition host_ok :: "pcache \<Rightarrow> nat list \<Rightarrow> bool" where
  "host_ok c xs \<longleftrightarrow> ring (host c) xs \<and> activeFootprint (host c) = int (pageSize c * length xs)
     \<and> 0 < pageSize c \<and> int (pageSize c) < climit (host c) \<and> finite (dom (presentPages c))"

definition cache_ok :: "pcache \<Rightarrow> (nat \<Rightarrow> nat) \<Rightarrow> nat set \<Rightarrow> (nat \<Rightarrow> byte list) \<Rightarrow> bool" where
  "cache_ok c held touched m \<longleftrightarrow> (\<exists>xs. host_ok c xs) \<and> (\<forall>p. page_inv c held touched m p)"

definition cache_inv :: "pcache \<Rightarrow> (nat \<Rightarrow> nat) \<Rightarrow> nat set \<Rightarrow> (nat \<Rightarrow> byte list) \<Rightarrow> bool" where
  "cache_inv c held touched m \<longleftrightarrow> cache_ok c held touched m \<and> activeFootprint (host c) \<le> climit (host c)"

text \<open>The work of the I/O pool: every dirty page may be written and then be read again.\<close>

definition dirties :: "pcache \<Rightarrow> nat set" where
  "dirties c = {p. \<exists>i. presentPages c p = Some i \<and> flDirty i}"

definition reads :: "pcache \<Rightarrow> nat" where
  "reads c = length (filter (\<lambda>t. case t of DiskRead _ \<Rightarrow> True | DiskWrite _ \<Rightarrow> False) (ioTasks c))"

definition io_work :: "pcache \<Rightarrow> nat" where
  "io_work c = 2 * card (dirties c) + reads c"

definition no_more_work :: "pcache \<Rightarrow> pcache \<Rightarrow> bool" where
  "no_more_work c c' \<longleftrightarrow> dirties c' \<subseteq> dirties c \<and> reads c' \<le> reads c \<and> dom (presentPages c') \<subseteq> dom (presentPages c)"

lemma no_more_work_trans: "no_more_work a b \<Longrightarrow> no_more_work b c \<Longrightarrow> no_more_work a c"
  by (simp add: no_more_work_def) (meson order_trans)

lemma no_more_work_refl [simp]: "no_more_work c c"
  by (simp add: no_more_work_def)

lemmas work_defs = no_more_work_def dirties_def reads_def

section \<open>The disk\<close>

lemma length_disk_page [simp]: "length (disk_page ps f p) = ps"
  by (simp add: disk_page_def preadSync_def)

lemma disk_page_write:
  assumes "length b = ps"
  shows "disk_page ps (pwriteSync (p * ps) b f) q = (if q = p then b else disk_page ps f q)"
proof (rule nth_equalityI)
  fix k assume "k < length (disk_page ps (pwriteSync (p * ps) b f) q)"
  then have k: "k < ps" by simp
  have out: "q * ps + k < p * ps \<or> p * ps + ps \<le> q * ps + k" if "q \<noteq> p"
  proof (cases "q < p")
    case True
    then have "(q + 1) * ps \<le> p * ps" by (intro mult_right_mono) auto
    then show ?thesis using k by (simp add: algebra_simps)
  next
    case False
    then have "(p + 1) * ps \<le> q * ps" using that by (intro mult_right_mono) auto
    then show ?thesis by (simp add: algebra_simps)
  qed
  have in_range: "q * ps + k < length (write_at (p * ps) b (fdata f))
    \<longleftrightarrow> q * ps + k < length (fdata f) \<or> q * ps + k < p * ps + ps"
    using assms by (simp add: length_write_at) linarith
  show "disk_page ps (pwriteSync (p * ps) b f) q ! k = (if q = p then b else disk_page ps f q) ! k"
    using k out assms nth_write_at[of "q * ps + k" "fdata f" "p * ps" b] in_range
    by (auto simp: disk_page_def preadSync_def pwriteSync_def nth_read_at length_write_at)
qed (use assms in simp)

section \<open>Tasks\<close>

lemma tasks_of_snoc: "tasks_of q (c\<lparr>ioTasks := ts @ [t]\<rparr>) = tasks_of q (c\<lparr>ioTasks := ts\<rparr>)
    @ (if t = DiskRead q \<or> t = DiskWrite q then [t] else [])"
  by (simp add: tasks_of_def)

lemma filter_remove_nth:
  assumes "k < length xs"
  shows "filter P xs = filter P (take k xs) @ (if P (xs ! k) then [xs ! k] else []) @ filter P (drop (Suc k) xs)"
  by (subst id_take_nth_drop[OF assms]) simp

section \<open>Eviction\<close>

lemma page_release_ok:
  assumes others: "\<And>q. q \<noteq> x \<Longrightarrow> page_inv c held touched m q"
    and x: "page_ok (pageSize c) x (presentPages c x) (tasks_of x c) True (held x) (ready_of x c) (x \<in> touched)
      (disk_page (pageSize c) (pfile c) x) (m x)" "\<not> alive (host c) x"
  shows "\<exists>c'. page_release RA x c = Inr c' \<and> (\<forall>q. page_inv c' held touched m q) \<and> host c' = host c \<and> pageSize c' = pageSize c
    \<and> no_more_work c c'"
proof -
  obtain i where i: "presentPages c x = Some i" using x by (auto simp: page_ok_def split: option.splits)
  let ?i = "i\<lparr>flRelease := True\<rparr>" and ?j = "i\<lparr>flLoaded := False, flRelease := False\<rparr>"
  have st: "loading (pageSize c) x i (tasks_of x c) True \<or> ready i (tasks_of x c) True" and u: "useCount i = 0 \<or> useCount i > 0"
    using x i by (auto simp: page_ok_def page_states)
  consider (load) "loading (pageSize c) x i (tasks_of x c) True" | (used) "ready i (tasks_of x c) True" "useCount i > 0"
    | (dirty) "ready i (tasks_of x c) True" "useCount i = 0" "flDirty i" | (clean) "ready i (tasks_of x c) True" "useCount i = 0" "\<not> flDirty i"
    using st u by auto
  then show ?thesis
  proof cases
    case load
    have "page_inv (put_info x ?i c) held touched m q" for q
      using others[of q] x i load by (cases "q = x") (auto simp: page_ok_def page_states put_info_def tasks_of_def ready_of_def)
    moreover have "no_more_work c (put_info x ?i c)" using i by (auto simp: work_defs put_info_def)
    ultimately show ?thesis using i load by (simp add: page_release_def get_info_def page_states put_info_def)
  next
    case used
    have "page_inv (put_info x ?i c) held touched m q" for q
      using others[of q] x i used by (cases "q = x") (auto simp: page_ok_def page_states put_info_def tasks_of_def ready_of_def)
    moreover have "no_more_work c (put_info x ?i c)" using i by (auto simp: work_defs put_info_def)
    ultimately show ?thesis using i used by (simp add: page_release_def get_info_def page_states put_info_def)
  next
    case dirty
    let ?c = "(put_info x ?j c)\<lparr>ioTasks := ioTasks c @ [DiskWrite x]\<rparr>"
    have "page_inv ?c held touched m q" for q
      using others[of q] x i dirty by (cases "q = x") (auto simp: page_ok_def page_states put_info_def tasks_of_def ready_of_def)
    moreover have "no_more_work c ?c" using i by (auto simp: work_defs put_info_def)
    ultimately show ?thesis using i dirty
      by (simp add: page_release_def doRelease_def get_info_def page_states put_info_def Let_def)
  next
    case clean
    then have z: "held x = 0" "ready_of x c = 0" using x i by (auto simp: page_ok_def)
    let ?c = "c\<lparr>presentPages := (presentPages c)(x := None)\<rparr>"
    have "page_inv ?c held touched m q" for q
      using others[of q] x i clean z by (cases "q = x") (auto simp: page_ok_def page_states put_info_def tasks_of_def ready_of_def)
    moreover have "no_more_work c ?c" using i by (auto simp: work_defs put_info_def)
    ultimately show ?thesis using i clean
      by (simp add: page_release_def doRelease_def finishRelease_def get_info_def page_states put_info_def Let_def)
  qed
qed

lemma evict_ok:
  assumes "host_ok c xs" "\<And>q. page_inv c held touched m q" "length xs < n"
  shows "\<exists>c'. evict RA n c = Inr c' \<and> cache_inv c' held touched m \<and> no_more_work c c'"
  using assms
proof (induction n arbitrary: c xs)
  case (Suc n)
  show ?case
  proof (cases "activeFootprint (host c) > climit (host c)")
    case True
    then obtain x ys where xs: "xs = x # ys" using Suc.prems(1) by (cases xs) (auto simp: host_ok_def)
    obtain h where h: "host_released (int (pageSize c)) (leastRecently (host c)) (host c) = Inr (x, h)" "ring h ys"
      "activeFootprint h = activeFootprint (host c) - int (pageSize c)" "climit h = climit (host c)"
      using host_released_ring[of "host c" x ys "int (pageSize c)"] Suc.prems(1) xs unfolding host_ok_def by blast
    let ?c = "c\<lparr>host := h\<rparr>"
    have al: "alive (host c) q \<longleftrightarrow> q = x \<or> alive h q" "\<not> alive h x" for q
      using Suc.prems(1) h(2) xs by (auto simp: host_ok_def ring_def)
    have o: "page_inv ?c held touched m q" if "q \<noteq> x" for q
      using Suc.prems(2)[of q] al that by (simp add: tasks_of_def ready_of_def)
    have x: "page_ok (pageSize ?c) x (presentPages ?c x) (tasks_of x ?c) True (held x) (ready_of x ?c) (x \<in> touched)
      (disk_page (pageSize ?c) (pfile ?c) x) (m x)"
      using Suc.prems(2)[of x] al by (simp add: tasks_of_def ready_of_def)
    have "\<not> alive (host ?c) x" using al(2) by simp
    from page_release_ok[OF o x this, of RA] obtain c' where c': "page_release RA x ?c = Inr c'"
      "\<forall>q. page_inv c' held touched m q" "host c' = host ?c" "pageSize c' = pageSize ?c" "no_more_work ?c c'" by blast
    have w: "no_more_work c c'" using c'(5) by (simp add: work_defs)
    have "activeFootprint h = int (pageSize c * length ys)" using Suc.prems(1) h(3) xs by (simp add: host_ok_def algebra_simps)
    then have "host_ok c' ys" using Suc.prems(1) h(2,4) c'(3,4) w finite_subset[of "dom (presentPages c')" "dom (presentPages c)"]
      by (simp add: host_ok_def no_more_work_def)
    moreover have "length ys < n" using Suc.prems(3) xs by simp
    ultimately obtain c'' where "evict RA n c' = Inr c''" "cache_inv c'' held touched m" "no_more_work c' c''"
      using Suc.IH c'(2) by blast
    moreover have "evict RA (Suc n) c = evict RA n c'" using True h(1) c'(1) by (simp add: releaseItem_def)
    ultimately show ?thesis using no_more_work_trans[OF w] by simp
  next
    case False
    then show ?thesis using Suc.prems by (auto simp: cache_inv_def cache_ok_def)
  qed
qed simp

lemma requestAcquire_ok:
  assumes host: "host_ok c xs" and fresh: "page_fresh c held touched m p"
    and others: "\<And>q. q \<noteq> p \<Longrightarrow> page_inv c held touched m q"
  shows "\<exists>c'. request p c = Inr c' \<and> cache_inv c' held touched m \<and> dirties c' \<subseteq> dirties c \<and> reads c' \<le> Suc (reads c)"
proof -
  obtain i where i: "presentPages c p = Some i" "\<not> flInitialize i" "\<not> flLoaded i" "\<not> flRelease i" "\<not> flDirty i" "useCount i = 0"
    "waitQueue i \<noteq> []" using fresh by (auto simp: page_fresh_def)
  have p: "p \<notin> set xs" using fresh host by (auto simp: page_fresh_def host_ok_def ring_def)
  let ?c1 = "(put_info p (i\<lparr>pbuf := replicate (pageSize c) 0\<rparr>) c)\<lparr>ioTasks := ioTasks c @ [DiskRead p]\<rparr>"
  obtain h where h: "host_acquired (int (pageSize c)) p (host c) = Inr h" "ring h (xs @ [p])"
    "activeFootprint h = activeFootprint (host c) + int (pageSize c)" "climit h = climit (host c)"
    using host_acquired_ring[of "host c" xs p] p host by (auto simp: host_ok_def)
  let ?c2 = "?c1\<lparr>host := h\<rparr>"
  have al: "alive h q \<longleftrightarrow> q = p \<or> alive (host c) q" for q
    using h(2) host by (auto simp: host_ok_def ring_def)
  have "page_inv ?c2 held touched m q" for q
    using others[of q] fresh i al by (cases "q = p") (auto simp: page_ok_def page_states page_fresh_def put_info_def tasks_of_def ready_of_def)
  moreover have "host_ok ?c2 (xs @ [p])" using host h by (simp add: host_ok_def put_info_def algebra_simps)
  moreover have "length (xs @ [p]) < Suc (nat (activeFootprint h))"
  proof -
    have "length xs + 1 \<le> pageSize c * (length xs + 1)" using host by (cases "pageSize c") (auto simp: host_ok_def)
    moreover have "activeFootprint h = int (pageSize c * (length xs + 1))" using host h(3) by (simp add: host_ok_def algebra_simps)
    ultimately show ?thesis by (simp only: nat_int) simp
  qed
  ultimately obtain c' where c': "evict (requestAcquire (Suc 0)) (Suc (nat (activeFootprint h))) ?c2 = Inr c'" "cache_inv c' held touched m"
    "no_more_work ?c2 c'"
    using evict_ok[of ?c2 "xs @ [p]" held touched m "Suc (nat (activeFootprint h))" "requestAcquire (Suc 0)"] by blast
  have "requestAcquire (Suc (Suc 0)) p c = Inr c'"
    using c'(1) i h(1) host by (simp add: acquire_def get_info_def host_ok_def put_info_def del: evict.simps requestAcquire.simps(2))
      (simp add: requestAcquire.simps(2)[of "Suc 0"] acquire_def get_info_def host_ok_def put_info_def del: evict.simps requestAcquire.simps(2))
  moreover have "dirties ?c2 = dirties c" "reads ?c2 = Suc (reads c)" using i by (auto simp: dirties_def reads_def put_info_def)
  ultimately show ?thesis using c'(2,3) by (simp add: numeral_2_eq_2 no_more_work_def)
qed

section \<open>The operations\<close>

lemmas page_unfold = page_ok_def page_states put_info_def tasks_of_def ready_of_def

lemma cache_invD: "cache_inv c held touched m \<Longrightarrow> page_inv c held touched m p"
  by (simp add: cache_inv_def cache_ok_def)

text \<open>A step that leaves the host alone keeps the invariant when it keeps that of every page.\<close>

lemma cache_inv_step:
  assumes "cache_inv c held touched m" "host c' = host c" "pageSize c' = pageSize c" "\<And>q. page_inv c' held' touched' m' q"
    "finite (dom (presentPages c)) \<Longrightarrow> finite (dom (presentPages c'))"
  shows "cache_inv c' held' touched' m'"
  using assms by (auto simp: cache_inv_def cache_ok_def host_ok_def)

lemma request_fresh_ok:
  assumes "cache_inv c held touched m" "presentPages c p = None"
  shows "\<exists>c'. request p (put_info p (pinfo_new\<lparr>waitQueue := [w]\<rparr>) c) = Inr c' \<and> cache_inv c' held touched m"
proof -
  let ?c = "put_info p (pinfo_new\<lparr>waitQueue := [w]\<rparr>) c"
  obtain xs where xs: "host_ok c xs" using assms(1) by (auto simp: cache_inv_def cache_ok_def)
  have "page_fresh ?c held touched m p"
    using cache_invD[OF assms(1), of p] assms(2) by (simp add: page_fresh_def page_unfold pinfo_new_def)
  moreover have "page_inv ?c held touched m q" if "q \<noteq> p" for q
    using cache_invD[OF assms(1), of q] that by (simp add: put_info_def tasks_of_def ready_of_def)
  moreover have "host_ok ?c xs" using xs by (simp add: host_ok_def put_info_def)
  ultimately show ?thesis using requestAcquire_ok[of ?c xs held touched m p] by blast
qed

lemma readPage_ok:
  assumes "cache_inv c held touched m"
  shows "\<exists>out c'. readPage p w c = Inr (out, c') \<and>
    (case out of None \<Rightarrow> cache_inv c' held touched m
     | Some b \<Rightarrow> b = m p \<and> cache_inv c' (held(p := Suc (held p))) touched m)"
proof (cases "presentPages c p")
  case None
  then show ?thesis using request_fresh_ok[OF assms None, of w] by (auto simp: readPage_def)
next
  case (Some i)
  note pi = cache_invD[OF assms, of p]
  have init: "\<not> flInitialize i" using pi Some by (simp add: page_ok_def)
  show ?thesis
  proof (cases "flLoaded i \<and> \<not> flRelease i")
    case True
    let ?c = "put_info p (i\<lparr>useCount := useCount i + 1\<rparr>) c"
    have "cache_inv ?c (held(p := Suc (held p))) touched m"
    proof (rule cache_inv_step[OF assms])
      show "page_inv ?c (held(p := Suc (held p))) touched m q" for q
        using cache_invD[OF assms, of q] Some True by (cases "q = p") (auto simp: page_unfold)
    qed (simp_all add: put_info_def)
    moreover have "pbuf i = m p" using pi Some True by (auto simp: page_unfold)
    ultimately show ?thesis using Some True init by (simp add: readPage_def)
  next
    case False
    let ?c = "put_info p (i\<lparr>waitQueue := waitQueue i @ [w]\<rparr>) c"
    have "cache_inv ?c held touched m"
    proof (rule cache_inv_step[OF assms])
      show "page_inv ?c held touched m q" for q
        using cache_invD[OF assms, of q] Some False by (cases "q = p") (auto simp: page_unfold)
    qed (simp_all add: put_info_def)
    then show ?thesis using Some False init by (auto simp: readPage_def)
  qed
qed

lemma initializePage_ok:
  assumes "cache_inv c held touched m" "\<And>i. presentPages c p = Some i \<Longrightarrow> flLoaded i \<and> useCount i = 0"
  shows "\<exists>out c'. initializePage p w c = Inr (out, c') \<and>
    (case out of None \<Rightarrow> cache_inv c' held touched m
     | Some b \<Rightarrow> b = m p \<and> cache_inv c' (held(p := Suc (held p))) touched m)"
proof (cases "presentPages c p")
  case None
  then show ?thesis using request_fresh_ok[OF assms(1) None, of w] by (auto simp: initializePage_def)
next
  case (Some i)
  note pi = cache_invD[OF assms(1), of p]
  have i: "flLoaded i" "useCount i = 0" using assms(2) Some by auto
  then have r: "\<not> flRelease i" "waitQueue i = []" "pbuf i = m p" using pi Some by (auto simp: page_unfold)
  let ?c = "put_info p (i\<lparr>useCount := 1\<rparr>) c"
  have "cache_inv ?c (held(p := Suc (held p))) touched m"
  proof (rule cache_inv_step[OF assms(1)])
    show "page_inv ?c (held(p := Suc (held p))) touched m q" for q
      using cache_invD[OF assms(1), of q] Some i r by (cases "q = p") (auto simp: page_unfold)
  qed (simp_all add: put_info_def)
  then show ?thesis using Some i r by (simp add: initializePage_def)
qed

lemma held_present:
  assumes "cache_inv c held touched m" "held p > 0"
  shows "\<exists>i. presentPages c p = Some i \<and> flLoaded i \<and> useCount i > 0"
  using cache_invD[OF assms(1), of p] assms(2) by (auto simp: page_ok_def page_states split: option.splits)

lemma writePage_ok:
  assumes "cache_inv c held touched m" "held p > 0"
  shows "\<exists>c'. writePage p c = Inr c' \<and> cache_inv c' held (touched - {p}) m"
proof -
  obtain i where i: "presentPages c p = Some i" "flLoaded i" using held_present[OF assms] by blast
  let ?c = "put_info p (i\<lparr>flDirty := True\<rparr>) c"
  have "cache_inv ?c held (touched - {p}) m"
  proof (rule cache_inv_step[OF assms(1)])
    show "page_inv ?c held (touched - {p}) m q" for q
      using cache_invD[OF assms(1), of q] i by (cases "q = p") (auto simp: page_unfold)
  qed (simp_all add: put_info_def)
  then show ?thesis using i by (simp add: writePage_def)
qed

lemma poke_ok:
  assumes "cache_inv c held touched m" "held p > 0" "length b = pageSize c"
  shows "cache_inv (poke p b c) held (insert p touched) (m(p := b))"
proof (rule cache_inv_step[OF assms(1)])
  obtain i where i: "presentPages c p = Some i" "flLoaded i" using held_present[OF assms(1,2)] by blast
  show "page_inv (poke p b c) held (insert p touched) (m(p := b)) q" for q
    using cache_invD[OF assms(1), of q] i assms(2,3) by (cases "q = p") (auto simp: page_unfold poke_def)
qed (simp_all add: poke_def)

text \<open>The end of a release: the page is dropped, or read again for those who wait for it.\<close>

lemma finishRelease_ok:
  assumes host: "host_ok c xs" "activeFootprint (host c) \<le> climit (host c)" and i: "presentPages c p = Some i"
    and st: "\<not> flInitialize i" "\<not> flLoaded i" "\<not> flRelease i" "\<not> flDirty i" "useCount i = 0"
    and p: "tasks_of p c = []" "\<not> alive (host c) p" "held p = 0" "ready_of p c = 0" "p \<notin> touched"
      "disk_page (pageSize c) (pfile c) p = m p"
    and others: "\<And>q. q \<noteq> p \<Longrightarrow> page_inv c held touched m q"
  shows "\<exists>c'. finishRelease request p c = Inr c' \<and> cache_inv c' held touched m \<and> dirties c' \<subseteq> dirties c \<and> reads c' \<le> Suc (reads c)"
proof (cases "waitQueue i = []")
  case True
  let ?c = "c\<lparr>presentPages := (presentPages c)(p := None)\<rparr>"
  have "page_inv ?c held touched m q" for q
    using others[of q] p by (cases "q = p") (auto simp: page_ok_def tasks_of_def ready_of_def)
  then have "cache_inv ?c held touched m" using host by (auto simp: cache_inv_def cache_ok_def host_ok_def)
  moreover have "dirties ?c \<subseteq> dirties c" "reads ?c = reads c" by (auto simp: dirties_def reads_def)
  ultimately show ?thesis using True i by (simp add: finishRelease_def get_info_def)
next
  case False
  then have "page_fresh c held touched m p" using i st p by (simp add: page_fresh_def)
  from requestAcquire_ok[OF host(1) this others] show ?thesis
    using False i by (simp add: finishRelease_def get_info_def)
qed

lemma releasePage_ok:
  assumes inv: "cache_inv c held touched m" and h: "held p > 0" "p \<in> touched \<Longrightarrow> held p > 1"
  shows "\<exists>c'. releasePage p c = Inr c' \<and> cache_inv c' (held(p := held p - 1)) touched m"
proof -
  obtain i where i: "presentPages c p = Some i" "flLoaded i" "useCount i > 0" using held_present[OF inv h(1)] by blast
  obtain xs where xs: "host_ok c xs" using inv by (auto simp: cache_inv_def cache_ok_def)
  note pi = cache_invD[OF inv, of p]
  let ?i = "i\<lparr>useCount := useCount i - 1\<rparr>" and ?held = "held(p := held p - 1)"
  let ?c = "put_info p ?i c"
  have others: "page_inv ?c ?held touched m q" if "q \<noteq> p" for q
    using cache_invD[OF inv, of q] that by (simp add: put_info_def tasks_of_def ready_of_def)
  show ?thesis
  proof (cases "useCount ?i = 0 \<and> flRelease i")
    case False
    have "cache_inv ?c ?held touched m"
    proof (rule cache_inv_step[OF inv])
      show "page_inv ?c ?held touched m q" for q
        using others[of q] pi i h False by (cases "q = p") (auto simp: page_unfold)
    qed (simp_all add: put_info_def)
    then show ?thesis using i False by (auto simp: releasePage_def)
  next
    case True
    then have z: "held p = 1" "ready_of p c = 0" "p \<notin> touched" using pi i h by (auto simp: page_ok_def)
    have st: "tasks_of p c = []" "\<not> alive (host c) p" "pbuf i = m p" "length (m p) = pageSize c" "\<not> flInitialize i"
      "flDirty i \<or> disk_page (pageSize c) (pfile c) p = m p"
      using pi i True z by (auto simp: page_ok_def page_states)
    let ?j = "?i\<lparr>flLoaded := False, flRelease := False\<rparr>"
    let ?d = "put_info p ?j ?c"
    have d_others: "page_inv ?d ?held touched m q" if "q \<noteq> p" for q
      using cache_invD[OF inv, of q] that by (simp add: put_info_def tasks_of_def ready_of_def)
    have rel: "releasePage p c = (if flDirty i then Inr (?d\<lparr>ioTasks := ioTasks c @ [DiskWrite p]\<rparr>) else finishRelease request p ?d)"
      using i True by (simp add: releasePage_def doRelease_def get_info_def put_info_def Let_def)
    show ?thesis
    proof (cases "flDirty i")
      case dirty: True
      have "cache_inv (?d\<lparr>ioTasks := ioTasks c @ [DiskWrite p]\<rparr>) ?held touched m"
      proof (rule cache_inv_step[OF inv])
        show "page_inv (?d\<lparr>ioTasks := ioTasks c @ [DiskWrite p]\<rparr>) ?held touched m q" for q
          using d_others[of q] st z i True dirty by (cases "q = p") (auto simp: page_unfold)
      qed (simp_all add: put_info_def)
      then show ?thesis using rel dirty by simp
    next
      case clean: False
      have "\<exists>c'. finishRelease request p ?d = Inr c' \<and> cache_inv c' ?held touched m \<and> dirties c' \<subseteq> dirties ?d \<and> reads c' \<le> Suc (reads ?d)"
      proof (rule finishRelease_ok[where i = ?j and xs = xs])
        show "host_ok ?d xs" "activeFootprint (host ?d) \<le> climit (host ?d)"
          using xs inv by (auto simp: host_ok_def put_info_def cache_inv_def)
        show "page_inv ?d ?held touched m q" if "q \<noteq> p" for q by (rule d_others[OF that])
      qed (use st z i True clean in \<open>simp_all add: put_info_def tasks_of_def ready_of_def\<close>)
      then show ?thesis using rel clean by auto
    qed
  qed
qed

lemma tasks_of_removed:
  assumes "k < length (ioTasks c)"
  shows "tasks_of q c = filter (\<lambda>t. t = DiskRead q \<or> t = DiskWrite q) (take k (ioTasks c))
    @ (if ioTasks c ! k = DiskRead q \<or> ioTasks c ! k = DiskWrite q then [ioTasks c ! k] else [])
    @ filter (\<lambda>t. t = DiskRead q \<or> t = DiskWrite q) (drop (Suc k) (ioTasks c))"
  using filter_remove_nth[OF assms] by (simp add: tasks_of_def)

lemma reads_removed:
  assumes "k < length (ioTasks c)"
  shows "reads c = reads (c\<lparr>ioTasks := take k (ioTasks c) @ drop (Suc k) (ioTasks c)\<rparr>)
    + (case ioTasks c ! k of DiskRead _ \<Rightarrow> 1 | DiskWrite _ \<Rightarrow> 0)"
  unfolding reads_def by (subst filter_remove_nth[OF assms]) (simp split: io_task.splits)

lemma io_step_ok:
  assumes inv: "cache_inv c held touched m" and k: "k < length (ioTasks c)"
  shows "\<exists>c'. io_step k c = Inr c' \<and> cache_inv c' held touched m \<and> io_work c' < io_work c"
proof -
  obtain xs where xs: "host_ok c xs" using inv by (auto simp: cache_inv_def cache_ok_def)
  let ?c = "c\<lparr>ioTasks := take k (ioTasks c) @ drop (Suc k) (ioTasks c)\<rparr>"
  have tasks: "tasks_of q ?c = (if ioTasks c ! k = DiskRead q \<or> ioTasks c ! k = DiskWrite q then [] else tasks_of q c)" for q
  proof (cases "ioTasks c ! k = DiskRead q \<or> ioTasks c ! k = DiskWrite q")
    case True
    then have "ioTasks c ! k \<in> set (tasks_of q c)" using k nth_mem[OF k] by (auto simp: tasks_of_def)
    then have "tasks_of q c = [ioTasks c ! k]"
      using cache_invD[OF inv, of q] by (auto simp: page_ok_def page_states split: option.splits)
    moreover have "A = [] \<and> B = []" if "[t] = A @ [t] @ B" for A B and t :: io_task
      using arg_cong[OF that, of length] by simp
    ultimately show ?thesis using tasks_of_removed[OF k, of q] True by (simp add: tasks_of_def)
  next
    case False
    then show ?thesis using tasks_of_removed[OF k, of q] by (auto simp: tasks_of_def)
  qed
  show ?thesis
  proof (cases "ioTasks c ! k")
    case (DiskRead p)
    then have "DiskRead p \<in> set (tasks_of p c)" using nth_mem[OF k] by (simp add: tasks_of_def)
    then obtain i where i: "presentPages c p = Some i" "loading (pageSize c) p i (tasks_of p c) (alive (host c) p)"
      "disk_page (pageSize c) (pfile c) p = m p" "\<not> flInitialize i" "held p = 0" "ready_of p c = 0" "p \<notin> touched"
      using cache_invD[OF inv, of p] by (auto simp: page_ok_def page_states split: option.splits)
    let ?d = "wake p (waitQueue i) (put_info p (i\<lparr>pbuf := m p, flLoaded := True, useCount := int (length (waitQueue i)), waitQueue := []\<rparr>) ?c)"
    have b: "preadSync (p * pageSize c) (pbuf i) (pfile c) = m p" using i by (simp add: disk_page_def loading_def)
    have len: "length (m p) = pageSize c" using i(3) length_disk_page by metis
    have "cache_inv ?d held touched m"
    proof (rule cache_inv_step[OF inv])
      show "page_inv ?d held touched m q" for q
        using cache_invD[OF inv, of q] i tasks[of q] len DiskRead
        by (cases "q = p") (auto simp: page_ok_def page_states put_info_def wake_def tasks_of_def ready_of_def filter_map comp_def)
    qed (simp_all add: put_info_def wake_def)
    moreover have "dirties ?d = dirties c" "reads c = Suc (reads ?d)"
      using i(1) reads_removed[OF k] DiskRead by (auto simp: dirties_def reads_def put_info_def wake_def)
    ultimately show ?thesis using DiskRead i b by (simp add: io_step_def diskRead_def get_info_def loading_def Let_def io_work_def)
  next
    case (DiskWrite p)
    then have "DiskWrite p \<in> set (tasks_of p c)" using nth_mem[OF k] by (simp add: tasks_of_def)
    then obtain i where i: "presentPages c p = Some i" "writing p i (tasks_of p c) (alive (host c) p)" "pbuf i = m p"
      "\<not> flInitialize i" "held p = 0" "ready_of p c = 0" "p \<notin> touched" "length (m p) = pageSize c"
      using cache_invD[OF inv, of p] by (auto simp: page_ok_def page_states split: option.splits)
    let ?f = "pwriteSync (p * pageSize c) (m p) (pfile c)"
    let ?d = "put_info p (i\<lparr>flDirty := False\<rparr>) (?c\<lparr>pfile := ?f\<rparr>)"
    have "\<exists>c'. finishRelease request p ?d = Inr c' \<and> cache_inv c' held touched m \<and> dirties c' \<subseteq> dirties ?d \<and> reads c' \<le> Suc (reads ?d)"
    proof (rule finishRelease_ok[where i = "i\<lparr>flDirty := False\<rparr>" and xs = xs])
      show "host_ok ?d xs" "activeFootprint (host ?d) \<le> climit (host ?d)"
        using xs inv by (auto simp: host_ok_def put_info_def cache_inv_def)
      show "page_inv ?d held touched m q" if "q \<noteq> p" for q
        using cache_invD[OF inv, of q] that tasks[of q] DiskWrite disk_page_write[OF i(8), of p "pfile c" q]
        by (simp add: put_info_def tasks_of_def ready_of_def)
      show "tasks_of p ?d = []" using tasks[of p] DiskWrite by (simp add: put_info_def tasks_of_def)
      show "disk_page (pageSize ?d) (pfile ?d) p = m p" using disk_page_write[OF i(8), of p "pfile c" p] by (simp add: put_info_def)
    qed (use i in \<open>simp_all add: put_info_def ready_of_def writing_def\<close>)
    then obtain c' where c': "finishRelease request p ?d = Inr c'" "cache_inv c' held touched m" "dirties c' \<subseteq> dirties ?d"
      "reads c' \<le> Suc (reads ?d)" by blast
    have dr: "reads ?d = reads c" using reads_removed[OF k] DiskWrite by (simp add: reads_def put_info_def)
    have "finite (dirties c)" using xs finite_subset[of "dirties c" "dom (presentPages c)"] by (auto simp: host_ok_def dirties_def)
    moreover have "dirties ?d = dirties c - {p}" "p \<in> dirties c" using i(1,2) by (auto simp: dirties_def put_info_def writing_def)
    ultimately have "card (dirties c') < card (dirties c)" using c'(3) by (intro psubset_card_mono) auto
    then have "io_work c' < io_work c" using c'(4) dr by (simp add: io_work_def)
    then show ?thesis using DiskWrite i c'(1,2) by (simp add: io_step_def diskWrite_def get_info_def Let_def)
  qed
qed

lemma complete_ok:
  assumes inv: "cache_inv c held touched m" and k: "k < length (readyTasks c)" and p: "p = snd (readyTasks c ! k)"
  shows "\<exists>c'. complete k c = Inr (m p, c') \<and> cache_inv c' (held(p := Suc (held p))) touched m"
proof -
  let ?c = "c\<lparr>readyTasks := take k (readyTasks c) @ drop (Suc k) (readyTasks c)\<rparr>"
  have r: "ready_of q c = ready_of q ?c + (if q = p then 1 else 0)" for q
    using filter_remove_nth[OF k, of "\<lambda>x. snd x = q"] p by (auto simp: ready_of_def)
  then have "ready_of p c > 0" by simp
  then obtain i where i: "presentPages c p = Some i" "pbuf i = m p" "flLoaded i"
    using cache_invD[OF inv, of p] by (auto simp: page_ok_def page_states split: option.splits)
  have "cache_inv ?c (held(p := Suc (held p))) touched m"
  proof (rule cache_inv_step[OF inv])
    show "page_inv ?c (held(p := Suc (held p))) touched m q" for q
    proof (cases "q = p")
      case True
      then show ?thesis using cache_invD[OF inv, of p] i r[of p] by (auto simp: page_ok_def page_states tasks_of_def)
    next
      case False
      then show ?thesis using cache_invD[OF inv, of q] r[of q] by (simp add: tasks_of_def)
    qed
  qed simp_all
  then show ?thesis using i p by (simp add: complete_def split_def)
qed

end
