(* ===== verification/Page_Cache_Spec.thy ===== *)
theory Page_Cache_Spec
  imports Page_Cache_Inv
begin

text \<open>
  The runs of a page cache: calls of its users, tasks of the I/O pool and deliveries to waiting callers
  in any order, and what holds in all of them. The users release what they hold, and report a page
  they have changed with \<open>writePage\<close> before their last release of it.
\<close>

section \<open>Runs\<close>

inductive crun :: "int \<Rightarrow> nat \<Rightarrow> pcache \<Rightarrow> (nat \<Rightarrow> nat) \<Rightarrow> nat set \<Rightarrow> (nat \<Rightarrow> byte list) \<Rightarrow> bool" for l ps where
  Open: "\<lbrakk>0 < ps; int ps < l\<rbrakk> \<Longrightarrow> crun l ps (pcache_open l ps) (\<lambda>p. 0) {} (\<lambda>p. replicate ps 0)"
| Read: "\<lbrakk>crun l ps c held touched m; readPage p w c = Inr (out, c')\<rbrakk>
    \<Longrightarrow> crun l ps c' (if out = None then held else held(p := Suc (held p))) touched m"
| Initialize: "\<lbrakk>crun l ps c held touched m; \<And>i. presentPages c p = Some i \<Longrightarrow> flLoaded i \<and> useCount i = 0;
     initializePage p w c = Inr (out, c')\<rbrakk>
    \<Longrightarrow> crun l ps c' (if out = None then held else held(p := Suc (held p))) touched m"
| Change: "\<lbrakk>crun l ps c held touched m; held p > 0; length b = pageSize c\<rbrakk> \<Longrightarrow> crun l ps (poke p b c) held (insert p touched) (m(p := b))"
| Write: "\<lbrakk>crun l ps c held touched m; held p > 0; writePage p c = Inr c'\<rbrakk> \<Longrightarrow> crun l ps c' held (touched - {p}) m"
| Release: "\<lbrakk>crun l ps c held touched m; held p > 0; p \<in> touched \<longrightarrow> held p > 1; releasePage p c = Inr c'\<rbrakk>
    \<Longrightarrow> crun l ps c' (held(p := held p - 1)) touched m"
| Io: "\<lbrakk>crun l ps c held touched m; k < length (ioTasks c); io_step k c = Inr c'\<rbrakk> \<Longrightarrow> crun l ps c' held touched m"
| Deliver: "\<lbrakk>crun l ps c held touched m; k < length (readyTasks c); complete k c = Inr (b, c')\<rbrakk>
    \<Longrightarrow> crun l ps c' (held(snd (readyTasks c ! k) := Suc (held (snd (readyTasks c ! k))))) touched m"

lemma open_inv: "\<lbrakk>0 < ps; int ps < l\<rbrakk> \<Longrightarrow> cache_inv (pcache_open l ps) (\<lambda>p. 0) {} (\<lambda>p. replicate ps 0)"
  using ring_new[of l]
  by (auto simp: cache_inv_def cache_ok_def host_ok_def pcache_open_def host_new_def page_ok_def tasks_of_def ready_of_def
      disk_page_def preadSync_def read_at_def intro!: exI[of _ "[]"])

section \<open>Every run keeps the invariant\<close>

theorem crun_inv: "crun l ps c held touched m \<Longrightarrow> cache_inv c held touched m"
proof (induction rule: crun.induct)
  case Open
  then show ?case by (rule open_inv)
next
  case (Read c held touched m p w out c')
  then show ?case using readPage_ok[of c held touched m p w] by (auto split: option.splits)
next
  case (Initialize c held touched m p w out c')
  then show ?case using initializePage_ok[of c held touched m p w] by (auto split: option.splits)
next
  case (Change c held touched m p b)
  then show ?case by (intro poke_ok)
next
  case (Write c held touched m p c')
  then show ?case using writePage_ok[of c held touched m p] by auto
next
  case (Release c held touched m p c')
  then show ?case using releasePage_ok[of c held touched m p] by (auto simp del: fun_upd_apply)
next
  case (Io c held touched m k c')
  then show ?case using io_step_ok[of c held touched m k] by auto
next
  case (Deliver c held touched m k b c')
  then show ?case using complete_ok[of c held touched m k "snd (readyTasks c ! k)"] by (auto simp del: fun_upd_apply)
qed

section \<open>Properties\<close>

text \<open>
  C23. The cache is transparent. In every state that calls, I/O tasks and deliveries can reach in any
  order, a user who asks for a page is given at once, or is later delivered, the content that was last
  put there by a user: evicting a page, writing it back and reading it again is not visible.
\<close>

theorem page_cache_transparent:
  assumes "crun l ps c held touched m"
  shows "(\<exists>out c'. readPage p w c = Inr (out, c') \<and> (out = None \<or> out = Some (m p))) \<and>
    (k < length (readyTasks c) \<longrightarrow> (\<exists>c'. complete k c = Inr (m (snd (readyTasks c ! k)), c')))"
  using readPage_ok[OF crun_inv[OF assms], of p w] complete_ok[OF crun_inv[OF assms] _ refl, of k]
  by (fastforce split: option.splits)

text \<open>
  C24. No operation fails, and none of the assertions of the code is violated, when users release only
  what they hold: reading, initialising a page that is not in use, reporting a change, releasing, and
  every task of the I/O pool. In particular the mutual recursion of \<open>finishRelease\<close> and \<open>requestAcquire\<close> and
  the eviction loop stay within their fuel.
\<close>

theorem page_cache_never_fails:
  assumes "crun l ps c held touched m"
  shows "((\<forall>i. presentPages c p = Some i \<longrightarrow> flLoaded i \<and> useCount i = 0) \<longrightarrow> (\<exists>x. initializePage p w c = Inr x)) \<and>
    (held p > 0 \<longrightarrow> (\<exists>c'. writePage p c = Inr c')) \<and>
    (held p > 0 \<and> (p \<in> touched \<longrightarrow> held p > 1) \<longrightarrow> (\<exists>c'. releasePage p c = Inr c')) \<and>
    (k < length (ioTasks c) \<longrightarrow> (\<exists>c'. io_step k c = Inr c'))"
proof (intro conjI)
  note inv = crun_inv[OF assms]
  show "(\<forall>i. presentPages c p = Some i \<longrightarrow> flLoaded i \<and> useCount i = 0) \<longrightarrow> (\<exists>x. initializePage p w c = Inr x)"
    using initializePage_ok[OF inv, of p w] by blast
  show "held p > 0 \<longrightarrow> (\<exists>c'. writePage p c = Inr c')" using writePage_ok[OF inv] by blast
  show "held p > 0 \<and> (p \<in> touched \<longrightarrow> held p > 1) \<longrightarrow> (\<exists>c'. releasePage p c = Inr c')"
    using releasePage_ok[OF inv] by blast
  show "k < length (ioTasks c) \<longrightarrow> (\<exists>c'. io_step k c = Inr c')" using io_step_ok[OF inv] by blast
qed

text \<open>
  The footprint that the host accounts for is that of the pages in its ring, and never exceeds the
  limit; every page in the ring is in the page table.
\<close>

theorem page_cache_bounded:
  assumes "crun l ps c held touched m"
  shows "activeFootprint (host c) = int (pageSize c * card {p. alive (host c) p}) \<and> activeFootprint (host c) \<le> climit (host c)
    \<and> (alive (host c) p \<longrightarrow> presentPages c p \<noteq> None)"
proof -
  have inv: "cache_inv c held touched m" by (rule crun_inv[OF assms])
  then obtain xs where xs: "host_ok c xs" by (auto simp: cache_inv_def cache_ok_def)
  then have "{p. alive (host c) p} = set xs" "distinct xs" by (auto simp: host_ok_def ring_def)
  then have "activeFootprint (host c) = int (pageSize c * card {p. alive (host c) p})"
    using xs by (simp add: host_ok_def distinct_card)
  moreover have "activeFootprint (host c) \<le> climit (host c)" using inv by (simp add: cache_inv_def)
  moreover have "alive (host c) p \<longrightarrow> presentPages c p \<noteq> None"
    using cache_invD[OF inv, of p] by (auto simp: page_ok_def split: option.splits)
  ultimately show ?thesis by blast
qed

text \<open>
  C25. The I/O terminates: every task of the pool makes the work of the pool smaller, which counts two
  tasks for every dirty page and one for every read that is queued, although a task may release pages
  and queue further tasks.
\<close>

theorem page_cache_io_terminates:
  assumes "crun l ps c held touched m" "k < length (ioTasks c)"
  shows "\<exists>c'. io_step k c = Inr c' \<and> 2 * card (dirties c') + reads c' < 2 * card (dirties c) + reads c"
  using io_step_ok[OF crun_inv[OF assms(1)] assms(2)] by (auto simp: io_work_def)

text \<open>
  C26. Nobody is forgotten: when the I/O pool is idle a page that callers wait for is in use by others;
  and when nothing is in use and nothing is to be delivered, nobody waits, and every page has its
  content in memory or, if it is not present, in the file.
\<close>

theorem page_cache_at_rest:
  assumes "crun l ps c held touched m" "ioTasks c = []"
  shows "(presentPages c p = Some i \<and> waitQueue i \<noteq> [] \<longrightarrow> useCount i > 0) \<and>
    (readyTasks c = [] \<and> held p = 0 \<longrightarrow> (case presentPages c p of
        None \<Rightarrow> preadSync (p * pageSize c) (replicate (pageSize c) 0) (pfile c) = m p
      | Some j \<Rightarrow> waitQueue j = [] \<and> pbuf j = m p))"
  using cache_invD[OF crun_inv[OF assms(1)], of p] assms(2)
  by (auto simp: page_ok_def page_states tasks_of_def ready_of_def disk_page_def split: option.splits)

section \<open>A run\<close>

text \<open>
  A cache with room for one page of two bytes. Caller 7 reads page 1, changes it and releases it; caller
  8 reads page 2, by which page 1 is evicted; while it is written back caller 9 asks for it again.
\<close>

definition state_of :: "('a \<times> pcache) res \<Rightarrow> pcache" where
  "state_of r = (case r of Inr (x, c) \<Rightarrow> c | Inl _ \<Rightarrow> pcache_open 0 0)"

definition next_of :: "pcache res \<Rightarrow> pcache" where
  "next_of r = (case r of Inr c \<Rightarrow> c | Inl _ \<Rightarrow> pcache_open 0 0)"

definition run1 :: pcache where "run1 = state_of (readPage 1 7 (pcache_open 3 2))"
definition run2 :: pcache where "run2 = next_of (io_step 0 run1)"
definition run3 :: pcache where "run3 = state_of (complete 0 run2)"
definition run4 :: pcache where "run4 = next_of (writePage 1 (poke 1 [8, 9] run3))"
definition run5 :: pcache where "run5 = next_of (releasePage 1 run4)"
definition run6 :: pcache where "run6 = state_of (readPage 2 8 run5)"
definition run7 :: pcache where "run7 = state_of (readPage 1 9 run6)"
definition run8 :: pcache where "run8 = next_of (io_step 1 run7)"
definition run9 :: pcache where "run9 = next_of (io_step 0 run8)"
definition run10 :: pcache where "run10 = next_of (io_step 0 run9)"

lemmas run_defs = run1_def run2_def run3_def run4_def run5_def run6_def run7_def run8_def run9_def run10_def state_of_def next_of_def

lemmas run_eval = readPage_def pcache_open_def requestAcquire.simps(2) acquire_def get_info_def put_info_def pinfo_new_def
  host_acquired_def host_link_def host_unlink_def host_released_def mostRecently_def leastRecently_def host_new_def
  io_step_def diskRead_def diskWrite_def wake_def complete_def writePage_def poke_def releasePage_def
  doRelease_def releaseItem_def page_release_def finishRelease_def preadSync_def read_at_def pwriteSync_def write_at_def
  Let_def eval_nat_numeral

lemma run_calls:
  "readPage 1 7 (pcache_open 3 2) = Inr (None, run1)" "io_step 0 run1 = Inr run2" "complete 0 run2 = Inr ([0, 0], run3)"
  "writePage 1 (poke 1 [8, 9] run3) = Inr run4" "releasePage 1 run4 = Inr run5" "readPage 2 8 run5 = Inr (None, run6)"
  "readPage 1 9 run6 = Inr (None, run7)" "io_step 1 run7 = Inr run8" "io_step 0 run8 = Inr run9" "io_step 0 run9 = Inr run10"
  by (simp_all add: run_defs run_eval)

lemma run_states: "length (ioTasks run1) = 1" "readyTasks run2 = [(7, 1)]" "pageSize run3 = 2" "length (ioTasks run7) = 2"
  "length (ioTasks run8) = 2" "length (ioTasks run9) = 1" "ioTasks run10 = []" "readyTasks run10 = [(8, 2), (9, 1)]"
  by (simp_all add: run_defs run_eval)

lemma run_crun:
  "crun 3 2 run3 ((\<lambda>p. 0)(1 := 1)) {} (\<lambda>p. [0, 0])"
  "crun 3 2 run7 (\<lambda>p. 0) {} ((\<lambda>p. [0, 0])(1 := [8, 9]))"
  "crun 3 2 run10 (\<lambda>p. 0) {} ((\<lambda>p. [0, 0])(1 := [8, 9]))"
proof -
  let ?z = "\<lambda>p :: nat. 0 :: nat" and ?m = "\<lambda>p :: nat. [0, 0 :: byte]"
  have "crun 3 2 (pcache_open 3 2) ?z {} ?m" using crun.Open[of 2 3] by (simp add: numeral_2_eq_2)
  from crun.Read[OF this run_calls(1)] have "crun 3 2 run1 ?z {} ?m" by simp
  from crun.Io[OF this _ run_calls(2)] have "crun 3 2 run2 ?z {} ?m" by (simp add: run_states)
  from crun.Deliver[OF this _ run_calls(3)] show 3: "crun 3 2 run3 (?z(1 := 1)) {} ?m" by (simp add: run_states)
  from crun.Change[OF this, of 1 "[8, 9]"] have "crun 3 2 (poke 1 [8, 9] run3) (?z(1 := 1)) {1} (?m(1 := [8, 9]))"
    by (simp add: run_states)
  from crun.Write[OF this _ run_calls(4)] have "crun 3 2 run4 (?z(1 := 1)) {} (?m(1 := [8, 9]))" by simp
  from crun.Release[OF this _ _ run_calls(5)] have "crun 3 2 run5 ?z {} (?m(1 := [8, 9]))" by (simp add: fun_upd_idem)
  from crun.Read[OF this run_calls(6)] have "crun 3 2 run6 ?z {} (?m(1 := [8, 9]))" by simp
  from crun.Read[OF this run_calls(7)] show 7: "crun 3 2 run7 ?z {} (?m(1 := [8, 9]))" by simp
  from crun.Io[OF this _ run_calls(8)] have "crun 3 2 run8 ?z {} (?m(1 := [8, 9]))" by (simp add: run_states)
  from crun.Io[OF this _ run_calls(9)] have "crun 3 2 run9 ?z {} (?m(1 := [8, 9]))" by (simp add: run_states)
  from crun.Io[OF this _ run_calls(10)] show "crun 3 2 run10 ?z {} (?m(1 := [8, 9]))" by (simp add: run_states)
qed

text \<open>Caller 9 gets what caller 7 wrote, although the page was evicted and read again.\<close>

theorem page_cache_transparent_witness: "\<exists>c'. complete 1 run10 = Inr ([8, 9], c')"
  using page_cache_transparent[OF run_crun(3), of 0 0 1] by (simp add: run_states)

theorem page_cache_never_fails_witness: "(\<exists>c'. releasePage 1 run3 = Inr c') \<and> (\<exists>c'. writePage 1 run3 = Inr c')"
  using page_cache_never_fails[OF run_crun(1), of 1] by simp

theorem page_cache_bounded_witness: "activeFootprint (host run10) = 2 * int (card {p. alive (host run10) p}) \<and> activeFootprint (host run10) \<le> 3"
proof -
  have "pageSize run10 = 2" "climit (host run10) = 3" by (simp_all add: run_defs run_eval)
  then show ?thesis using page_cache_bounded[OF run_crun(3), of 0] by auto
qed

theorem page_cache_io_terminates_witness:
  "\<exists>c'. io_step 1 run7 = Inr c' \<and> 2 * card (dirties c') + reads c' < 2 * card (dirties run7) + reads run7"
  by (rule page_cache_io_terminates[OF run_crun(2)]) (simp add: run_states)

theorem page_cache_at_rest_witness: "\<exists>i. presentPages run10 2 = Some i \<and> (waitQueue i \<noteq> [] \<longrightarrow> useCount i > 0)"
proof -
  obtain i where "presentPages run10 2 = Some i" by (simp add: run_defs run_eval)
  then show ?thesis using page_cache_at_rest[OF run_crun(3) run_states(7), of 2 i] by blast
qed

end
