(* ===== verification/Tasks.thy ===== *)
theory Tasks
  imports Prelude "HOL-Library.Sublist"
begin

text \<open>
  Worker threads (\<open>shard/src/ll/tasks.cpp\<close>) with the event counter and the epoll loop they sleep in
  (\<open>EventFd\<close> and \<open>LocalAsyncHost\<close> in \<open>shard/src/os/linux.cpp\<close>). A worker runs the callbacks of its queue
  one after the other and then waits for an event; other threads, and the callbacks themselves, add to
  the queue at any time. The steps are the sections under the mutex and the system calls: a thread
  that submits first appends to the queue and later increments the counter. What a callback does apart
  from submitting is not modelled. The generator that picks a worker of the pool is a parameter.
\<close>

section \<open>State\<close>

text \<open>Where the thread of the worker is; \<open>Running\<close> is inside of a callback.\<close>

datatype 'c point = InProcess | Running 'c | BeforeWait | InThreadMain | InEpollWait | Finished

record 'c worker =
  taskQueue :: "'c list"
  eventValue :: nat
  installed :: bool
  stopping :: bool
  point :: "'c point"

text \<open>The constructor starts the thread, which calls \<open>process\<close> before it enters the loop.\<close>

definition worker_new :: "'c worker" where
  "worker_new = \<lparr>taskQueue = [], eventValue = 0, installed = False, stopping = False, point = InProcess\<rparr>"

section \<open>Called from any thread\<close>

definition tq_submit :: "'c \<Rightarrow> 'c worker \<Rightarrow> 'c worker" where
  "tq_submit c w = w\<lparr>taskQueue := taskQueue w @ [c]\<rparr>"

definition ev_increment :: "'c worker \<Rightarrow> 'c worker" where
  "ev_increment w = w\<lparr>eventValue := eventValue w + 1\<rparr>"

text \<open>\<open>shutdown\<close> sets the flag and then wakes the worker with an increment.\<close>

definition worker_shutdown :: "'c worker \<Rightarrow> 'c worker" where
  "worker_shutdown w = w\<lparr>stopping := True\<rparr>"

definition pool_submit :: "(nat \<Rightarrow> nat) \<Rightarrow> 'c \<Rightarrow> 'c worker list \<Rightarrow> 'c worker list res" where
  "pool_submit distrib c ws =
     res_bind (check (length ws > 0) AssertFailed) (\<lambda>_.
     let i = distrib (length ws - 1) in
     if i < length ws then Inr (ws[i := ev_increment (tq_submit c (ws ! i))]) else Inl OutOfRange)"

section \<open>The thread of the worker\<close>

definition tq_process :: "'c worker \<Rightarrow> 'c worker" where
  "tq_process w = (case taskQueue w of
     [] \<Rightarrow> w\<lparr>point := BeforeWait\<rparr>
   | c # rest \<Rightarrow> w\<lparr>taskQueue := rest, point := Running c\<rparr>)"

text \<open>Adding a descriptor to epoll that it already has fails with \<open>EEXIST\<close>.\<close>

definition ev_wait :: "'c worker \<Rightarrow> 'c worker res" where
  "ev_wait w = (if installed w then Inl (RuntimeError ''epoll_ctl() failed'')
     else Inr (w\<lparr>installed := True, point := InThreadMain\<rparr>))"

definition thread_main :: "'c worker \<Rightarrow> 'c worker" where
  "thread_main w = w\<lparr>point := if stopping w then Finished else InEpollWait\<rparr>"

text \<open>\<open>epoll_wait\<close> sleeps while the counter is zero; the result is none then.\<close>

definition host_process :: "'c worker \<Rightarrow> bool" where
  "host_process w \<longleftrightarrow> installed w \<and> eventValue w > 0"

definition ev_callback :: "'c worker \<Rightarrow> 'c worker" where
  "ev_callback w = w\<lparr>installed := False, eventValue := 0, point := InProcess\<rparr>"

definition worker_step :: "'c worker \<Rightarrow> 'c worker res option" where
  "worker_step w = (case point w of
     InProcess \<Rightarrow> Some (Inr (tq_process w))
   | Running c \<Rightarrow> Some (Inr (w\<lparr>point := InProcess\<rparr>))
   | BeforeWait \<Rightarrow> Some (ev_wait w)
   | InThreadMain \<Rightarrow> Some (Inr (thread_main w))
   | InEpollWait \<Rightarrow> if host_process w then Some (Inr (ev_callback w)) else None
   | Finished \<Rightarrow> None)"

definition running :: "'c worker \<Rightarrow> 'c list" where
  "running w = (case point w of Running c \<Rightarrow> [c] | _ \<Rightarrow> [])"

section \<open>Runs\<close>

text \<open>
  \<open>task_run subs past k w\<close>: the callbacks \<open>subs\<close> have been submitted, \<open>past\<close> have been run, and \<open>k\<close> threads
  still have to increment the counter.
\<close>

inductive task_run :: "'c list \<Rightarrow> 'c list \<Rightarrow> nat \<Rightarrow> 'c worker \<Rightarrow> bool" where
  Start: "task_run [] [] 0 worker_new"
| Submit: "task_run subs past k w \<Longrightarrow> task_run (subs @ [c]) past (Suc k) (tq_submit c w)"
| Shutdown: "task_run subs past k w \<Longrightarrow> task_run subs past (Suc k) (worker_shutdown w)"
| Signal: "task_run subs past (Suc k) w \<Longrightarrow> task_run subs past k (ev_increment w)"
| Step: "task_run subs past k w \<Longrightarrow> worker_step w = Some (Inr w') \<Longrightarrow> task_run subs (past @ running w) k w'"





section \<open>The worker comes to rest\<close>









text \<open>A task can stay behind when the worker is told to stop.\<close>

lemma shutdown_drops_tasks:
  "\<exists>w. task_run [''a''] [] 2 w \<and> point w = Finished \<and> taskQueue w = [''a'']"
proof -
  let ?w = "\<lparr>taskQueue = [], eventValue = 0, installed = False, stopping = False, point = BeforeWait\<rparr> :: string worker"
  have "task_run [] [] 0 ?w"
    using task_run.Step[OF task_run.Start] by (fastforce simp: worker_step_def worker_new_def tq_process_def running_def)
  then have "task_run [] [] 0 (?w\<lparr>installed := True, point := InThreadMain\<rparr>)"
    using task_run.Step[of "[]" "[]" 0 ?w] by (simp add: worker_step_def ev_wait_def running_def)
  from task_run.Shutdown[OF task_run.Submit[OF this, of "''a''"]]
  have "task_run [''a''] [] 2 \<lparr>taskQueue = [''a''], eventValue = 0, installed = True, stopping = True, point = InThreadMain\<rparr>"
    by (simp add: tq_submit_def worker_shutdown_def numeral_2_eq_2)
  from task_run.Step[OF this, of "\<lparr>taskQueue = [''a''], eventValue = 0, installed = True, stopping = True, point = Finished\<rparr>"]
  show ?thesis by (fastforce simp: worker_step_def thread_main_def running_def)
qed

end
