(* ===== verification/Api_Connection.thy ===== *)
theory Api_Connection
  imports Bytes
begin

text \<open>
  A client connection (\<open>Api::Server::Connection\<close>, \<open>shard/src/api/server.cpp\<close>) below the messages: how
  packets are cut out of the incoming bytes, in whatever pieces TLS delivers them, and how outgoing
  bytes are sent through a socket that takes as many of them as it likes. TLS is transparent here; the
  callbacks of the connection carry the bytes. What the server does with a packet is the argument
  \<open>pm\<close>; memory that \<open>new\<close> has not initialised holds \<open>junk\<close>.
\<close>

section \<open>Packets\<close>

record packet_head =
  hdOpcode :: "32 word"
  hdLength :: "32 word"
  hdSeqNumber :: "32 word"

type_synonym packet = "packet_head \<times> byte list"

definition unpack_head :: "byte list \<Rightarrow> packet_head" where
  "unpack_head b = \<lparr>hdOpcode = unpackLe32 (bslice 0 4 b), hdLength = unpackLe32 (bslice 4 4 b), hdSeqNumber = unpackLe32 (bslice 8 4 b)\<rparr>"

text \<open>\<open>postResponse\<close>: the bytes of a packet; the struct is written field by field on a little-endian host.\<close>

definition packet_bytes :: "32 word \<Rightarrow> 32 word \<Rightarrow> byte list \<Rightarrow> byte list" where
  "packet_bytes opcode seq_number body =
     packLe32 opcode @ packLe32 (word_of_nat (length body)) @ packLe32 seq_number @ body"

section \<open>Receiving\<close>

record receiver =
  headBuffer :: "byte list"
  curPacket :: packet_head
  bodyBuffer :: "byte list"
  readOffset :: nat
  validHead :: bool

definition receiver_new :: "byte \<Rightarrow> receiver" where
  "receiver_new junk = \<lparr>headBuffer = replicate 12 junk, curPacket = \<lparr>hdOpcode = 0, hdLength = 0, hdSeqNumber = 0\<rparr>,
     bodyBuffer = [], readOffset = 0, validHead = False\<rparr>"

text \<open>
  The loop of \<open>onReadTls\<close> on the bytes that are left. The length of a body is cast to \<open>int\<close>: from \<open>2^31\<close>
  on the number of bytes to copy is negative, and \<open>memcpy\<close> gets it as a huge unsigned number; here this
  is \<open>OutOfRange\<close>. A turn that copied nothing would be repeated for ever, \<open>OutOfFuel\<close>.
\<close>

function onReadTls :: "byte \<Rightarrow> (packet \<Rightarrow> 's \<Rightarrow> 's res) \<Rightarrow> byte list \<Rightarrow> receiver \<times> 's \<Rightarrow> (receiver \<times> 's) res" where
  "onReadTls junk pm bs (c, s) =
     (if bs = [] then Inr (c, s)
      else if \<not> validHead c then
        let n = min (12 - readOffset c) (length bs) in
        if n = 0 then Inl OutOfFuel
        else
          let c = c\<lparr>headBuffer := blit (readOffset c) (take n bs) (headBuffer c), readOffset := readOffset c + n\<rparr> in
          if readOffset c = 12 then
            let c = c\<lparr>curPacket := unpack_head (headBuffer c), readOffset := 0\<rparr> in
            if hdLength (curPacket c) = 0 then
              res_bind (pm (curPacket c, []) s) (\<lambda>s. onReadTls junk pm (drop n bs) (c, s))
            else onReadTls junk pm (drop n bs)
              (c\<lparr>bodyBuffer := replicate (unat (hdLength (curPacket c))) junk, validHead := True\<rparr>, s)
          else onReadTls junk pm (drop n bs) (c, s)
      else
        let k = min (sint (hdLength (curPacket c)) - int (readOffset c)) (int (length bs)) in
        if k < 0 then Inl OutOfRange
        else if k = 0 then Inl OutOfFuel
        else
          let n = nat k;
              c = c\<lparr>bodyBuffer := blit (readOffset c) (take n bs) (bodyBuffer c), readOffset := readOffset c + n\<rparr> in
          if readOffset c = unat (hdLength (curPacket c)) then
            res_bind (pm (curPacket c, bodyBuffer c) s) (\<lambda>s.
            onReadTls junk pm (drop n bs) (c\<lparr>bodyBuffer := [], readOffset := 0, validHead := False\<rparr>, s))
          else onReadTls junk pm (drop n bs) (c, s))"
  by pat_completeness auto
termination
  by (relation "measure (\<lambda>(junk, pm, bs, x). length bs)") auto

declare onReadTls.simps [simp del]

text \<open>A sequence of deliveries.\<close>

fun receive_all :: "byte \<Rightarrow> (packet \<Rightarrow> 's \<Rightarrow> 's res) \<Rightarrow> byte list list \<Rightarrow> receiver \<times> 's \<Rightarrow> (receiver \<times> 's) res" where
  "receive_all junk pm [] x = Inr x"
| "receive_all junk pm (bs # bss) x = res_bind (onReadTls junk pm bs x) (receive_all junk pm bss)"

section \<open>The specification of receiving\<close>

fun handle_all :: "(packet \<Rightarrow> 's \<Rightarrow> 's res) \<Rightarrow> packet list \<Rightarrow> 's \<Rightarrow> 's res" where
  "handle_all pm [] s = Inr s"
| "handle_all pm (p # ps) s = res_bind (pm p s) (handle_all pm ps)"

text \<open>The packets at the start of a byte sequence, and the bytes that are left.\<close>

function split_packets :: "byte list \<Rightarrow> packet list \<times> byte list" where
  "split_packets bs =
     (let h = unpack_head (take 12 bs); n = unat (hdLength h) in
      if length bs < 12 + n \<or> length bs < 12 then ([], bs)
      else (let (ps, rest) = split_packets (drop (12 + n) bs) in ((h, take n (drop 12 bs)) # ps, rest)))"
  by pat_completeness auto
termination
  by (relation "measure length") auto

declare split_packets.simps [simp del]

text \<open>No head announces a body of \<open>2^31\<close> bytes or more.\<close>

function heads_small :: "byte list \<Rightarrow> bool" where
  "heads_small bs \<longleftrightarrow> length bs < 12 \<or>
     (let n = unat (hdLength (unpack_head (take 12 bs))) in n < 2 ^ 31 \<and> (12 + n \<le> length bs \<longrightarrow> heads_small (drop (12 + n) bs)))"
  by pat_completeness auto
termination
  by (relation "measure length") auto

declare heads_small.simps [simp del]

text \<open>The bytes a receiver has taken of a packet that is not complete.\<close>

definition pending_bytes :: "receiver \<Rightarrow> byte list \<Rightarrow> bool" where
  "pending_bytes c bs \<longleftrightarrow> length (headBuffer c) = 12 \<and>
     (if validHead c then take 12 bs = headBuffer c \<and> 12 \<le> length bs \<and> drop 12 bs = take (readOffset c) (bodyBuffer c)
        \<and> curPacket c = unpack_head (headBuffer c) \<and> length (bodyBuffer c) = unat (hdLength (curPacket c))
        \<and> readOffset c < unat (hdLength (curPacket c))
      else bs = take (readOffset c) (headBuffer c) \<and> readOffset c < 12)"

section \<open>Receiving meets its specification\<close>

lemma split_packets_packet:
  assumes "length hbs = 12" "length body = unat (hdLength (unpack_head hbs))"
  shows "split_packets (hbs @ body @ rest) = (case split_packets rest of (ps, r) \<Rightarrow> ((unpack_head hbs, body) # ps, r))"
    "heads_small (hbs @ body @ rest) \<longleftrightarrow> length body < 2 ^ 31 \<and> heads_small rest"
  using assms by (subst split_packets.simps heads_small.simps; simp add: Let_def)+

lemma split_packets_short:
  assumes "length bs < 12 \<or> length bs < 12 + unat (hdLength (unpack_head (take 12 bs)))"
  shows "split_packets bs = ([], bs)"
  using assms by (subst split_packets.simps) (auto simp: Let_def)

lemma heads_small_head:
  "heads_small bs \<Longrightarrow> 12 \<le> length bs \<Longrightarrow> unat (hdLength (unpack_head (take 12 bs))) < 2 ^ 31"
  by (subst (asm) heads_small.simps) (simp add: Let_def)

lemma take_blit [simp]:
  "off \<le> length buf \<Longrightarrow> n = off + length src \<Longrightarrow> take n (blit off src buf) = take off buf @ src"
  by (simp add: blit_def)

lemma sint_small: "unat (w :: 32 word) < 2 ^ 31 \<Longrightarrow> sint w = int (unat w)"
proof -
  assume "unat w < 2 ^ 31"
  then have "int (unat w) < int (2 ^ 31)" by (simp only: of_nat_less_iff)
  then have u: "uint w < 2 ^ 31" by simp
  have "sint w = signed_take_bit 31 (uint w)" by (simp add: sint_uint)
  also have "\<dots> = uint w" by (rule signed_take_bit_int_eq_self; use u uint_ge_0[of w] in linarith)
  finally show ?thesis by simp
qed

lemma pending_split: "pending_bytes c old \<Longrightarrow> split_packets old = ([], old)"
  by (rule split_packets_short) (auto simp: pending_bytes_def split: if_splits dest: arg_cong[where f = length])

lemma onReadTls_correct:
  "pending_bytes c old \<Longrightarrow> heads_small (old @ bs) \<Longrightarrow>
   \<exists>c'. pending_bytes c' (snd (split_packets (old @ bs)))
     \<and> (\<forall>s. onReadTls junk pm bs (c, s) = res_bind (handle_all pm (fst (split_packets (old @ bs))) s) (\<lambda>s. Inr (c', s)))"
proof (induction "length bs" arbitrary: bs c old rule: less_induct)
  case less
  show ?case
  proof (cases "bs = []")
    case True
    then show ?thesis using less.prems(1) pending_split[OF less.prems(1)]
      by (intro exI[of _ c]) (simp add: onReadTls.simps)
  next
    case ne: False
    show ?thesis
    proof (cases "validHead c")
      case False
      have old: "old = take (readOffset c) (headBuffer c)" "readOffset c < 12" "length (headBuffer c) = 12"
        using less.prems(1) False by (auto simp: pending_bytes_def)
      define n where "n = min (12 - readOffset c) (length bs)"
      have n: "0 < n" "n \<le> length bs" "readOffset c + n \<le> 12" using ne old(2) by (auto simp: n_def)
      let ?hb = "blit (readOffset c) (take n bs) (headBuffer c)"
      have hb: "length ?hb = 12" "take (readOffset c + n) ?hb = old @ take n bs" using n old by simp_all
      have split: "old @ bs = (old @ take n bs) @ drop n bs" by simp
      have dl: "length (drop n bs) < length bs" using n by simp
      show ?thesis
      proof (cases "readOffset c + n = 12")
        case part: False
        let ?c = "c\<lparr>headBuffer := ?hb, readOffset := readOffset c + n\<rparr>"
        have "pending_bytes ?c (old @ take n bs)" using hb n part False by (simp add: pending_bytes_def)
        from less.hyps[OF dl this] less.prems(2) obtain c' where "pending_bytes c' (snd (split_packets (old @ bs)))"
          "\<forall>s. onReadTls junk pm (drop n bs) (?c, s) = res_bind (handle_all pm (fst (split_packets (old @ bs))) s) (\<lambda>s. Inr (c', s))"
          by auto
        moreover have "onReadTls junk pm bs (c, s) = onReadTls junk pm (drop n bs) (?c, s)" for s
          using ne False n part by (subst onReadTls.simps) (simp add: n_def[symmetric] Let_def)
        ultimately show ?thesis by auto
      next
        case full: True
        have hd: "?hb = old @ take n bs" using hb full by simp
        let ?h = "unpack_head ?hb"
        show ?thesis
        proof (cases "hdLength ?h = 0")
          case True
          let ?c = "c\<lparr>headBuffer := ?hb, curPacket := ?h, readOffset := 0\<rparr>"
          have "pending_bytes ?c []" using hb False by (simp add: pending_bytes_def)
          moreover have sp: "split_packets (old @ bs) = (case split_packets (drop n bs) of (ps, r) \<Rightarrow> ((?h, []) # ps, r))"
            "heads_small (drop n bs)"
            using split_packets_packet[of ?hb "[]" "drop n bs"] hb(1) True less.prems(2)
            unfolding split unfolding hd[symmetric] by simp_all
          ultimately obtain c' where "pending_bytes c' (snd (split_packets (drop n bs)))"
            "\<forall>s. onReadTls junk pm (drop n bs) (?c, s) = res_bind (handle_all pm (fst (split_packets (drop n bs))) s) (\<lambda>s. Inr (c', s))"
            using less.hyps[OF dl, of ?c "[]"] by auto
          moreover have "onReadTls junk pm bs (c, s) = res_bind (pm (?h, []) s) (\<lambda>s. onReadTls junk pm (drop n bs) (?c, s))" for s
            using ne False n full True by (subst onReadTls.simps) (simp add: n_def[symmetric] Let_def)
          ultimately show ?thesis unfolding sp(1) by (auto simp: split_def res_bind_assoc)
        next
          case nz: False
          let ?c = "c\<lparr>headBuffer := ?hb, curPacket := ?h, readOffset := 0, bodyBuffer := replicate (unat (hdLength ?h)) junk, validHead := True\<rparr>"
          have "0 < unat (hdLength ?h)" using nz by (simp add: unat_gt_0)
          then have "pending_bytes ?c ?hb" using hb(1) by (simp add: pending_bytes_def)
          moreover have "?hb @ drop n bs = old @ bs" using hd by simp
          ultimately obtain c' where "pending_bytes c' (snd (split_packets (old @ bs)))"
            "\<forall>s. onReadTls junk pm (drop n bs) (?c, s) = res_bind (handle_all pm (fst (split_packets (old @ bs))) s) (\<lambda>s. Inr (c', s))"
            using less.hyps[OF dl, of ?c ?hb] less.prems(2) by auto
          moreover have "onReadTls junk pm bs (c, s) = onReadTls junk pm (drop n bs) (?c, s)" for s
            using ne False n full nz by (subst onReadTls.simps) (simp add: n_def[symmetric] Let_def)
          ultimately show ?thesis by auto
        qed
      qed
    next
      case True
      let ?N = "unat (hdLength (curPacket c))"
      have old: "take 12 old = headBuffer c" "12 \<le> length old" "drop 12 old = take (readOffset c) (bodyBuffer c)"
        "curPacket c = unpack_head (headBuffer c)" "length (bodyBuffer c) = ?N" "readOffset c < ?N" "length (headBuffer c) = 12"
        using less.prems(1) True by (auto simp: pending_bytes_def)
      have oe: "old = headBuffer c @ take (readOffset c) (bodyBuffer c)" using old(1,3) append_take_drop_id[of 12 old] by simp
      have small: "?N < 2 ^ 31" using heads_small_head[OF less.prems(2)] old(1,2,4) by simp
      define n where "n = min (?N - readOffset c) (length bs)"
      have n: "0 < n" "n \<le> length bs" "readOffset c + n \<le> ?N" using ne old(6) by (auto simp: n_def)
      have k: "min (sint (hdLength (curPacket c)) - int (readOffset c)) (int (length bs)) = int n"
        unfolding sint_small[OF small] n_def of_nat_min of_nat_diff[OF less_imp_le[OF old(6)]] by (rule refl)
      let ?bb = "blit (readOffset c) (take n bs) (bodyBuffer c)"
      have bb: "length ?bb = ?N" "take (readOffset c + n) ?bb = take (readOffset c) (bodyBuffer c) @ take n bs" using n old by simp_all
      have split: "old @ bs = headBuffer c @ (take (readOffset c) (bodyBuffer c) @ take n bs) @ drop n bs" using oe by simp
      have dl: "length (drop n bs) < length bs" using n by simp
      show ?thesis
      proof (cases "readOffset c + n = ?N")
        case full: True
        let ?c = "c\<lparr>bodyBuffer := [], readOffset := 0, validHead := False\<rparr>"
        have body: "?bb = take (readOffset c) (bodyBuffer c) @ take n bs" using bb full by simp
        have sp: "split_packets (old @ bs) = (case split_packets (drop n bs) of (ps, r) \<Rightarrow> ((curPacket c, ?bb) # ps, r))"
          "heads_small (drop n bs)"
          using split_packets_packet[of "headBuffer c" ?bb "drop n bs"] old(4,7) bb(1) less.prems(2)
          unfolding split body[symmetric] by simp_all
        have "pending_bytes ?c []" using old(7) by (simp add: pending_bytes_def)
        then obtain c' where "pending_bytes c' (snd (split_packets (drop n bs)))"
          "\<forall>s. onReadTls junk pm (drop n bs) (?c, s) = res_bind (handle_all pm (fst (split_packets (drop n bs))) s) (\<lambda>s. Inr (c', s))"
          using less.hyps[OF dl, of ?c "[]"] sp(2) by auto
        moreover have "onReadTls junk pm bs (c, s) = res_bind (pm (curPacket c, ?bb) s) (\<lambda>s. onReadTls junk pm (drop n bs) (?c, s))" for s
          using ne True n full by (subst onReadTls.simps) (simp add: k Let_def)
        ultimately show ?thesis unfolding sp(1) by (auto simp: split_def res_bind_assoc)
      next
        case part: False
        let ?c = "c\<lparr>bodyBuffer := ?bb, readOffset := readOffset c + n\<rparr>"
        have "pending_bytes ?c (old @ take n bs)"
          using old bb n part True by (simp add: pending_bytes_def oe)
        from less.hyps[OF dl this] less.prems(2) obtain c' where "pending_bytes c' (snd (split_packets (old @ bs)))"
          "\<forall>s. onReadTls junk pm (drop n bs) (?c, s) = res_bind (handle_all pm (fst (split_packets (old @ bs))) s) (\<lambda>s. Inr (c', s))"
          by auto
        moreover have "onReadTls junk pm bs (c, s) = onReadTls junk pm (drop n bs) (?c, s)" for s
          using ne True n part by (subst onReadTls.simps) (simp add: k Let_def)
        ultimately show ?thesis by auto
      qed
    qed
  qed
qed

lemma handle_all_append: "handle_all pm (ps @ qs) s = res_bind (handle_all pm ps s) (handle_all pm qs)"
proof (induction ps arbitrary: s)
  case (Cons p ps)
  have "handle_all pm (ps @ qs) = (\<lambda>s. res_bind (handle_all pm ps s) (handle_all pm qs))" by (rule ext) (rule Cons)
  then show ?case by (simp add: res_bind_assoc)
qed simp

lemma packet_decompose:
  assumes "\<not> (length xs < 12 \<or> length xs < 12 + unat (hdLength (unpack_head (take 12 xs))))"
  obtains h body rest where "xs = h @ body @ rest" "length h = 12" "length body = unat (hdLength (unpack_head h))"
    "rest = drop (12 + unat (hdLength (unpack_head (take 12 xs)))) xs"
proof (rule that)
  let ?n = "unat (hdLength (unpack_head (take 12 xs)))"
  show "xs = take 12 xs @ take ?n (drop 12 xs) @ drop (12 + ?n) xs" by (metis add.commute append_take_drop_id drop_drop)
qed (use assms in auto)

lemma split_packets_append:
  "split_packets (xs @ ys) = (let (ps, r) = split_packets xs; (qs, r') = split_packets (r @ ys) in (ps @ qs, r'))"
proof (induction xs rule: split_packets.induct)
  case (1 xs)
  let ?n = "unat (hdLength (unpack_head (take 12 xs)))"
  show ?case
  proof (cases "length xs < 12 \<or> length xs < 12 + ?n")
    case True
    then show ?thesis using split_packets_short[of xs] by (auto simp: split_def)
  next
    case False
    then obtain h body rest where e: "xs = h @ body @ rest" "length h = 12" "length body = unat (hdLength (unpack_head h))"
      "rest = drop (12 + ?n) xs" by (rule packet_decompose)
    have "split_packets (rest @ ys) = (let (ps, r) = split_packets rest; (qs, r') = split_packets (r @ ys) in (ps @ qs, r'))"
      using 1[OF refl refl] False e(4) by (simp add: Let_def)
    then show ?thesis unfolding e(1) append_assoc split_packets_packet(1)[OF e(2,3)] by (simp add: split_def Let_def)
  qed
qed

lemma heads_small_append:
  "heads_small (xs @ ys) \<longleftrightarrow> heads_small xs \<and> heads_small (snd (split_packets xs) @ ys)"
proof (induction xs rule: split_packets.induct)
  case (1 xs)
  let ?n = "unat (hdLength (unpack_head (take 12 xs)))"
  show ?case
  proof (cases "length xs < 12 \<or> length xs < 12 + ?n")
    case True
    then have "snd (split_packets xs) = xs" using split_packets_short[of xs] by simp
    moreover have "heads_small xs" if "heads_small (xs @ ys)"
      using heads_small_head[OF that] True by (subst heads_small.simps) (auto simp: Let_def)
    ultimately show ?thesis by auto
  next
    case False
    then obtain h body rest where e: "xs = h @ body @ rest" "length h = 12" "length body = unat (hdLength (unpack_head h))"
      "rest = drop (12 + ?n) xs" by (rule packet_decompose)
    have "heads_small (rest @ ys) \<longleftrightarrow> heads_small rest \<and> heads_small (snd (split_packets rest) @ ys)"
      using 1[OF refl refl] False e(4) by (simp add: Let_def)
    then show ?thesis
      unfolding e(1) append_assoc split_packets_packet[OF e(2,3)] by (simp add: split_def)
  qed
qed

lemma receive_all_correct:
  "pending_bytes c old \<Longrightarrow> heads_small (old @ concat bss) \<Longrightarrow>
   \<exists>c'. pending_bytes c' (snd (split_packets (old @ concat bss)))
     \<and> (\<forall>s. receive_all junk pm bss (c, s) = res_bind (handle_all pm (fst (split_packets (old @ concat bss))) s) (\<lambda>s. Inr (c', s)))"
proof (induction bss arbitrary: c old)
  case Nil
  then show ?case using pending_split[OF Nil(1)] by auto
next
  case (Cons bs bss)
  have hs: "heads_small (old @ bs @ concat bss)" using Cons.prems(2) by simp
  obtain c1 where c1: "pending_bytes c1 (snd (split_packets (old @ bs)))"
    "\<And>s. onReadTls junk pm bs (c, s) = res_bind (handle_all pm (fst (split_packets (old @ bs))) s) (\<lambda>s. Inr (c1, s))"
    using onReadTls_correct[OF Cons.prems(1), of bs junk pm] heads_small_append[of "old @ bs" "concat bss"] hs by auto
  note sp = split_packets_append[of "old @ bs" "concat bss"]
  obtain c2 where "pending_bytes c2 (snd (split_packets (snd (split_packets (old @ bs)) @ concat bss)))"
    "\<forall>s. receive_all junk pm bss (c1, s) = res_bind (handle_all pm (fst (split_packets (snd (split_packets (old @ bs)) @ concat bss))) s) (\<lambda>s. Inr (c2, s))"
    using Cons.IH[OF c1(1)] heads_small_append[of "old @ bs" "concat bss"] hs by auto
  then show ?case using c1(2) sp by (intro exI[of _ c2]) (simp add: split_def Let_def res_bind_assoc handle_all_append)
qed

section \<open>Properties of receiving\<close>

definition head_of :: "32 word \<times> 32 word \<times> byte list \<Rightarrow> packet_head" where
  "head_of p = (case p of (opcode, sq, body) \<Rightarrow> \<lparr>hdOpcode = opcode, hdLength = word_of_nat (length body), hdSeqNumber = sq\<rparr>)"

definition wire :: "(32 word \<times> 32 word \<times> byte list) list \<Rightarrow> byte list" where
  "wire ps = concat (map (\<lambda>(opcode, sq, body). packet_bytes opcode sq body) ps)"

lemma unpack_head_pack:
  "unpack_head (packLe32 a @ packLe32 b @ packLe32 c) = \<lparr>hdOpcode = a, hdLength = b, hdSeqNumber = c\<rparr>"
  by (simp add: unpack_head_def bslice_def)

lemma split_wire:
  "\<forall>p \<in> set ps. length (snd (snd p)) < 2 ^ 31 \<Longrightarrow>
   split_packets (wire ps) = (map (\<lambda>p. (head_of p, snd (snd p))) ps, []) \<and> heads_small (wire ps)"
proof (induction ps)
  case Nil
  then show ?case by (simp add: wire_def split_packets_short) (subst heads_small.simps, simp)
next
  case (Cons p ps)
  obtain a sq body where p: "p = (a, sq, body)" by (cases p)
  let ?h = "packLe32 a @ packLe32 (word_of_nat (length body)) @ packLe32 sq"
  have b: "length body < 2 ^ 31" using Cons.prems p by simp
  then have "length body = unat (hdLength (unpack_head ?h))" unfolding unpack_head_pack by (simp add: unat_of_nat)
  moreover have "length ?h = 12" by (simp add: packLe32_def)
  moreover have "wire (p # ps) = ?h @ body @ wire ps" by (simp add: wire_def p packet_bytes_def)
  ultimately show ?case
    using split_packets_packet[of ?h body "wire ps"] Cons b p by (simp add: unpack_head_pack head_of_def)
qed

lemma pending_new: "pending_bytes (receiver_new junk) []"
  by (simp add: pending_bytes_def receiver_new_def)

text \<open>
  Framing is lossless: packets written one after the other in the format of \<open>postResponse\<close>, cut into
  pieces in any way, are handed over one by one with their opcode, sequence number and body, in order,
  and nothing is left. This holds whatever the handling of a packet does; if it throws, the packets
  before it have been handled.
\<close>

theorem framing_roundtrip:
  assumes "\<forall>p \<in> set ps. length (snd (snd p)) < 2 ^ 31" "concat pieces = wire ps"
  shows "\<exists>c'. pending_bytes c' [] \<and> (\<forall>s. receive_all junk pm pieces (receiver_new junk, s)
    = res_bind (handle_all pm (map (\<lambda>p. (head_of p, snd (snd p))) ps) s) (\<lambda>s. Inr (c', s)))"
  using receive_all_correct[OF pending_new, of pieces junk pm junk] split_wire[OF assms(1)] assms(2) by auto

theorem framing_roundtrip_witness:
  "\<exists>c'. pending_bytes c' [] \<and> receive_all 0 (\<lambda>(h, b) s. Inr (s @ [(hdOpcode h, hdSeqNumber h, b)]))
    [[1, 0, 0], [0, 2, 0, 0, 0, 7, 0, 0, 0, 5], [6, 4, 0, 0, 0, 0, 0], [0, 0, 8, 0, 0, 0]] (receiver_new 0, [])
    = Inr (c', [(1, 7, [5, 6]), (4, 8, [])])"
proof -
  let ?ps = "[(1, 7, [5, 6]), (4, 8, [])] :: (32 word \<times> 32 word \<times> byte list) list"
  have w: "concat [[1, 0, 0], [0, 2, 0, 0, 0, 7, 0, 0, 0, 5], [6, 4, 0, 0, 0, 0, 0], [0, 0, 8, 0, 0, 0]] = wire ?ps"
    by (simp add: wire_def packet_bytes_def packLe32_def to_le_def upt_rec)
  have l: "\<forall>p \<in> set ?ps. length (snd (snd p)) < 2 ^ 31" by simp
  show ?thesis using framing_roundtrip[OF l w, of 0 "\<lambda>(h, b) s. Inr (s @ [(hdOpcode h, hdSeqNumber h, b)])"]
    by (auto simp: head_of_def)
qed

text \<open>
  A head that announces \<open>2^31\<close> bytes or more makes the next byte run into a copy of a negative length,
  before any message is looked at: a client can bring the server down with 13 bytes.
\<close>

theorem oversized_packet_breaks:
  assumes "2 ^ 31 \<le> unat len"
  shows "onReadTls junk pm (packLe32 a @ packLe32 len @ packLe32 sq @ [b]) (receiver_new junk, s) = Inl OutOfRange"
proof -
  let ?h = "packLe32 a @ packLe32 len @ packLe32 sq"
  let ?bs = "?h @ [b]"
  have l: "length ?h = 12" by (simp add: packLe32_def)
  have nz: "len \<noteq> 0" using assms by auto
  have neg: "sint len < 0"
  proof (rule ccontr)
    assume "\<not> sint len < 0"
    then have "uint len = sint len" using uint_sint[of len] sint_lt[of len] by (simp add: take_bit_int_eq_self)
    then have "uint len < 2 ^ 31" using sint_lt[of len] by simp
    then have "int (unat len) < int (2 ^ 31)" by simp
    then have "unat len < 2 ^ 31" by (simp only: of_nat_less_iff)
    then show False using assms by simp
  qed
  let ?c = "receiver_new junk"
  let ?c1 = "?c\<lparr>headBuffer := ?h, readOffset := 12, curPacket := unpack_head ?h, readOffset := 0,
    bodyBuffer := replicate (unat len) junk, validHead := True\<rparr>"
  have bl: "blit 0 ?h (headBuffer ?c) = ?h" using l by (simp add: blit_def receiver_new_def)
  have t: "take 12 ?bs = ?h" "drop 12 ?bs = [b]" "?bs \<noteq> []" "length ?bs = 13" using l by simp_all
  have r: "readOffset ?c = 0" "\<not> validHead ?c" by (simp_all add: receiver_new_def)
  have "onReadTls junk pm ?bs (?c, s) = onReadTls junk pm [b] (?c1, s)"
    by (subst onReadTls.simps) (simp add: t r bl unpack_head_pack nz)
  also have "\<dots> = Inl OutOfRange"
    by (subst onReadTls.simps) (use neg in \<open>simp add: unpack_head_pack\<close>)
  finally show ?thesis by simp
qed

theorem oversized_packet_breaks_witness:
  "onReadTls 0 (\<lambda>p s. Inr (Suc s)) (packLe32 1 @ packLe32 0x80000000 @ packLe32 0 @ [0]) (receiver_new 0, 0) = Inl OutOfRange"
  by (rule oversized_packet_breaks) simp

end
