(* ===== verification/Api_Sender.thy ===== *)
theory Api_Sender
  imports Api_Connection
begin

text \<open>
  The outgoing side of a connection (\<open>onWriteRaw\<close>, \<open>onWriteReady\<close> in \<open>shard/src/api/server.cpp\<close>) over a
  non-blocking socket (\<open>SockStream\<close>, \<open>shard/src/os/linux.cpp\<close>). How many bytes the kernel takes in each
  call of \<open>write\<close> is not known: the socket carries the list of its future answers, where zero, or the
  end of the list, stands for \<open>EAGAIN\<close>. The mutex of the connection makes the two operations atomic.
\<close>

section \<open>The socket\<close>

record sock =
  writeReady :: bool
  sent :: "byte list"
  takes :: "nat list"

definition tryWrite :: "byte list \<Rightarrow> sock \<Rightarrow> (nat \<times> sock) res" where
  "tryWrite bs k =
     res_bind (check (writeReady k) AssertFailed) (\<lambda>_. case takes k of
       Suc n # ts \<Rightarrow> (let n = min (Suc n) (length bs) in Inr (n, k\<lparr>sent := sent k @ take n bs, takes := ts\<rparr>))
     | _ \<Rightarrow> Inr (0, k\<lparr>writeReady := False, takes := drop 1 (takes k)\<rparr>))"

text \<open>Every call uses up an answer of the kernel or finds the socket busy.\<close>

definition sock_measure :: "sock \<Rightarrow> nat" where
  "sock_measure k = (if writeReady k then Suc (length (takes k)) else 0)"

lemma tryWrite_measure: "tryWrite bs k = Inr (n, k') \<Longrightarrow> writeReady k \<Longrightarrow> sock_measure k' < sock_measure k"
  by (auto simp: tryWrite_def sock_measure_def Let_def split: list.splits nat.splits if_splits)

declare res_bind_cong [fundef_cong]

section \<open>Sending\<close>

record sender =
  sendQueue :: "byte list list"
  sendOffset :: nat
  sock :: sock

definition sender_new :: sender where
  "sender_new = \<lparr>sendQueue = [], sendOffset = 0, sock = \<lparr>writeReady = False, sent = [], takes = []\<rparr>\<rparr>"

text \<open>The loop of \<open>onWriteRaw\<close>; the result is what is left to be queued, none when it returned early.\<close>

function raw_loop :: "byte list \<Rightarrow> sock \<Rightarrow> (byte list option \<times> sock) res" where
  "raw_loop bs k =
     (if \<not> writeReady k then Inr (Some bs, k)
      else res_bind (tryWrite bs k) (\<lambda>x.
        if fst x = length bs then Inr (None, snd x) else raw_loop (drop (fst x) bs) (snd x)))"
  by pat_completeness auto
termination
  by (relation "measure (\<lambda>(bs, k). sock_measure k)") (auto dest: tryWrite_measure)

definition onWriteRaw :: "byte list \<Rightarrow> sender \<Rightarrow> sender res" where
  "onWriteRaw bs c =
     res_bind (if sendQueue c = [] then raw_loop bs (sock c) else Inr (Some bs, sock c)) (\<lambda>(rest, k).
     case rest of
       None \<Rightarrow> Inr (c\<lparr>sock := k\<rparr>)
     | Some bs \<Rightarrow> Inr (c\<lparr>sock := k, sendQueue := sendQueue c @ [bs]\<rparr>))"

function onWriteReady :: "sender \<Rightarrow> sender res" where
  "onWriteReady c = (case sendQueue c of
     [] \<Rightarrow> Inr c
   | item # rest \<Rightarrow>
      if \<not> writeReady (sock c) then Inr c
      else res_bind (tryWrite (drop (sendOffset c) item) (sock c)) (\<lambda>x.
        let off = sendOffset c + fst x in
        onWriteReady (if off = length item then c\<lparr>sock := snd x, sendQueue := rest, sendOffset := 0\<rparr>
          else c\<lparr>sock := snd x, sendOffset := off\<rparr>)))"
  by pat_completeness auto
termination
  by (relation "measure (\<lambda>c. sock_measure (sock c))") (auto dest: tryWrite_measure)

declare raw_loop.simps [simp del] onWriteReady.simps [simp del]

text \<open>
  What happens to the connection: bytes are written by TLS, or epoll reports that the socket can be
  written to (\<open>SockStream::EpollCallback\<close>); the kernel's answers from then on come with the event.
\<close>

datatype send_event = Written "byte list" "nat list" | Writable "nat list"

definition send_step :: "send_event \<Rightarrow> sender \<Rightarrow> sender res" where
  "send_step ev c = (case ev of
     Written bs ts \<Rightarrow> onWriteRaw bs (c\<lparr>sock := (sock c)\<lparr>takes := ts\<rparr>\<rparr>)
   | Writable ts \<Rightarrow>
      if \<not> writeReady (sock c) then onWriteReady (c\<lparr>sock := (sock c)\<lparr>writeReady := True, takes := ts\<rparr>\<rparr>)
      else Inr c)"

fun send_steps :: "send_event list \<Rightarrow> sender \<Rightarrow> sender res" where
  "send_steps [] c = Inr c"
| "send_steps (ev # evs) c = res_bind (send_step ev c) (send_steps evs)"

fun written :: "send_event list \<Rightarrow> byte list" where
  "written [] = []"
| "written (Written bs ts # evs) = bs @ written evs"
| "written (Writable ts # evs) = written evs"

section \<open>Correctness\<close>

definition unsent :: "sender \<Rightarrow> byte list" where
  "unsent c = drop (sendOffset c) (concat (sendQueue c))"

text \<open>Bytes wait only while the socket is busy, so that the next event of epoll will find it so.\<close>

definition sender_ok :: "sender \<Rightarrow> bool" where
  "sender_ok c \<longleftrightarrow> (sendQueue c \<noteq> [] \<longrightarrow> \<not> writeReady (sock c) \<and> sendOffset c \<le> length (hd (sendQueue c)))
     \<and> (sendQueue c = [] \<longrightarrow> sendOffset c = 0)"

lemma tryWrite_ok:
  assumes "writeReady k"
  obtains n k' where "tryWrite bs k = Inr (n, k')" "n \<le> length bs" "sent k' = sent k @ take n bs"
    "sock_measure k' < sock_measure k"
proof -
  have "\<exists>n k'. tryWrite bs k = Inr (n, k')" using assms
    by (auto simp: tryWrite_def Let_def split: list.splits nat.splits)
  then obtain n k' where t: "tryWrite bs k = Inr (n, k')" by blast
  moreover have "n \<le> length bs" "sent k' = sent k @ take n bs"
    using t assms by (auto simp: tryWrite_def Let_def split: list.splits nat.splits)
  ultimately show ?thesis using that tryWrite_measure[OF t assms] by blast
qed

lemma raw_loop_correct:
  "\<exists>r k'. raw_loop bs k = Inr (r, k') \<and> (case r of
     None \<Rightarrow> sent k' = sent k @ bs
   | Some rest \<Rightarrow> sent k' @ rest = sent k @ bs \<and> \<not> writeReady k')"
proof (induction "sock_measure k" arbitrary: bs k rule: less_induct)
  case less
  show ?case
  proof (cases "writeReady k")
    case True
    obtain n k' where t: "tryWrite bs k = Inr (n, k')" "n \<le> length bs" "sent k' = sent k @ take n bs" "sock_measure k' < sock_measure k"
      using tryWrite_ok[OF True] .
    show ?thesis
    proof (cases "n = length bs")
      case True
      then show ?thesis using t \<open>writeReady k\<close> by (subst raw_loop.simps) simp
    next
      case False
      then have "raw_loop bs k = raw_loop (drop n bs) k'" using t(1) \<open>writeReady k\<close> by (subst raw_loop.simps) simp
      moreover obtain r k2 where r: "raw_loop (drop n bs) k' = Inr (r, k2)" "case r of None \<Rightarrow> sent k2 = sent k' @ drop n bs
        | Some rest \<Rightarrow> sent k2 @ rest = sent k' @ drop n bs \<and> \<not> writeReady k2"
        using less[OF t(4), of "drop n bs"] by blast
      ultimately show ?thesis using t(3) by (cases r) auto
    qed
  qed (subst raw_loop.simps, simp)
qed

lemma onWriteReady_correct:
  "sendQueue c = [] \<longrightarrow> sendOffset c = 0 \<Longrightarrow> sendQueue c \<noteq> [] \<longrightarrow> sendOffset c \<le> length (hd (sendQueue c)) \<Longrightarrow>
   \<exists>c'. onWriteReady c = Inr c' \<and> sender_ok c' \<and> sent (sock c') @ unsent c' = sent (sock c) @ unsent c"
proof (induction "sock_measure (sock c)" arbitrary: c rule: less_induct)
  case less
  show ?case
  proof (cases "sendQueue c")
    case Nil
    then show ?thesis using less.prems by (subst onWriteReady.simps) (simp add: sender_ok_def)
  next
    case (Cons item rest)
    show ?thesis
    proof (cases "writeReady (sock c)")
      case False
      then show ?thesis using Cons less.prems by (subst onWriteReady.simps) (simp add: sender_ok_def)
    next
      case True
      have off: "sendOffset c \<le> length item" using less.prems(2) Cons by simp
      obtain n k' where t: "tryWrite (drop (sendOffset c) item) (sock c) = Inr (n, k')" "n \<le> length (drop (sendOffset c) item)"
        "sent k' = sent (sock c) @ take n (drop (sendOffset c) item)" "sock_measure k' < sock_measure (sock c)"
        using tryWrite_ok[OF True] .
      let ?d = "if sendOffset c + n = length item then c\<lparr>sock := k', sendQueue := rest, sendOffset := 0\<rparr>
        else c\<lparr>sock := k', sendOffset := sendOffset c + n\<rparr>"
      have "onWriteReady c = onWriteReady ?d" using Cons True t(1) by (subst onWriteReady.simps) (simp add: Let_def)
      moreover have "sent (sock ?d) @ unsent ?d = sent (sock c) @ unsent c"
      proof -
        have "take n (drop (sendOffset c) item) @ drop (sendOffset c + n) item @ zs = drop (sendOffset c) item @ zs" for zs
          by (metis add.commute append_assoc append_take_drop_id drop_drop)
        then show ?thesis using t(2,3) off Cons by (auto simp: unsent_def)
      qed
      moreover have "\<exists>c'. onWriteReady ?d = Inr c' \<and> sender_ok c' \<and> sent (sock c') @ unsent c' = sent (sock ?d) @ unsent ?d"
        using t(2,4) off Cons by (intro less.hyps) auto
      ultimately show ?thesis by simp
    qed
  qed
qed

lemma send_step_correct:
  assumes "sender_ok c"
  shows "\<exists>c'. send_step ev c = Inr c' \<and> sender_ok c' \<and> sent (sock c') @ unsent c' = sent (sock c) @ unsent c @ written [ev]"
proof (cases ev)
  case (Written bs ts)
  let ?k = "(sock c)\<lparr>takes := ts\<rparr>"
  show ?thesis
  proof (cases "sendQueue c = []")
    case True
    obtain r k' where r: "raw_loop bs ?k = Inr (r, k')" "case r of None \<Rightarrow> sent k' = sent ?k @ bs
      | Some rest \<Rightarrow> sent k' @ rest = sent ?k @ bs \<and> \<not> writeReady k'"
      using raw_loop_correct by blast
    then show ?thesis using Written True assms
      by (cases r) (auto simp: send_step_def onWriteRaw_def sender_ok_def unsent_def)
  next
    case False
    then show ?thesis using Written assms
      by (auto simp: send_step_def onWriteRaw_def sender_ok_def unsent_def neq_Nil_conv)
  qed
next
  case (Writable ts)
  then show ?thesis using assms onWriteReady_correct[of "c\<lparr>sock := (sock c)\<lparr>writeReady := True, takes := ts\<rparr>\<rparr>"]
    by (auto simp: send_step_def sender_ok_def unsent_def)
qed

lemma send_steps_correct:
  "sender_ok c \<Longrightarrow> \<exists>c'. send_steps evs c = Inr c' \<and> sender_ok c' \<and> sent (sock c') @ unsent c' = sent (sock c) @ unsent c @ written evs"
proof (induction evs arbitrary: c)
  case (Cons ev evs)
  obtain c1 where c1: "send_step ev c = Inr c1" "sender_ok c1" "sent (sock c1) @ unsent c1 = sent (sock c) @ unsent c @ written [ev]"
    using send_step_correct[OF Cons.prems] by blast
  obtain c2 where "send_steps evs c1 = Inr c2" "sender_ok c2" "sent (sock c2) @ unsent c2 = sent (sock c1) @ unsent c1 @ written evs"
    using Cons.IH[OF c1(2)] by blast
  moreover have "written (ev # evs) = written [ev] @ written evs" by (cases ev) simp_all
  ultimately show ?case using c1 by (simp flip: append_assoc)
qed simp

text \<open>
  The connection sends a stream: whatever the kernel takes in each call and whenever epoll reports,
  no call fails, the bytes sent so far and those that wait are the bytes written, in their order and
  each once; and bytes wait only while the socket is not ready for writing, so the event that sends
  them is still to come.
\<close>

theorem sender_stream:
  "\<exists>c. send_steps evs sender_new = Inr c \<and> sent (sock c) @ unsent c = written evs
     \<and> (unsent c \<noteq> [] \<longrightarrow> \<not> writeReady (sock c))"
proof -
  have "sender_ok sender_new" by (simp add: sender_ok_def sender_new_def)
  then obtain c where "send_steps evs sender_new = Inr c" "sender_ok c"
    "sent (sock c) @ unsent c = sent (sock sender_new) @ unsent sender_new @ written evs" using send_steps_correct by blast
  then show ?thesis by (auto simp: sender_new_def unsent_def sender_ok_def)
qed

theorem sender_stream_witness:
  "\<exists>c. send_steps [Writable [], Written [1, 2, 3] [2]] sender_new = Inr c \<and> sent (sock c) @ unsent c = [1, 2, 3]
     \<and> unsent c \<noteq> [] \<and> \<not> writeReady (sock c)"
proof -
  let ?evs = "[Writable [], Written [1, 2, 3] [2]]"
  have r: "raw_loop [1, 2, 3] \<lparr>writeReady = True, sent = [], takes = [2]\<rparr>
      = Inr (Some [3], \<lparr>writeReady = False, sent = [1, 2], takes = []\<rparr>)"
    by (simp add: raw_loop.simps tryWrite_def eval_nat_numeral)
  then have "send_steps ?evs sender_new
      = Inr \<lparr>sendQueue = [[3]], sendOffset = 0, sock = \<lparr>writeReady = False, sent = [1, 2], takes = []\<rparr>\<rparr>"
    by (simp add: send_step_def sender_new_def onWriteReady.simps onWriteRaw_def)
  then show ?thesis using sender_stream[of ?evs] by (auto simp: unsent_def)
qed

end
