(* ===== verification/Api_Reader.thy ===== *)
theory Api_Reader
  imports Api_Sender
begin

text \<open>
  The incoming side of a connection from the socket to the server: the read half of \<open>SockStream\<close>
  (\<open>shard/src/os/linux.cpp\<close>), \<open>onReadReady\<close> (\<open>shard/src/api/server.cpp\<close>) and the callbacks of
  \<open>TlsServer::Channel\<close> (\<open>shard/src/ll/tls.cpp\<close>). The TLS library is a parameter: a state and a function
  that takes raw bytes and tells which callbacks it makes. The loop over the socket can run for ever, so it
  is a partial function, and \<open>None\<close> is the value of a call that does not return.
\<close>

section \<open>The socket\<close>

text \<open>
  \<open>inBuffer\<close> are the bytes that have arrived and were not read, \<open>inEnded\<close> tells that the peer has closed its
  side, \<open>inReset\<close> that the connection is broken; these three belong to the kernel.
\<close>

record in_sock =
  readReady :: bool
  inBuffer :: "byte list"
  inEnded :: bool
  inReset :: bool

definition idle_sock :: in_sock where
  "idle_sock = \<lparr>readReady = False, inBuffer = [], inEnded = False, inReset = False\<rparr>"

text \<open>\<open>read\<close> gives what there is, nothing at the end of the stream, and fails with \<open>EAGAIN\<close> before it.\<close>

definition tryRead :: "nat \<Rightarrow> in_sock \<Rightarrow> (byte list \<times> in_sock) res" where
  "tryRead n k =
     res_bind (check (readReady k) AssertFailed) (\<lambda>_.
     if inBuffer k \<noteq> [] then Inr (take n (inBuffer k), k\<lparr>inBuffer := drop n (inBuffer k)\<rparr>)
     else if inReset k then Inl (RuntimeError ''Write failed'')
     else if inEnded k then Inr ([], k)
     else Inr ([], k\<lparr>readReady := False\<rparr>))"

section \<open>The TLS channel\<close>

datatype tls_event = ReadTls "byte list" | WriteRaw "byte list" | Alert | Handshake

type_synonym 't tls_recv = "'t \<Rightarrow> byte list \<Rightarrow> ('t \<times> tls_event list) res"

record ('t, 's) conn =
  connIn :: in_sock
  connTls :: 't
  connRecv :: receiver
  connSend :: sender
  connServer :: 's

definition conn_new :: "byte \<Rightarrow> 't \<Rightarrow> 's \<Rightarrow> ('t, 's) conn" where
  "conn_new junk t s = \<lparr>connIn = idle_sock, connTls = t, connRecv = receiver_new junk, connSend = sender_new, connServer = s\<rparr>"

text \<open>The callbacks of the channel: alerts are ignored, every handshake is accepted.\<close>

definition on_tls :: "byte \<Rightarrow> (packet \<Rightarrow> 's \<Rightarrow> 's res) \<Rightarrow> tls_event \<Rightarrow> ('t, 's) conn \<Rightarrow> ('t, 's) conn res" where
  "on_tls junk pm ev c = (case ev of
     ReadTls bs \<Rightarrow> res_bind (onReadTls junk pm bs (connRecv c, connServer c)) (\<lambda>(r, s). Inr (c\<lparr>connRecv := r, connServer := s\<rparr>))
   | WriteRaw bs \<Rightarrow> res_bind (onWriteRaw bs (connSend c)) (\<lambda>w. Inr (c\<lparr>connSend := w\<rparr>))
   | Alert \<Rightarrow> Inr c
   | Handshake \<Rightarrow> Inr c)"

fun on_tls_all :: "byte \<Rightarrow> (packet \<Rightarrow> 's \<Rightarrow> 's res) \<Rightarrow> tls_event list \<Rightarrow> ('t, 's) conn \<Rightarrow> ('t, 's) conn res" where
  "on_tls_all junk pm [] c = Inr c"
| "on_tls_all junk pm (ev # evs) c = res_bind (on_tls junk pm ev c) (on_tls_all junk pm evs)"

definition readRaw :: "byte \<Rightarrow> 't tls_recv \<Rightarrow> (packet \<Rightarrow> 's \<Rightarrow> 's res) \<Rightarrow> byte list \<Rightarrow> ('t, 's) conn \<Rightarrow> ('t, 's) conn res" where
  "readRaw junk T pm bs c = res_bind (T (connTls c) bs) (\<lambda>(t, evs). on_tls_all junk pm evs (c\<lparr>connTls := t\<rparr>))"

section \<open>Reading\<close>

text \<open>One turn of the loop of \<open>onReadReady\<close>; the buffer has 512 bytes.\<close>

definition read_turn :: "byte \<Rightarrow> 't tls_recv \<Rightarrow> (packet \<Rightarrow> 's \<Rightarrow> 's res) \<Rightarrow> ('t, 's) conn \<Rightarrow> ('t, 's) conn res" where
  "read_turn junk T pm c = res_bind (tryRead 512 (connIn c)) (\<lambda>(bs, k). readRaw junk T pm bs (c\<lparr>connIn := k\<rparr>))"

partial_function (option) onReadReady ::
    "byte \<Rightarrow> 't tls_recv \<Rightarrow> (packet \<Rightarrow> 's \<Rightarrow> 's res) \<Rightarrow> ('t, 's) conn \<Rightarrow> ('t, 's) conn res option" where
  "onReadReady junk T pm c =
     (if \<not> readReady (connIn c) then Some (Inr c)
      else (case read_turn junk T pm c of
          Inl e \<Rightarrow> Some (Inl e)
        | Inr c \<Rightarrow> onReadReady junk T pm c))"

text \<open>
  Epoll reports \<open>EPOLLIN\<close>: bytes have arrived, or the peer has closed its side. Events are edge-triggered,
  so the callback runs only when the socket was not ready before.
\<close>

definition epoll_in :: "byte \<Rightarrow> 't tls_recv \<Rightarrow> (packet \<Rightarrow> 's \<Rightarrow> 's res) \<Rightarrow> byte list \<Rightarrow> bool \<Rightarrow> ('t, 's) conn \<Rightarrow> ('t, 's) conn res option" where
  "epoll_in junk T pm bs ended c =
     (let c = c\<lparr>connIn := (connIn c)\<lparr>inBuffer := inBuffer (connIn c) @ bs, inEnded := ended\<rparr>\<rparr> in
      if \<not> readReady (connIn c) then onReadReady junk T pm (c\<lparr>connIn := (connIn c)\<lparr>readReady := True\<rparr>\<rparr>)
      else Some (Inr c))"

section \<open>What reading does\<close>

fun plains :: "tls_event list \<Rightarrow> byte list list" where
  "plains [] = []"
| "plains (ReadTls bs # evs) = bs # plains evs"
| "plains (_ # evs) = plains evs"

lemma plains_append [simp]: "plains (evs @ evs') = plains evs @ plains evs'"
  by (induction evs rule: plains.induct) simp_all

lemma res_bind_right [simp]: "res_bind m Inr = m"
  by (cases m) simp_all

lemma onWriteRaw_some: "\<exists>w. onWriteRaw bs c = Inr w"
  using raw_loop_correct[of bs "sock c"] by (auto simp: onWriteRaw_def split: option.splits)

fun sends :: "tls_event list \<Rightarrow> sender \<Rightarrow> sender" where
  "sends [] w = w"
| "sends (WriteRaw bs # evs) w = (case onWriteRaw bs w of Inl e \<Rightarrow> w | Inr w \<Rightarrow> sends evs w)"
| "sends (_ # evs) w = sends evs w"

text \<open>The callbacks hand the decoded bytes to the receiver, and the library's own messages to the sender.\<close>

lemma on_tls_all_receive:
  "on_tls_all junk pm evs c = res_bind (receive_all junk pm (plains evs) (connRecv c, connServer c))
     (\<lambda>(r, s). Inr (c\<lparr>connRecv := r, connServer := s, connSend := sends evs (connSend c)\<rparr>))"
proof (induction evs arbitrary: c)
  case (Cons ev evs)
  show ?case
  proof (cases ev)
    case (ReadTls bs)
    show ?thesis
    proof (cases "onReadTls junk pm bs (connRecv c, connServer c)")
      case (Inr x)
      then show ?thesis using Cons[of "c\<lparr>connRecv := fst x, connServer := snd x\<rparr>"] ReadTls
        by (cases x) (simp add: on_tls_def)
    qed (simp add: ReadTls on_tls_def)
  next
    case (WriteRaw bs)
    obtain w where "onWriteRaw bs (connSend c) = Inr w" using onWriteRaw_some by blast
    then show ?thesis using Cons[of "c\<lparr>connSend := w\<rparr>"] WriteRaw by (simp add: on_tls_def)
  qed (use Cons[of c] in \<open>simp_all add: on_tls_def\<close>)
qed simp

lemma sends_append: "sends (evs @ evs') w = sends evs' (sends evs w)"
proof (induction evs w rule: sends.induct)
  case (2 bs evs w)
  then show ?case using onWriteRaw_some[of bs w] by auto
qed simp_all

text \<open>A sequence of calls of \<open>received_data\<close>, of the library alone and through the connection.\<close>

fun tls_feed :: "'t tls_recv \<Rightarrow> byte list list \<Rightarrow> 't \<Rightarrow> ('t \<times> tls_event list) res" where
  "tls_feed T [] t = Inr (t, [])"
| "tls_feed T (bs # bss) t = res_bind (T t bs) (\<lambda>(t, evs). res_bind (tls_feed T bss t) (\<lambda>(t, evs'). Inr (t, evs @ evs')))"

fun readRaws :: "byte \<Rightarrow> 't tls_recv \<Rightarrow> (packet \<Rightarrow> 's \<Rightarrow> 's res) \<Rightarrow> byte list list \<Rightarrow> ('t, 's) conn \<Rightarrow> ('t, 's) conn res" where
  "readRaws junk T pm [] c = Inr c"
| "readRaws junk T pm (bs # bss) c = res_bind (readRaw junk T pm bs c) (readRaws junk T pm bss)"

lemma receive_all_append: "receive_all junk pm (bss @ bss') x = res_bind (receive_all junk pm bss x) (receive_all junk pm bss')"
proof (induction bss arbitrary: x)
  case (Cons bs bss)
  then have "receive_all junk pm (bss @ bss') = (\<lambda>x. res_bind (receive_all junk pm bss x) (receive_all junk pm bss'))" by blast
  then show ?case by (simp add: res_bind_assoc)
qed simp

lemma readRaws_feed:
  "tls_feed T bss (connTls c) = Inr (t, evs) \<Longrightarrow>
   readRaws junk T pm bss c = res_bind (receive_all junk pm (plains evs) (connRecv c, connServer c))
     (\<lambda>(r, s). Inr (c\<lparr>connTls := t, connRecv := r, connServer := s, connSend := sends evs (connSend c)\<rparr>))"
proof (induction bss arbitrary: c t evs)
  case (Cons bs bss)
  obtain t1 evs1 evs2 where T: "T (connTls c) bs = Inr (t1, evs1)" "tls_feed T bss t1 = Inr (t, evs2)" "evs = evs1 @ evs2"
    using Cons.prems by (auto simp: res_bind_Inr_conv)
  have w: "on_tls_all junk pm evs1 (c\<lparr>connTls := t1\<rparr>) = res_bind (receive_all junk pm (plains evs1) (connRecv c, connServer c))
      (\<lambda>(r, s). Inr (c\<lparr>connTls := t1, connRecv := r, connServer := s, connSend := sends evs1 (connSend c)\<rparr>))"
    using on_tls_all_receive[of junk pm evs1 "c\<lparr>connTls := t1\<rparr>"] by auto
  show ?case
  proof (cases "receive_all junk pm (plains evs1) (connRecv c, connServer c)")
    case (Inr x)
    then show ?thesis using w T Cons.IH[of "c\<lparr>connTls := t1, connRecv := fst x, connServer := snd x, connSend := sends evs1 (connSend c)\<rparr>"]
      by (cases x) (simp add: readRaw_def receive_all_append sends_append)
  qed (use w T in \<open>simp add: readRaw_def receive_all_append\<close>)
qed (simp add: split_def)

lemma connIn_last:
  "c\<lparr>connIn := k, connTls := t\<rparr> = c\<lparr>connTls := t, connIn := k\<rparr>"
  "c\<lparr>connIn := k, connRecv := r, connServer := s\<rparr> = c\<lparr>connRecv := r, connServer := s, connIn := k\<rparr>"
  "c\<lparr>connIn := k, connSend := w\<rparr> = c\<lparr>connSend := w, connIn := k\<rparr>"
  by simp_all

lemma on_tls_all_connIn: "on_tls_all junk pm evs (c\<lparr>connIn := k\<rparr>) = res_bind (on_tls_all junk pm evs c) (\<lambda>d. Inr (d\<lparr>connIn := k\<rparr>))"
proof (induction evs arbitrary: c)
  case (Cons ev evs)
  have e: "on_tls junk pm ev (c\<lparr>connIn := k\<rparr>) = res_bind (on_tls junk pm ev c) (\<lambda>d. Inr (d\<lparr>connIn := k\<rparr>))"
    by (cases ev) (simp_all add: on_tls_def res_bind_assoc split_def connIn_last)
  show ?case unfolding on_tls_all.simps e res_bind_assoc res_bind_simps(2) Cons ..
qed simp

lemma readRaw_connIn: "readRaw junk T pm bs (c\<lparr>connIn := k\<rparr>) = res_bind (readRaw junk T pm bs c) (\<lambda>d. Inr (d\<lparr>connIn := k\<rparr>))"
  by (simp add: readRaw_def res_bind_assoc split_def connIn_last on_tls_all_connIn)

lemma readRaws_connIn: "readRaws junk T pm bss (c\<lparr>connIn := k\<rparr>) = res_bind (readRaws junk T pm bss c) (\<lambda>d. Inr (d\<lparr>connIn := k\<rparr>))"
proof (induction bss arbitrary: c)
  case (Cons bs bss)
  show ?case unfolding readRaws.simps readRaw_connIn res_bind_assoc res_bind_simps(2) Cons ..
qed simp

lemma readRaws_one: "readRaws junk T pm [bs] c = readRaw junk T pm bs c"
  by (cases "readRaw junk T pm bs c") simp_all

lemma readRaws_append: "readRaws junk T pm (bss @ bss') c = res_bind (readRaws junk T pm bss c) (readRaws junk T pm bss')"
proof (induction bss arbitrary: c)
  case (Cons bs bss)
  then have "readRaws junk T pm (bss @ bss') = (\<lambda>c. res_bind (readRaws junk T pm bss c) (readRaws junk T pm bss'))" by blast
  then show ?case by (simp add: res_bind_assoc)
qed simp

abbreviation filled :: "byte list \<Rightarrow> in_sock" where
  "filled b \<equiv> \<lparr>readReady = True, inBuffer = b, inEnded = False, inReset = False\<rparr>"

function chunks :: "byte list \<Rightarrow> byte list list" where
  "chunks b = (if b = [] then [[]] else take 512 b # chunks (drop 512 b))"
  by auto
termination by (relation "measure length") auto

declare chunks.simps [simp del]

lemma concat_chunks: "concat (chunks b) = b"
  by (induction b rule: chunks.induct) (subst chunks.simps, simp)

text \<open>The loop returns when the peer may still send: it has read everything, and the socket is not ready.\<close>

lemma onReadReady_returns:
  "onReadReady junk T pm (c\<lparr>connIn := filled b\<rparr>)
     = Some (res_bind (readRaws junk T pm (chunks b) c) (\<lambda>d. Inr (d\<lparr>connIn := idle_sock\<rparr>)))"
proof (induction "length b" arbitrary: b c rule: less_induct)
  case less
  let ?c = "c\<lparr>connIn := filled b\<rparr>"
  have turn: "read_turn junk T pm ?c = res_bind (readRaw junk T pm (take 512 b) c)
      (\<lambda>d. Inr (d\<lparr>connIn := if b = [] then idle_sock else filled (drop 512 b)\<rparr>))"
    by (simp add: read_turn_def tryRead_def idle_sock_def readRaw_connIn)
  have loop: "onReadReady junk T pm ?c = (case read_turn junk T pm ?c of Inl e \<Rightarrow> Some (Inl e) | Inr d \<Rightarrow> onReadReady junk T pm d)"
    by (subst onReadReady.simps) simp
  have fin: "onReadReady junk T pm (d\<lparr>connIn := idle_sock\<rparr>) = Some (Inr (d\<lparr>connIn := idle_sock\<rparr>))" for d
    by (subst onReadReady.simps) (simp add: idle_sock_def)
  show ?case
  proof (cases "readRaw junk T pm (take 512 b) c")
    case (Inl e)
    then show ?thesis using loop turn by (subst chunks.simps) (cases "b = []"; simp)
  next
    case (Inr d)
    show ?thesis
    proof (cases "b = []")
      case True
      then show ?thesis using loop turn Inr fin[of d] by (subst chunks.simps) simp
    next
      case False
      then have "length (drop 512 b) < length b" by simp
      from less[OF this, of d] show ?thesis using loop turn Inr False by (subst chunks.simps) simp
    qed
  qed
qed

lemma connIn_same: "c\<lparr>connIn := connIn c\<rparr> = c" "connIn (d\<lparr>connIn := k\<rparr>) = k"
  by simp_all

lemma readRaws_keep: "readRaws junk T pm bss c = Inr d \<Longrightarrow> connIn d = connIn c"
  using readRaws_connIn[where bss = bss and c = c and junk = junk and T = T and pm = pm and k = "connIn c"] by (metis connIn_same res_bind_simps(2) sum.inject(2))

lemma epoll_in_read:
  assumes "connIn c = idle_sock"
  shows "epoll_in junk T pm bs False c = Some (readRaws junk T pm (chunks bs) c)"
proof -
  have "epoll_in junk T pm bs False c = onReadReady junk T pm (c\<lparr>connIn := filled bs\<rparr>)"
    using assms by (simp add: epoll_in_def idle_sock_def)
  then show ?thesis
    using readRaws_connIn[where bss = "chunks bs" and c = c and junk = junk and T = T and pm = pm and k = idle_sock]
    unfolding onReadReady_returns assms[symmetric] connIn_same(1) by simp
qed

section \<open>Properties of reading\<close>

text \<open>
  What the code relies on: the library decrypts a stream, however its bytes are cut into pieces, and an
  empty piece changes nothing.
\<close>

definition tls_stream :: "'t tls_recv \<Rightarrow> 't \<Rightarrow> (byte list \<Rightarrow> byte list) \<Rightarrow> bool" where
  "tls_stream T t0 dec \<longleftrightarrow> (\<forall>bss. \<exists>t evs. tls_feed T bss t0 = Inr (t, evs) \<and> concat (plains evs) = dec (concat bss))"

lemma tls_feed_append:
  "tls_feed T (bss @ bss') t = res_bind (tls_feed T bss t) (\<lambda>(t, evs). res_bind (tls_feed T bss' t) (\<lambda>(t, evs'). Inr (t, evs @ evs')))"
  by (induction bss arbitrary: t) (auto simp: res_bind_assoc split_def)

text \<open>A connection that has taken the bytes \<open>old\<close> from its socket.\<close>

definition conn_inv :: "'t tls_recv \<Rightarrow> 't \<Rightarrow> (byte list \<Rightarrow> byte list) \<Rightarrow> byte list \<Rightarrow> ('t, 's) conn \<Rightarrow> bool" where
  "conn_inv T t0 dec old c \<longleftrightarrow> connIn c = idle_sock
     \<and> (\<exists>bss evs. concat bss = old \<and> tls_feed T bss t0 = Inr (connTls c, evs))
     \<and> pending_bytes (connRecv c) (snd (split_packets (dec old)))"

lemma conn_inv_server [simp]: "conn_inv T t0 dec old (c\<lparr>connServer := s\<rparr>) = conn_inv T t0 dec old c"
  by (simp add: conn_inv_def)

text \<open>One event: the packets that are complete now, and were not before, are handled.\<close>

lemma server_last: "c\<lparr>connServer := s, connSend := w\<rparr> = c\<lparr>connSend := w, connServer := s\<rparr>"
  by simp

lemma conn_data:
  assumes T: "tls_stream T t0 dec" and c: "conn_inv T t0 dec old c" and small: "heads_small (dec (old @ bs))"
  shows "\<exists>ps c'. fst (split_packets (dec (old @ bs))) = fst (split_packets (dec old)) @ ps \<and> conn_inv T t0 dec (old @ bs) c'
    \<and> (\<forall>s. epoll_in junk T pm bs False (c\<lparr>connServer := s\<rparr>) = Some (res_bind (handle_all pm ps s) (\<lambda>s. Inr (c'\<lparr>connServer := s\<rparr>))))"
proof -
  obtain bss evs where b: "concat bss = old" "tls_feed T bss t0 = Inr (connTls c, evs)" and i: "connIn c = idle_sock"
    and p: "pending_bytes (connRecv c) (snd (split_packets (dec old)))" using c by (auto simp: conn_inv_def)
  have d: "concat (plains evs) = dec old" using T b unfolding tls_stream_def by (metis Pair_inject sum.inject(2))
  obtain t evs' where f: "tls_feed T (chunks bs) (connTls c) = Inr (t, evs')" "concat (plains (evs @ evs')) = dec (old @ bs)"
    using T[unfolded tls_stream_def, rule_format, of "bss @ chunks bs"] b
    by (auto simp: tls_feed_append concat_chunks res_bind_Inr_conv)
  have e: "dec (old @ bs) = dec old @ concat (plains evs')" using f(2) d by simp
  obtain ps r where sp: "split_packets (snd (split_packets (dec old)) @ concat (plains evs')) = (ps, r)" by fastforce
  have s: "split_packets (dec (old @ bs)) = (fst (split_packets (dec old)) @ ps, r)"
    unfolding e split_packets_append[of "dec old"] by (simp add: split_def Let_def sp)
  have "heads_small (snd (split_packets (dec old)) @ concat (plains evs'))" 
    using small heads_small_append[of "dec old" "concat (plains evs')"] unfolding e by blast
  from receive_all_correct[OF p this, of junk pm] obtain rc where rc: "pending_bytes rc r"
    "\<And>s. receive_all junk pm (plains evs') (connRecv c, s) = res_bind (handle_all pm ps s) (\<lambda>s. Inr (rc, s))" unfolding sp by auto
  let ?c = "c\<lparr>connTls := t, connRecv := rc, connSend := sends evs' (connSend c)\<rparr>"
  have "epoll_in junk T pm bs False (c\<lparr>connServer := s\<rparr>) = Some (res_bind (handle_all pm ps s) (\<lambda>s. Inr (?c\<lparr>connServer := s\<rparr>)))" for s
    using epoll_in_read[of "c\<lparr>connServer := s\<rparr>" junk T pm bs] readRaws_feed[of T "chunks bs" "c\<lparr>connServer := s\<rparr>" t evs' junk pm] f(1) i
    by (simp add: rc(2) res_bind_assoc server_last)
  moreover have "tls_feed T (bss @ chunks bs) t0 = Inr (t, evs @ evs')" "concat (bss @ chunks bs) = old @ bs"
    using b f(1) by (simp_all add: tls_feed_append concat_chunks)
  then have "conn_inv T t0 dec (old @ bs) ?c" unfolding conn_inv_def using i rc(1) s
    by (intro conjI exI[of _ "bss @ chunks bs"] exI[of _ "evs @ evs'"]) simp_all
  ultimately show ?thesis using s by (intro exI[of _ ps] exI[of _ ?c]) simp
qed

lemma conn_new_inv: "tls_stream T t0 dec \<Longrightarrow> dec [] = [] \<and> conn_inv T t0 dec [] (conn_new junk t0 s)"
  using pending_new[of junk] split_packets_short[of "[]"]
  by (auto simp: conn_inv_def conn_new_def tls_stream_def intro: exI[of _ "[]"] dest: spec[of _ "[]"])

lemma dec_prefix:
  assumes "tls_stream T t0 dec"
  shows "\<exists>more. dec (xs @ ys) = dec xs @ more"
proof -
  obtain t evs where e: "tls_feed T [xs] t0 = Inr (t, evs)" "concat (plains evs) = dec xs"
    using assms[unfolded tls_stream_def, rule_format, of "[xs]"] by auto
  obtain t' evs' where "tls_feed T ([xs] @ [ys]) t0 = Inr (t', evs')" "concat (plains evs') = dec (xs @ ys)"
    using assms[unfolded tls_stream_def, rule_format, of "[xs] @ [ys]"] by auto
  then show ?thesis using e unfolding tls_feed_append by (auto simp: res_bind_Inr_conv) (metis)
qed

text \<open>
  At the end of the stream \<open>read\<close> gives zero bytes without \<open>EAGAIN\<close>, so the socket stays ready: from then
  on every turn of the loop leaves the connection as it was.
\<close>

lemma ended_turn:
  assumes "\<And>t. T t [] = Inr (t, [])" "inBuffer (connIn c) = []" "inEnded (connIn c)" "\<not> inReset (connIn c)" "readReady (connIn c)"
  shows "read_turn junk T pm c = Inr c"
  using assms by (simp add: read_turn_def tryRead_def readRaw_def)

lemma ended_loop_step:
  "onReadReady junk T pm c = Some r \<Longrightarrow>
   \<not> ((\<forall>t. T t [] = Inr (t, [])) \<and> inBuffer (connIn c) = [] \<and> inEnded (connIn c) \<and> \<not> inReset (connIn c) \<and> readReady (connIn c))"
proof (induction rule: onReadReady.raw_induct[rotated, consumes 1, case_names step])
  case (step rec junk T pm c r)
  show ?case
  proof
    assume e: "(\<forall>t. T t [] = Inr (t, [])) \<and> inBuffer (connIn c) = [] \<and> inEnded (connIn c) \<and> \<not> inReset (connIn c) \<and> readReady (connIn c)"
    then have "read_turn junk T pm c = Inr c" by (intro ended_turn) simp_all
    then have "rec junk T pm c = Some r" using step(2) e by simp
    then show False using step(1)[of junk T pm c r] e by blast
  qed
qed

lemma ended_loop:
  assumes "\<And>t. T t [] = Inr (t, [])" "inBuffer (connIn c) = []" "inEnded (connIn c)" "\<not> inReset (connIn c)" "readReady (connIn c)"
  shows "onReadReady junk T pm c = None"
  using ended_loop_step[of junk T pm c] assms by (cases "onReadReady junk T pm c") auto

text \<open>
  C31. When a client closes its side of an idle connection, the event of epoll is never finished: the loop of
  \<open>onReadReady\<close> reads zero bytes for ever, and with it the thread that serves all clients.
\<close>

theorem peer_close_hangs:
  assumes "\<And>t. T t [] = Inr (t, [])" "connIn c = idle_sock"
  shows "epoll_in junk T pm [] True c = None"
  using assms by (simp add: epoll_in_def idle_sock_def ended_loop)

theorem peer_close_hangs_witness:
  "epoll_in 0 (\<lambda>t bs. Inr (t, if bs = [] then [] else [ReadTls bs])) (\<lambda>p s. Inr (s :: nat)) [] True (conn_new 0 () 0) = None"
  by (rule peer_close_hangs) (simp_all add: conn_new_def)

end
