(* ===== verification/Api_Server.thy ===== *)
theory Api_Server
  imports Engine Js_View File_Io Api_Connection
begin

text \<open>
  The messages of the server (\<open>shard/src/api/server.cpp\<close>): \<open>processMessage\<close> and the closures that answer
  a request later. The state is the engine, the callbacks of the queued items of the engine (in the
  order of the items, see \<open>Api_Server_Spec\<close>), the responses posted so far, with their connection and
  sequence number, and the external files. The protocol buffer library is the argument \<open>P\<close>, one parser
  per message; fetches and queries complete before the handler returns. An exception of a handler
  leaves the program.
\<close>

section \<open>Messages\<close>

record pb_mutation =
  pmType :: mut_type
  pmStorage :: string
  pmDocument :: int
  pmBuffer :: "byte list"

record pb_constraint =
  pcType :: con_type
  pcStorage :: string
  pcDocument :: int
  pcSequence :: int
  pcMustExist :: bool
  pcMatch :: bool

record cq_fetch =
  cfStorage :: string
  cfSequence :: "int option"
  cfDocument :: int

record cq_query =
  cqView :: string
  cqSequence :: "int option"
  cqFromKey :: "byte list option"
  cqToKey :: "byte list option"
  cqLimit :: "32 word option"

datatype apply_type = ApplyNone | ApplySubmit | ApplySubmitCommit | ApplyCommit | ApplyRollback

record protocol =
  parseFetch :: "byte list \<Rightarrow> cq_fetch option"
  parseQuery :: "byte list \<Rightarrow> cq_query option"
  parseShortTransact :: "byte list \<Rightarrow> (pb_mutation list \<times> pb_constraint list) option"
  parseTransaction :: "byte list \<Rightarrow> unit option"
  parseUpdate :: "byte list \<Rightarrow> (int \<times> pb_mutation list \<times> pb_constraint list) option"
  parseApply :: "byte list \<Rightarrow> (int \<times> apply_type) option"
  parseCreate :: "byte list \<Rightarrow> (string \<times> string) option"
  parseUnlink :: "byte list \<Rightarrow> string option"
  parseUpload :: "byte list \<Rightarrow> (string \<times> byte list) option"
  parseDownload :: "byte list \<Rightarrow> string option"

datatype error_code = CodeSuccess | CodeIllegalRequest | CodeParseError | CodeIllegalState
  | CodeSubmitConstraintViolation | CodeSubmitConstraintConflict | CodeSubmitMutationConflict

record sr_fin =
  finError :: "error_code option"
  finTransaction :: "int option"
  finSequence :: "int option"
  finMutations :: "int list"

datatype response = SrFin sr_fin | SrRows "byte list list" | SrBlob "byte list"

definition fin_empty :: sr_fin where
  "fin_empty = \<lparr>finError = None, finTransaction = None, finSequence = None, finMutations = []\<rparr>"

definition fin :: "error_code \<Rightarrow> sr_fin" where
  "fin c = fin_empty\<lparr>finError := Some c\<rparr>"

section \<open>State\<close>

text \<open>A connection and the sequence number of a request on it.\<close>

type_synonym request = "nat \<times> 32 word"

datatype callback = ShortTransactCb request "int list" | ApplySubmitCb request | ApplyCommitCb request | ApplyRollbackCb request

record ('d, 'w) server =
  sengine :: "('d, 'w) engine"
  callbacks :: "callback list"
  posted :: "(request \<times> response) list"
  externFiles :: "string \<rightharpoonup> byte list"
  shutdownCalled :: bool

definition server_new :: "('d, 'w) engine \<Rightarrow> ('d, 'w) server" where
  "server_new e = \<lparr>sengine = e, callbacks = [], posted = [], externFiles = Map.empty, shutdownCalled = False\<rparr>"

text \<open>What the server needs besides the engine: drivers, queries of views, the registries.\<close>

record ('d, 'w) backend =
  beStorage :: "'d storage_ops"
  beView :: "'w view_ops"
  beQuery :: "query_request \<Rightarrow> 'w \<Rightarrow> (byte list list list \<times> 'w) res"
  beStorages :: "string \<Rightarrow> 'd option"
  beViews :: "string \<Rightarrow> 'w option"

definition postResponse :: "request \<Rightarrow> response \<Rightarrow> ('d, 'w) server \<Rightarrow> ('d, 'w) server" where
  "postResponse r x s = s\<lparr>posted := posted s @ [(r, x)]\<rparr>"

text \<open>The answer to a message that can not be parsed.\<close>

definition with_parsed :: "request \<Rightarrow> 'a option \<Rightarrow> ('a \<Rightarrow> ('d, 'w) server res) \<Rightarrow> ('d, 'w) server \<Rightarrow> ('d, 'w) server res" where
  "with_parsed r m f s = (case m of None \<Rightarrow> Inr (postResponse r (SrFin (fin CodeParseError)) s) | Some x \<Rightarrow> f x)"

section \<open>Mutations and constraints\<close>

definition parseMutation :: "pb_mutation \<Rightarrow> ('d, 'w) engine \<Rightarrow> mutation res" where
  "parseMutation pm e = (case pmType pm of
     MutInsert \<Rightarrow> Inr \<lparr>mutType = MutInsert, mutStorage = getStorage (pmStorage pm) e, mutDocument = 0, mutBuffer = pmBuffer pm\<rparr>
   | MutModify \<Rightarrow> Inr \<lparr>mutType = MutModify, mutStorage = getStorage (pmStorage pm) e, mutDocument = pmDocument pm, mutBuffer = pmBuffer pm\<rparr>
   | MutNone \<Rightarrow> Inl (RuntimeError ''Illegal mutation type''))"

definition parseConstraint :: "pb_constraint \<Rightarrow> ('d, 'w) engine \<Rightarrow> constraint res" where
  "parseConstraint c e = (case pcType c of
     ConDocumentState \<Rightarrow> Inr \<lparr>conType = ConDocumentState, conStorage = getStorage (pcStorage c) e, conDocument = pcDocument c,
       conSequence = pcSequence c, mustExist = pcMustExist c, matchSequenceId = pcMatch c\<rparr>
   | ConNone \<Rightarrow> Inl (RuntimeError ''Illegal constraint type''))"

text \<open>The document id of a mutation after \<open>updateMutation\<close>, which has allocated it for an insertion.\<close>

definition updated_document :: "int \<Rightarrow> ('d, 'w) engine \<Rightarrow> int" where
  "updated_document trid e = (case activeTransactions e trid of None \<Rightarrow> 0 | Some tr \<Rightarrow> mutDocument (last (mutations tr)))"

fun update_mutations :: "'d storage_ops \<Rightarrow> int \<Rightarrow> pb_mutation list \<Rightarrow> ('d, 'w) engine \<Rightarrow> (int list \<times> ('d, 'w) engine) res" where
  "update_mutations D trid [] e = Inr ([], e)"
| "update_mutations D trid (pm # pms) e =
     res_bind (parseMutation pm e) (\<lambda>m.
     res_bind (updateMutation D trid m e) (\<lambda>e.
     res_bind (update_mutations D trid pms e) (\<lambda>(ids, e').
     Inr (updated_document trid e # ids, e'))))"

fun update_constraints :: "int \<Rightarrow> pb_constraint list \<Rightarrow> ('d, 'w) engine \<Rightarrow> ('d, 'w) engine res" where
  "update_constraints trid [] e = Inr e"
| "update_constraints trid (x # xs) e =
     res_bind (parseConstraint x e) (\<lambda>c.
     res_bind (updateConstraint trid c e) (update_constraints trid xs))"

section \<open>The closures\<close>

definition engine_fetch :: "('d, 'w) backend \<Rightarrow> int \<Rightarrow> int \<Rightarrow> int \<Rightarrow> ('d, 'w) engine \<Rightarrow> (fetch_result \<times> ('d, 'w) engine) res" where
  "engine_fetch B st doc sq e =
     res_bind (driver_at (storages e) st) (\<lambda>drv.
     res_bind (opFetch (beStorage B) doc sq (dstate drv)) (\<lambda>(x, d).
     Inr (x, e\<lparr>storages := set_driver st d (storages e)\<rparr>)))"

definition engine_query :: "('d, 'w) backend \<Rightarrow> int \<Rightarrow> query_request \<Rightarrow> ('d, 'w) engine
    \<Rightarrow> (byte list list list \<times> ('d, 'w) engine) res" where
  "engine_query B vw q e =
     res_bind (driver_at (views e) vw) (\<lambda>drv.
     res_bind (beQuery B q (dstate drv)) (\<lambda>(rows, w).
     Inr (rows, e\<lparr>views := set_driver vw w (views e)\<rparr>)))"

definition fetchClosure :: "protocol \<Rightarrow> ('d, 'w) backend \<Rightarrow> request \<Rightarrow> byte list \<Rightarrow> ('d, 'w) server \<Rightarrow> ('d, 'w) server res" where
  "fetchClosure P B r body s = with_parsed r (parseFetch P body) (\<lambda>m.
     let e = sengine s;
         st = getStorage (cfStorage m) e;
         sq = (case cfSequence m of Some i \<Rightarrow> i | None \<Rightarrow> currentSequenceId e) in
     res_bind (engine_fetch B st (cfDocument m) sq e) (\<lambda>(x, e).
     let s = s\<lparr>sengine := e\<rparr> in
     case x of
       FetchData _ buffer \<Rightarrow> Inr (postResponse r (SrFin (fin CodeSuccess)) (postResponse r (SrBlob buffer) s))
     | DocumentNotFound \<Rightarrow> Inl (LogicError ''Unexpected error during fetch''))) s"

definition query_of :: "cq_query \<Rightarrow> ('d, 'w) engine \<Rightarrow> query_request" where
  "query_of m e =
     (let q = query_request_new\<lparr>qSequence := (case cqSequence m of Some i \<Rightarrow> i | None \<Rightarrow> currentSequenceId e)\<rparr>;
          q = (case cqFromKey m of Some k \<Rightarrow> q\<lparr>useFromKey := True, fromKey := k\<rparr> | None \<Rightarrow> q);
          q = (case cqToKey m of Some k \<Rightarrow> q\<lparr>useFromKey := True, fromKey := k\<rparr> | None \<Rightarrow> q) in
      case cqLimit m of Some n \<Rightarrow> q\<lparr>qLimit := sint n\<rparr> | None \<Rightarrow> q)"

definition queryClosure :: "protocol \<Rightarrow> ('d, 'w) backend \<Rightarrow> request \<Rightarrow> byte list \<Rightarrow> ('d, 'w) server \<Rightarrow> ('d, 'w) server res" where
  "queryClosure P B r body s = with_parsed r (parseQuery P body) (\<lambda>m.
     let e = sengine s in
     res_bind (engine_query B (getView (cqView m) e) (query_of m e) e) (\<lambda>(rows, e).
     Inr (postResponse r (SrFin (fin CodeSuccess)) (fold (\<lambda>b. postResponse r (SrRows b)) rows (s\<lparr>sengine := e\<rparr>))))) s"

definition shortTransactClosure :: "protocol \<Rightarrow> ('d, 'w) backend \<Rightarrow> request \<Rightarrow> byte list \<Rightarrow> ('d, 'w) server \<Rightarrow> ('d, 'w) server res" where
  "shortTransactClosure P B r body s = with_parsed r (parseShortTransact P body) (\<lambda>(pms, pcs).
     let (trid, e) = transaction_begin (sengine s) in
     res_bind (update_mutations (beStorage B) trid pms e) (\<lambda>(ids, e).
     res_bind (update_constraints trid pcs e) (\<lambda>e.
     res_bind (submitCommit trid e) (\<lambda>e.
     Inr (s\<lparr>sengine := e, callbacks := callbacks s @ [ShortTransactCb r ids]\<rparr>))))) s"

definition onSubmitCommit :: "request \<Rightarrow> int list \<Rightarrow> submit_error \<Rightarrow> int \<Rightarrow> ('d, 'w) server \<Rightarrow> ('d, 'w) server res" where
  "onSubmitCommit r ids err sid s = (case err of
     SubmitSuccess \<Rightarrow> Inr (postResponse r (SrFin ((fin CodeSuccess)\<lparr>finSequence := Some sid, finMutations := ids\<rparr>)) s)
   | ConstraintViolation \<Rightarrow> Inr (postResponse r (SrFin (fin CodeSubmitConstraintViolation)) s)
   | _ \<Rightarrow> Inl (LogicError ''Unexpected error during submit''))"

definition applyClosure :: "protocol \<Rightarrow> request \<Rightarrow> byte list \<Rightarrow> ('d, 'w) server \<Rightarrow> ('d, 'w) server res" where
  "applyClosure P r body s = with_parsed r (parseApply P body) (\<lambda>(trid, ty). case ty of
     ApplySubmit \<Rightarrow> res_bind (submit trid (sengine s)) (\<lambda>e.
       Inr (s\<lparr>sengine := e, callbacks := callbacks s @ [ApplySubmitCb r]\<rparr>))
   | ApplyCommit \<Rightarrow> res_bind (commit trid (sengine s)) (\<lambda>e.
       Inr (s\<lparr>sengine := e, callbacks := callbacks s @ [ApplyCommitCb r]\<rparr>))
   | ApplyRollback \<Rightarrow> res_bind (rollback trid (sengine s)) (\<lambda>e.
       Inr (s\<lparr>sengine := e, callbacks := callbacks s @ [ApplyRollbackCb r]\<rparr>))
   | _ \<Rightarrow> Inr (postResponse r (SrFin (fin CodeIllegalState)) s)) s"

definition onSubmit :: "request \<Rightarrow> submit_error \<Rightarrow> ('d, 'w) server \<Rightarrow> ('d, 'w) server res" where
  "onSubmit r err s = (case err of
     SubmitSuccess \<Rightarrow> Inr (postResponse r (SrFin (fin CodeSuccess)) s)
   | ConstraintViolation \<Rightarrow> Inr (postResponse r (SrFin (fin CodeSubmitConstraintViolation)) s)
   | ConstraintConflict \<Rightarrow> Inr (postResponse r (SrFin (fin CodeSubmitConstraintConflict)) s)
   | MutationConflict \<Rightarrow> Inr (postResponse r (SrFin (fin CodeSubmitMutationConflict)) s)
   | SubmitNone \<Rightarrow> Inl (LogicError ''Unexpected error during submit''))"

definition onCommit_reply :: "request \<Rightarrow> int \<Rightarrow> ('d, 'w) server \<Rightarrow> ('d, 'w) server" where
  "onCommit_reply r sid s = postResponse r (SrFin ((fin CodeSuccess)\<lparr>finSequence := Some sid\<rparr>)) s"

definition onRollback :: "request \<Rightarrow> ('d, 'w) server \<Rightarrow> ('d, 'w) server" where
  "onRollback r s = postResponse r (SrFin (fin CodeSuccess)) s"

text \<open>The callback of an item with its outcome; the types exclude the other combinations in the code.\<close>

definition run_callback :: "callback \<Rightarrow> outcome \<Rightarrow> ('d, 'w) server \<Rightarrow> ('d, 'w) server res" where
  "run_callback cb x s = (case (cb, x) of
     (ShortTransactCb r ids, SubmitCommitOutcome err sid) \<Rightarrow> onSubmitCommit r ids err sid s
   | (ApplySubmitCb r, SubmitOutcome err) \<Rightarrow> onSubmit r err s
   | (ApplyCommitCb r, CommitOutcome sid) \<Rightarrow> Inr (onCommit_reply r sid s)
   | (ApplyRollbackCb r, RollbackOutcome) \<Rightarrow> Inr (onRollback r s)
   | _ \<Rightarrow> Inl AssertFailed)"

section \<open>External files\<close>

definition uploadExtern :: "string \<Rightarrow> byte list \<Rightarrow> ('d, 'w) server \<Rightarrow> ('d, 'w) server res" where
  "uploadExtern name buffer s =
     res_bind (openSync \<lparr>modeCreate = True, modeTrunc = True\<rparr> (externFiles s name)) (\<lambda>f.
     Inr (s\<lparr>externFiles := (externFiles s)(name \<mapsto> fdata (pwriteSync 0 buffer f))\<rparr>))"

definition downloadExtern :: "string \<Rightarrow> ('d, 'w) server \<Rightarrow> byte list res" where
  "downloadExtern name s =
     res_bind (openSync \<lparr>modeCreate = False, modeTrunc = False\<rparr> (externFiles s name)) (\<lambda>f.
     Inr (preadSync 0 (replicate (lengthSync f) 0) f))"

section \<open>processMessage\<close>

definition fin_done :: "request \<Rightarrow> ('d, 'w) server \<Rightarrow> ('d, 'w) server" where
  "fin_done r s = postResponse r (SrFin fin_empty) s"

definition processMessage :: "protocol \<Rightarrow> ('d, 'w) backend \<Rightarrow> nat \<Rightarrow> packet \<Rightarrow> ('d, 'w) server \<Rightarrow> ('d, 'w) server res" where
  "processMessage P B conn p s = (case p of (h, body) \<Rightarrow>
     let opcode = hdOpcode h; r = (conn, hdSeqNumber h); e = sengine s in
     if opcode = 1 then fetchClosure P B r body s
     else if opcode = 2 then queryClosure P B r body s
     else if opcode = 3 then shortTransactClosure P B r body s
     else if opcode = 4 then with_parsed r (parseTransaction P body) (\<lambda>_.
       let (trid, e) = transaction_begin e in
       Inr (postResponse r (SrFin ((fin CodeSuccess)\<lparr>finTransaction := Some trid\<rparr>)) (s\<lparr>sengine := e\<rparr>))) s
     else if opcode = 5 then with_parsed r (parseUpdate P body) (\<lambda>(trid, pms, pcs).
       res_bind (update_mutations (beStorage B) trid pms e) (\<lambda>(ids, e).
       res_bind (update_constraints trid pcs e) (\<lambda>e.
       Inr (postResponse r (SrFin ((fin CodeSuccess)\<lparr>finMutations := ids\<rparr>)) (s\<lparr>sengine := e\<rparr>))))) s
     else if opcode = 6 then applyClosure P r body s
     else if opcode = 256 then with_parsed r (parseCreate P body) (\<lambda>(driver, name).
       res_bind (createStorage (beStorages B) driver name e) (\<lambda>e. Inr (fin_done r (s\<lparr>sengine := e\<rparr>)))) s
     else if opcode = 257 then with_parsed r (parseCreate P body) (\<lambda>(driver, name).
       res_bind (createView (beViews B) driver name e) (\<lambda>e. Inr (fin_done r (s\<lparr>sengine := e\<rparr>)))) s
     else if opcode = 258 then with_parsed r (parseUnlink P body) (\<lambda>name.
       res_bind (unlinkStorage (getStorage name e) e) (\<lambda>e. Inr (fin_done r (s\<lparr>sengine := e\<rparr>)))) s
     else if opcode = 259 then with_parsed r (parseUnlink P body) (\<lambda>name.
       res_bind (unlinkView (getView name e) e) (\<lambda>e. Inr (fin_done r (s\<lparr>sengine := e\<rparr>)))) s
     else if opcode = 260 then with_parsed r (parseUpload P body) (\<lambda>(name, buffer).
       res_bind (uploadExtern name buffer s) (\<lambda>s. Inr (fin_done r s))) s
     else if opcode = 261 then with_parsed r (parseDownload P body) (\<lambda>name.
       res_bind (downloadExtern name s) (\<lambda>b. Inr (fin_done r (postResponse r (SrBlob b) s)))) s
     else if opcode = 262 then Inr (s\<lparr>shutdownCalled := True\<rparr>)
     else Inr (postResponse r (SrFin (fin CodeIllegalRequest)) s))"

section \<open>Steps\<close>

text \<open>A step of the engine; when it completes an item, the callback of the item runs.\<close>

definition engine_turn :: "('d, 'w) backend \<Rightarrow> ('d, 'w) server \<Rightarrow> ('d, 'w) server res" where
  "engine_turn B s =
     res_bind (engine_step (beStorage B) (beView B) (sengine s)) (\<lambda>(x, e).
     let s = s\<lparr>sengine := e\<rparr> in
     case x of
       None \<Rightarrow> Inr s
     | Some x \<Rightarrow> (case callbacks s of
         [] \<Rightarrow> Inl NullDeref
       | cb # cbs \<Rightarrow> run_callback cb x (s\<lparr>callbacks := cbs\<rparr>)))"

datatype server_event = Message nat packet | EngineTurn

definition server_step :: "protocol \<Rightarrow> ('d, 'w) backend \<Rightarrow> server_event \<Rightarrow> ('d, 'w) server \<Rightarrow> ('d, 'w) server res" where
  "server_step P B ev s = (case ev of Message conn p \<Rightarrow> processMessage P B conn p s | EngineTurn \<Rightarrow> engine_turn B s)"

fun server_steps :: "protocol \<Rightarrow> ('d, 'w) backend \<Rightarrow> server_event list \<Rightarrow> ('d, 'w) server \<Rightarrow> ('d, 'w) server res" where
  "server_steps P B [] s = Inr s"
| "server_steps P B (ev # evs) s = res_bind (server_step P B ev s) (server_steps P B evs)"

end
