(* ===== verification/Api_Server_Spec.thy ===== *)
theory Api_Server_Spec
  imports Api_Server "HOL-Library.Multiset"
begin

text \<open>
  Every request that reaches the server is answered exactly once: the items the engine has not
  completed, the one it works on first, correspond one by one to the callbacks the server has
  registered, whose kind fits the outcome the item will have.
\<close>

section \<open>Outstanding items of the engine\<close>

definition outstanding :: "('d, 'w) engine \<Rightarrow> queue_item list" where
  "outstanding e = (case pc e of AtConstraint item i \<Rightarrow> [item] | AtQueue \<Rightarrow> []) @ submitQueue e"

text \<open>The outcome an item can have, by its type.\<close>

fun outcome_fits :: "item_type \<Rightarrow> outcome \<Rightarrow> bool" where
  "outcome_fits ItemSubmit (SubmitOutcome err) \<longleftrightarrow> err \<noteq> SubmitNone"
| "outcome_fits ItemSubmitCommit (SubmitCommitOutcome err sid) \<longleftrightarrow> err \<noteq> SubmitNone"
| "outcome_fits ItemCommit (CommitOutcome sid) \<longleftrightarrow> True"
| "outcome_fits ItemRollback RollbackOutcome \<longleftrightarrow> True"
| "outcome_fits _ _ \<longleftrightarrow> False"

text \<open>A step that works on \<open>item\<close>, the rest of the queue being \<open>rest\<close>.\<close>

definition works_on :: "queue_item \<Rightarrow> queue_item list \<Rightarrow> outcome option \<Rightarrow> ('d, 'w) engine \<Rightarrow> bool" where
  "works_on item rest x e \<longleftrightarrow> submitQueue e = rest \<and>
     (case x of None \<Rightarrow> (\<exists>i. pc e = AtConstraint item i) | Some out \<Rightarrow> pc e = AtQueue \<and> outcome_fits (itemType item) out)"

lemma submitFailure_works: "submitFailure item err e = Inr (x, e') \<Longrightarrow> err \<noteq> SubmitNone \<Longrightarrow> works_on item (submitQueue e) x e'"
  by (cases "itemType item") (auto simp: submitFailure_def res_bind_Inr_conv works_on_def Let_def)

lemma commitComplete_works: "commitComplete D V item tr sid e = Inr (x, e') \<Longrightarrow> works_on item (submitQueue e) x e'"
  by (cases "itemType item") (auto simp: commitComplete_def res_bind_Inr_conv works_on_def Let_def)

lemma submitComplete_works: "submitComplete D V item tr sid e = Inr (x, e') \<Longrightarrow> works_on item (submitQueue e) x e'"
  by (cases "itemType item") (auto simp: submitComplete_def res_bind_Inr_conv works_on_def put_active_def Let_def
      dest: commitComplete_works)

lemma writeAhead_works: "writeAhead D V item tr sid e = Inr (x, e') \<Longrightarrow> works_on item (submitQueue e) x e'"
  by (cases "itemType item") (auto simp: writeAhead_def afterWriteAhead_def res_bind_Inr_conv
      dest!: submitComplete_works commitComplete_works)

lemma checkStateOnFetch_works: "checkStateOnFetch item i c r e = Inr (x, e') \<Longrightarrow> works_on item (submitQueue e) x e'"
  by (auto simp: checkStateOnFetch_def Let_def works_on_def dest: submitFailure_works split: if_splits)

lemma submitCheckConstraint_works:
  "submitCheckConstraint D V item i e = Inr (x, e') \<Longrightarrow> works_on item (submitQueue e) x e'"
  by (auto simp: submitCheckConstraint_def Let_def res_bind_Inr_conv
      dest!: writeAhead_works checkStateOnFetch_works split: option.splits if_splits)

lemma conflict_with_not_none: "conflict_with other tr \<noteq> Some SubmitNone"
  by (simp add: conflict_with_def)

lemma find_conflict_not_none: "find_conflict act tr is \<noteq> Inr (Some SubmitNone)"
  by (induction act tr "is" rule: find_conflict.induct) (auto simp: conflict_with_not_none split: option.splits)

lemma processSubmit_works: "processSubmit D V item e = Inr (x, e') \<Longrightarrow> works_on item (submitQueue e) x e'"
  by (auto simp: processSubmit_def res_bind_Inr_conv find_conflict_not_none
      dest!: submitCheckConstraint_works intro: submitFailure_works split: option.splits)

lemma processCommit_works: "processCommit D V item e = Inr (x, e') \<Longrightarrow> works_on item (submitQueue e) x e'"
  by (auto simp: processCommit_def res_bind_Inr_conv Let_def dest!: writeAhead_works)

lemma processRollback_works:
  "processRollback item e = Inr (x, e') \<Longrightarrow> itemType item = ItemRollback \<Longrightarrow> works_on item (submitQueue e) x e'"
  by (auto simp: processRollback_def res_bind_Inr_conv Let_def works_on_def split: option.splits if_splits)

lemma engine_step_works:
  assumes "engine_step D V e = Inr (x, e')"
  shows "case outstanding e of [] \<Rightarrow> x = None \<and> e' = e | item # rest \<Rightarrow> works_on item rest x e'"
proof (cases "pc e")
  case AtQueue
  show ?thesis
  proof (cases "submitQueue e")
    case Nil
    then show ?thesis using assms AtQueue by (auto simp: engine_step_def process_item_def outstanding_def)
  next
    case (Cons item rest)
    let ?e = "e\<lparr>submitQueue := rest\<rparr>"
    have "works_on item (submitQueue ?e) x e'" using assms AtQueue Cons
      by (cases "itemType item") (auto simp: engine_step_def process_item_def Let_def
          dest: processSubmit_works processCommit_works processRollback_works)
    then show ?thesis using AtQueue Cons by (simp add: outstanding_def)
  qed
next
  case (AtConstraint item i)
  then show ?thesis using assms submitCheckConstraint_works[of D V item i e x e']
    by (simp add: engine_step_def outstanding_def)
qed

lemma works_on_outstanding: "works_on item rest x e \<Longrightarrow> outstanding e = (if x = None then item # rest else rest)"
  by (auto simp: works_on_def outstanding_def split: option.splits)

section \<open>The server keeps the callbacks in step\<close>

fun cb_type :: "callback \<Rightarrow> item_type" where
  "cb_type (ShortTransactCb r ids) = ItemSubmitCommit"
| "cb_type (ApplySubmitCb r) = ItemSubmit"
| "cb_type (ApplyCommitCb r) = ItemCommit"
| "cb_type (ApplyRollbackCb r) = ItemRollback"

fun cb_request :: "callback \<Rightarrow> request" where
  "cb_request (ShortTransactCb r ids) = r"
| "cb_request (ApplySubmitCb r) = r"
| "cb_request (ApplyCommitCb r) = r"
| "cb_request (ApplyRollbackCb r) = r"

fun is_fin :: "response \<Rightarrow> bool" where
  "is_fin (SrFin f) = True"
| "is_fin _ = False"

definition fins :: "('d, 'w) server \<Rightarrow> request list" where
  "fins s = map fst (filter (\<lambda>(r, x). is_fin x) (posted s))"

definition owed :: "('d, 'w) server \<Rightarrow> item_type list" where
  "owed s = map itemType (outstanding (sengine s))"

definition in_step :: "('d, 'w) server \<Rightarrow> bool" where
  "in_step s \<longleftrightarrow> map cb_type (callbacks s) = owed s"

text \<open>A handler answers the request at once, or registers a callback for an item that it has queued.\<close>

definition accounted :: "request \<Rightarrow> ('d, 'w) server \<Rightarrow> ('d, 'w) server \<Rightarrow> bool" where
  "accounted r s s' \<longleftrightarrow> (callbacks s' = callbacks s \<and> owed s' = owed s \<and> fins s' = fins s @ [r])
     \<or> (\<exists>cb. callbacks s' = callbacks s @ [cb] \<and> owed s' = owed s @ [cb_type cb] \<and> fins s' = fins s \<and> cb_request cb = r)"

lemma post_simps [simp]:
  "callbacks (postResponse r x s) = callbacks s" "sengine (postResponse r x s) = sengine s"
  "owed (postResponse r x s) = owed s"
  "fins (postResponse r x s) = fins s @ (if is_fin x then [r] else [])"
  "in_step (postResponse r x s) \<longleftrightarrow> in_step s"
  by (auto simp: postResponse_def owed_def fins_def in_step_def)

lemma sengine_simps [simp]:
  "fins (s\<lparr>sengine := e\<rparr>) = fins s" "owed (s\<lparr>sengine := e\<rparr>) = map itemType (outstanding e)"
  "fins (s\<lparr>sengine := e, callbacks := c\<rparr>) = fins s" "owed (s\<lparr>sengine := e, callbacks := c\<rparr>) = map itemType (outstanding e)"
  "fins (s\<lparr>externFiles := x\<rparr>) = fins s" "owed (s\<lparr>externFiles := x\<rparr>) = owed s"
  "fins (s\<lparr>shutdownCalled := b\<rparr>) = fins s" "owed (s\<lparr>shutdownCalled := b\<rparr>) = owed s"
  by (simp_all add: fins_def owed_def)

lemma accounted_now: "accounted r s (postResponse r (SrFin f) s)"
  by (simp add: accounted_def)

text \<open>What the handlers do to the engine.\<close>

lemma outstanding_cong: "pc e' = pc e \<Longrightarrow> submitQueue e' = submitQueue e \<Longrightarrow> outstanding e' = outstanding e"
  by (simp add: outstanding_def)

lemma begin_outstanding: "transaction_begin e = (trid, e') \<Longrightarrow> outstanding e' = outstanding e"
  by (rule outstanding_cong) (auto simp: transaction_begin_def Let_def)

lemma updateMutation_outstanding: "updateMutation D trid m e = Inr e' \<Longrightarrow> outstanding e' = outstanding e"
  by (rule outstanding_cong) (auto simp: updateMutation_def put_active_def res_bind_Inr_conv Let_def split_def split: if_splits)

lemma updateConstraint_outstanding: "updateConstraint trid c e = Inr e' \<Longrightarrow> outstanding e' = outstanding e"
  by (rule outstanding_cong) (auto simp: updateConstraint_def put_active_def res_bind_Inr_conv)

lemma update_mutations_outstanding: "update_mutations D trid pms e = Inr (ids, e') \<Longrightarrow> outstanding e' = outstanding e"
  by (induction pms arbitrary: e ids) (auto simp: res_bind_Inr_conv split_def dest: updateMutation_outstanding)

lemma update_constraints_outstanding: "update_constraints trid pcs e = Inr e' \<Longrightarrow> outstanding e' = outstanding e"
  by (induction pcs arbitrary: e) (auto simp: res_bind_Inr_conv dest: updateConstraint_outstanding)

lemma queue_outstanding:
  "submit trid e = Inr e' \<Longrightarrow> map itemType (outstanding e') = map itemType (outstanding e) @ [ItemSubmit]"
  "submitCommit trid e = Inr e' \<Longrightarrow> map itemType (outstanding e') = map itemType (outstanding e) @ [ItemSubmitCommit]"
  "commit trid e = Inr e' \<Longrightarrow> map itemType (outstanding e') = map itemType (outstanding e) @ [ItemCommit]"
  "rollback trid e = Inr e' \<Longrightarrow> map itemType (outstanding e') = map itemType (outstanding e) @ [ItemRollback]"
  by (auto simp: submit_def submitCommit_def commit_def rollback_def enqueue_def put_active_def res_bind_Inr_conv
      outstanding_def split: closure.splits)

lemma setup_outstanding:
  "createStorage reg driver name e = Inr e' \<Longrightarrow> outstanding e' = outstanding e"
  "createView vreg driver name e = Inr e' \<Longrightarrow> outstanding e' = outstanding e"
  "unlinkStorage i e = Inr e' \<Longrightarrow> outstanding e' = outstanding e"
  "unlinkView i e = Inr e' \<Longrightarrow> outstanding e' = outstanding e"
  by (rule outstanding_cong; auto simp: createStorage_def createView_def setupStorage_def setupView_def
      unlinkStorage_def unlinkView_def split: if_splits option.splits sum.splits error.splits)+

lemma driver_outstanding:
  "engine_fetch B st doc sq e = Inr (x, e') \<Longrightarrow> outstanding e' = outstanding e"
  "engine_query B vw q e = Inr (rows, e') \<Longrightarrow> outstanding e' = outstanding e"
  by (rule outstanding_cong; auto simp: engine_fetch_def engine_query_def res_bind_Inr_conv split_def)+

text \<open>The handlers account for their request.\<close>

lemma with_parsed_accounted:
  "with_parsed r m f s = Inr s' \<Longrightarrow> (\<And>x. m = Some x \<Longrightarrow> f x = Inr s' \<Longrightarrow> accounted r s s') \<Longrightarrow> accounted r s s'"
  by (auto simp: with_parsed_def accounted_now split: option.splits)

lemma fetchClosure_accounted: "fetchClosure P B r body s = Inr s' \<Longrightarrow> accounted r s s'"
  unfolding fetchClosure_def Let_def
proof (erule with_parsed_accounted)
  fix m
  let ?f = "engine_fetch B (getStorage (cfStorage m) (sengine s)) (cfDocument m)
      (case cfSequence m of Some i \<Rightarrow> i | None \<Rightarrow> currentSequenceId (sengine s)) (sengine s)"
  assume "res_bind ?f (\<lambda>(x, e). case x of
       FetchData _ buffer \<Rightarrow> Inr (postResponse r (SrFin (fin CodeSuccess)) (postResponse r (SrBlob buffer) (s\<lparr>sengine := e\<rparr>)))
     | DocumentNotFound \<Rightarrow> Inl (LogicError ''Unexpected error during fetch'')) = Inr s'"
  then obtain x e where f: "?f = Inr (x, e)" and "(case x of
       FetchData _ buffer \<Rightarrow> Inr (postResponse r (SrFin (fin CodeSuccess)) (postResponse r (SrBlob buffer) (s\<lparr>sengine := e\<rparr>)))
     | DocumentNotFound \<Rightarrow> Inl (LogicError ''Unexpected error during fetch'')) = Inr s'"
    by (auto simp: res_bind_Inr_conv)
  then show "accounted r s s'" using driver_outstanding(1)[OF f]
    by (cases x) (auto simp: accounted_def owed_def[of s])
qed

lemma fold_rows [simp]:
  "callbacks (fold (\<lambda>b. postResponse r (SrRows b)) rows s) = callbacks s"
  "sengine (fold (\<lambda>b. postResponse r (SrRows b)) rows s) = sengine s"
  "fins (fold (\<lambda>b. postResponse r (SrRows b)) rows s) = fins s"
  "owed (fold (\<lambda>b. postResponse r (SrRows b)) rows s) = owed s"
  by (induction rows arbitrary: s) simp_all

lemma queryClosure_accounted: "queryClosure P B r body s = Inr s' \<Longrightarrow> accounted r s s'"
  unfolding queryClosure_def
  by (erule with_parsed_accounted)
    (auto simp: Let_def res_bind_Inr_conv accounted_def owed_def[of s] dest: driver_outstanding)

lemma shortTransactClosure_accounted: "shortTransactClosure P B r body s = Inr s' \<Longrightarrow> accounted r s s'"
  unfolding shortTransactClosure_def
  by (elim with_parsed_accounted)
    (auto simp: Let_def res_bind_Inr_conv accounted_def owed_def[of s]
      dest!: begin_outstanding update_mutations_outstanding update_constraints_outstanding queue_outstanding split: prod.splits)

lemma applyClosure_accounted: "applyClosure P r body s = Inr s' \<Longrightarrow> accounted r s s'"
  unfolding applyClosure_def
  by (erule with_parsed_accounted)
    (auto simp: res_bind_Inr_conv accounted_def owed_def[of s] dest!: queue_outstanding split: apply_type.split_asm)

lemma transaction_accounted:
  "with_parsed r m (\<lambda>_. case transaction_begin (sengine s) of (trid, e) \<Rightarrow>
     Inr (postResponse r (SrFin (f trid)) (s\<lparr>sengine := e\<rparr>))) s = Inr s' \<Longrightarrow> accounted r s s'"
  by (elim with_parsed_accounted) (auto simp: accounted_def owed_def[of s] dest: begin_outstanding split: prod.splits)

lemma update_accounted:
  "with_parsed r m (\<lambda>(trid, pms, pcs).
     res_bind (update_mutations D trid pms (sengine s)) (\<lambda>(ids, e).
     res_bind (update_constraints trid pcs e) (\<lambda>e.
     Inr (postResponse r (SrFin (f ids)) (s\<lparr>sengine := e\<rparr>))))) s = Inr s' \<Longrightarrow> accounted r s s'"
  by (elim with_parsed_accounted)
    (auto simp: accounted_def res_bind_Inr_conv owed_def[of s] dest!: update_mutations_outstanding update_constraints_outstanding)

lemma admin_accounted:
  "res_bind g (\<lambda>e. Inr (fin_done r (s\<lparr>sengine := e\<rparr>))) = Inr s' \<Longrightarrow> (\<And>e. g = Inr e \<Longrightarrow> outstanding e = outstanding (sengine s)) \<Longrightarrow>
   accounted r s s'"
  by (auto simp: fin_done_def accounted_def res_bind_Inr_conv owed_def[of s])

lemma upload_accounted:
  "with_parsed r m (\<lambda>(name, buffer). res_bind (uploadExtern name buffer s) (\<lambda>s. Inr (fin_done r s))) s = Inr s' \<Longrightarrow> accounted r s s'"
  by (elim with_parsed_accounted) (auto simp: fin_done_def accounted_def res_bind_Inr_conv uploadExtern_def)

lemma download_accounted:
  "with_parsed r m (\<lambda>name. res_bind (downloadExtern name s) (\<lambda>b. Inr (fin_done r (postResponse r (SrBlob b) s)))) s = Inr s' \<Longrightarrow>
   accounted r s s'"
  by (elim with_parsed_accounted) (auto simp: fin_done_def accounted_def res_bind_Inr_conv)

lemmas handlers_accounted = fetchClosure_accounted queryClosure_accounted shortTransactClosure_accounted
  applyClosure_accounted transaction_accounted update_accounted upload_accounted download_accounted

lemma create_accounted:
  "with_parsed r m (\<lambda>(driver, name). res_bind (createStorage reg driver name (sengine s)) (\<lambda>e. Inr (fin_done r (s\<lparr>sengine := e\<rparr>)))) s
     = Inr s' \<Longrightarrow> accounted r s s'"
  "with_parsed r m (\<lambda>(driver, name). res_bind (createView vreg driver name (sengine s)) (\<lambda>e. Inr (fin_done r (s\<lparr>sengine := e\<rparr>)))) s
     = Inr s' \<Longrightarrow> accounted r s s'"
  by (erule with_parsed_accounted; clarsimp; erule admin_accounted, erule setup_outstanding)+

lemma unlink_accounted:
  "with_parsed r m (\<lambda>name. res_bind (unlinkStorage (gs name) (sengine s)) (\<lambda>e. Inr (fin_done r (s\<lparr>sengine := e\<rparr>)))) s
     = Inr s' \<Longrightarrow> accounted r s s'"
  "with_parsed r m (\<lambda>name. res_bind (unlinkView (gs name) (sengine s)) (\<lambda>e. Inr (fin_done r (s\<lparr>sengine := e\<rparr>)))) s
     = Inr s' \<Longrightarrow> accounted r s s'"
  by (erule with_parsed_accounted, erule admin_accounted, erule setup_outstanding)+

lemma processMessage_accounted:
  assumes "processMessage P B conn (h, body) s = Inr s'" "hdOpcode h \<noteq> 262"
  shows "accounted (conn, hdSeqNumber h) s s'"
  using assms unfolding processMessage_def Let_def prod.case
  by (simp split: if_splits)
    (erule handlers_accounted create_accounted unlink_accounted | auto simp: accounted_def)+

section \<open>Runs\<close>

definition waiting :: "('d, 'w) server \<Rightarrow> request list" where
  "waiting s = map cb_request (callbacks s)"

text \<open>Every message but \<open>Shutdown\<close> is a request.\<close>

fun requests :: "server_event list \<Rightarrow> request list" where
  "requests [] = []"
| "requests (Message conn (h, body) # evs) = (if hdOpcode h = 262 then [] else [(conn, hdSeqNumber h)]) @ requests evs"
| "requests (EngineTurn # evs) = requests evs"

definition ledger :: "('d, 'w) server \<Rightarrow> request multiset" where
  "ledger s = mset (fins s) + mset (waiting s)"

lemma accounted_ledger: "accounted r s s' \<Longrightarrow> in_step s \<Longrightarrow> in_step s' \<and> ledger s' = ledger s + {#r#}"
  by (auto simp: accounted_def in_step_def ledger_def waiting_def)

lemma run_callback_ok:
  assumes "outcome_fits (cb_type cb) x"
  shows "run_callback cb x s = Inr s' \<Longrightarrow> \<exists>f. s' = postResponse (cb_request cb) (SrFin f) s"
    and "run_callback cb x s = Inl err \<Longrightarrow> err = LogicError ''Unexpected error during submit'' \<and> cb_type cb = ItemSubmitCommit
      \<and> (\<exists>sid. x = SubmitCommitOutcome ConstraintConflict sid \<or> x = SubmitCommitOutcome MutationConflict sid)"
  using assms by (cases cb; cases x;
      auto simp: run_callback_def onSubmitCommit_def onSubmit_def onCommit_reply_def onRollback_def split: submit_error.splits)+

lemma engine_turn_cases:
  assumes "in_step s" "engine_step (beStorage B) (beView B) (sengine s) = Inr (Some x, e')"
  obtains item rest cb cbs where "outstanding (sengine s) = item # rest" "callbacks s = cb # cbs" "cb_type cb = itemType item"
    "outcome_fits (itemType item) x" "map cb_type cbs = map itemType (outstanding e')"
    "engine_turn B s = run_callback cb x (s\<lparr>sengine := e', callbacks := cbs\<rparr>)"
proof -
  have w: "case outstanding (sengine s) of [] \<Rightarrow> Some x = None \<and> e' = sengine s | item # rest \<Rightarrow> works_on item rest (Some x) e'"
    using engine_step_works[OF assms(2)] .
  then obtain item rest where o: "outstanding (sengine s) = item # rest" and wo: "works_on item rest (Some x) e'"
    by (auto split: list.splits)
  obtain cb cbs where c: "callbacks s = cb # cbs" "cb_type cb = itemType item" "map cb_type cbs = map itemType rest"
    using assms(1) o by (auto simp: in_step_def owed_def)
  moreover have "outstanding e' = rest" "outcome_fits (itemType item) x" using works_on_outstanding[OF wo] wo by (auto simp: works_on_def)
  moreover have "engine_turn B s = run_callback cb x (s\<lparr>sengine := e', callbacks := cbs\<rparr>)"
    using assms(2) c(1) by (simp add: engine_turn_def Let_def)
  ultimately show ?thesis using that o by auto
qed

lemma engine_turn_ledger:
  assumes "in_step s" "engine_turn B s = Inr s'"
  shows "in_step s' \<and> ledger s' = ledger s"
proof -
  obtain x e' where st: "engine_step (beStorage B) (beView B) (sengine s) = Inr (x, e')"
    using assms(2) by (auto simp: engine_turn_def res_bind_Inr_conv)
  show ?thesis
  proof (cases x)
    case None
    then have "map itemType (outstanding e') = map itemType (outstanding (sengine s))"
      using engine_step_works[OF st] by (auto split: list.splits dest: works_on_outstanding)
    moreover have "s' = s\<lparr>sengine := e'\<rparr>" using assms(2) st None by (simp add: engine_turn_def)
    ultimately show ?thesis using assms(1) by (simp add: in_step_def ledger_def waiting_def owed_def[of s])
  next
    case (Some out)
    obtain item rest cb cbs where "outstanding (sengine s) = item # rest" and c: "callbacks s = cb # cbs" "cb_type cb = itemType item" "outcome_fits (itemType item) out"
      "map cb_type cbs = map itemType (outstanding e')" "engine_turn B s = run_callback cb out (s\<lparr>sengine := e', callbacks := cbs\<rparr>)"
      by (rule engine_turn_cases[OF assms(1) st[unfolded Some]])
    obtain f where "s' = postResponse (cb_request cb) (SrFin f) (s\<lparr>sengine := e', callbacks := cbs\<rparr>)"
      using run_callback_ok(1)[of cb out] c(2,3,5) assms(2) by metis
    then show ?thesis using c(1,4) by (simp add: in_step_def ledger_def waiting_def)
  qed
qed

lemma server_step_ledger:
  assumes "in_step s" "server_step P B ev s = Inr s'"
  shows "in_step s' \<and> ledger s' = ledger s + mset (requests [ev])"
proof (cases ev)
  case (Message conn p)
  obtain h body where p: "p = (h, body)" by (cases p)
  show ?thesis
  proof (cases "hdOpcode h = 262")
    case True
    then show ?thesis using assms Message p
      by (auto simp: server_step_def processMessage_def Let_def in_step_def ledger_def waiting_def)
  next
    case False
    then show ?thesis using assms Message p accounted_ledger[OF processMessage_accounted, of P B conn h body s s']
      by (simp add: server_step_def)
  qed
qed (use assms engine_turn_ledger in \<open>auto simp: server_step_def\<close>)

lemma server_steps_ledger:
  "in_step s \<Longrightarrow> server_steps P B evs s = Inr s' \<Longrightarrow> in_step s' \<and> ledger s' = ledger s + mset (requests evs)"
proof (induction evs arbitrary: s)
  case (Cons ev evs)
  then obtain s1 where s1: "server_step P B ev s = Inr s1" "server_steps P B evs s1 = Inr s'" by (auto simp: res_bind_Inr_conv)
  have "mset (requests (ev # evs)) = mset (requests [ev]) + mset (requests evs)"
    by (cases "ev # evs" rule: requests.cases) auto
  then show ?case using server_step_ledger[OF Cons.prems(1) s1(1)] Cons.IH[OF _ s1(2)] by auto
qed (simp)

lemma server_steps_append: "server_steps P B (xs @ ys) s = res_bind (server_steps P B xs s) (server_steps P B ys)"
  by (induction xs arbitrary: s) (auto simp: res_bind_assoc cong: res_bind_cong)

lemma server_new_ledger: "outstanding e = [] \<Longrightarrow> in_step (server_new e) \<and> ledger (server_new e) = {#}"
  by (simp add: in_step_def ledger_def waiting_def server_new_def owed_def fins_def)

section \<open>A server at work\<close>

text \<open>
  A protocol whose messages are fixed: a transaction that modifies document 1 of \<open>docs\<close> and is submitted,
  and a short transaction that requires document 1 to be unmodified; a storage that counts documents.
\<close>

definition demo_protocol :: protocol where
  "demo_protocol = \<lparr>parseFetch = (\<lambda>_. None), parseQuery = (\<lambda>_. None),
     parseShortTransact = (\<lambda>_. Some ([], [\<lparr>pcType = ConDocumentState, pcStorage = ''docs'', pcDocument = 1, pcSequence = 0,
       pcMustExist = True, pcMatch = True\<rparr>])),
     parseTransaction = (\<lambda>_. Some ()),
     parseUpdate = (\<lambda>_. Some (1, [\<lparr>pmType = MutModify, pmStorage = ''docs'', pmDocument = 1, pmBuffer = [7]\<rparr>], [])),
     parseApply = (\<lambda>_. Some (1, ApplySubmit)), parseCreate = (\<lambda>_. None), parseUnlink = (\<lambda>_. None),
     parseUpload = (\<lambda>_. None), parseDownload = (\<lambda>_. None)\<rparr>"

definition demo_backend :: "(int, unit) backend" where
  "demo_backend = \<lparr>beStorage = \<lparr>opAllocate = (\<lambda>n. (n + 1, n + 1)), opReinspect = (\<lambda>m n. n), opSequence = (\<lambda>sq ms n. Inr n),
       opFetch = (\<lambda>doc sq n. Inr (if 0 < doc \<and> doc \<le> n then FetchData sq [] else DocumentNotFound, n))\<rparr>,
     beView = \<lparr>vopReinspect = (\<lambda>m w. w), vopSequence = (\<lambda>sq ms w. Inr w)\<rparr>, beQuery = (\<lambda>q w. Inr ([], w)),
     beStorages = (\<lambda>_. None), beViews = (\<lambda>_. None)\<rparr>"

definition demo_engine :: "(int, unit) engine" where
  "demo_engine = engine_new\<lparr>storages := [None, Some \<lparr>drvName = ''docs'', dstate = 1\<rparr>]\<rparr>"

definition demo_message :: "nat \<Rightarrow> 32 word \<Rightarrow> 32 word \<Rightarrow> server_event" where
  "demo_message conn opcode sq = Message conn (\<lparr>hdOpcode = opcode, hdLength = 0, hdSeqNumber = sq\<rparr>, [])"

definition demo_events :: "server_event list" where
  "demo_events = [demo_message 0 4 1, demo_message 0 5 2, demo_message 0 6 3]"

definition demo_fins :: "(request \<times> response) list" where
  "demo_fins = [((0, 1), SrFin ((fin CodeSuccess)\<lparr>finTransaction := Some 1\<rparr>)),
     ((0, 2), SrFin ((fin CodeSuccess)\<lparr>finMutations := [1]\<rparr>))]"

definition demo_waiting :: "(int, unit) server" where
  "demo_waiting = \<lparr>sengine = demo_engine\<lparr>nextTransactId := 2, submitQueue := [\<lparr>itemType = ItemSubmit, itemTrid = 1\<rparr>],
       activeTransactions := [1 \<mapsto> \<lparr>mutations = [\<lparr>mutType = MutModify, mutStorage = 1, mutDocument = 1, mutBuffer = [7]\<rparr>],
         constraints = [], trState = StInSubmit\<rparr>]\<rparr>,
     callbacks = [ApplySubmitCb (0, 3)], posted = demo_fins, externFiles = Map.empty, shutdownCalled = False\<rparr>"

definition demo_served :: "(int, unit) server" where
  "demo_served = demo_waiting\<lparr>sengine := demo_engine\<lparr>nextTransactId := 2, currentSequenceId := 1, submittedTransactions := [1],
       wal := [\<lparr>leType = LogSubmit, leSequence = 0, leTransaction = 1,
         leMutations = [\<lparr>lmType = MutModify, lmStorage = ''docs'', lmDocument = 1, lmBuffer = [7]\<rparr>]\<rparr>],
       activeTransactions := [1 \<mapsto> \<lparr>mutations = [\<lparr>mutType = MutModify, mutStorage = 1, mutDocument = 1, mutBuffer = [7]\<rparr>],
         constraints = [], trState = StSubmitted\<rparr>]\<rparr>,
     callbacks := [], posted := demo_fins @ [((0, 3), SrFin (fin CodeSuccess))]\<rparr>"

lemmas demo_server_defs = demo_protocol_def demo_backend_def demo_engine_def demo_message_def demo_events_def demo_fins_def
  demo_waiting_def demo_served_def server_new_def engine_new_def

lemmas server_simps = server_step_def processMessage_def with_parsed_def transaction_begin_def postResponse_def
  updateMutation_def updateConstraint_def parseMutation_def parseConstraint_def getStorage_def find_active_def
  put_active_def updated_document_def applyClosure_def submit_def submitCommit_def enqueue_def shortTransactClosure_def

lemmas turn_simps = engine_turn_def engine_step_def process_item_def processSubmit_def find_active_def
  submitCheckConstraint_def writeAhead_def make_entry_def driver_at_def afterWriteAhead_def submitComplete_def put_active_def
  run_callback_def onSubmit_def onSubmitCommit_def postResponse_def submitFailure_def conflict_with_def compatible_def

lemma demo_waiting_run: "server_steps demo_protocol demo_backend demo_events (server_new demo_engine) = Inr demo_waiting"
  by (simp add: demo_server_defs server_simps Let_def)

lemma demo_turn: "engine_turn demo_backend demo_waiting = Inr demo_served"
  by (simp add: demo_server_defs turn_simps Let_def)

section \<open>Properties\<close>

text \<open>
  C33. Callbacks fit. When the engine completes an item, the server has a callback for it, of the kind of
  the item, and the outcome is one the callback accepts; the turn runs that callback and no other. The
  only way in which the callback can fail is the exception of a short transaction that conflicts with
  a submitted one.
\<close>

theorem callbacks_fit:
  assumes "outstanding e = []" "server_steps P B evs (server_new e) = Inr s"
    "engine_step (beStorage B) (beView B) (sengine s) = Inr (Some x, e')"
  shows "\<exists>item rest cb cbs. outstanding (sengine s) = item # rest \<and> callbacks s = cb # cbs
     \<and> cb_type cb = itemType item \<and> outcome_fits (itemType item) x
     \<and> engine_turn B s = run_callback cb x (s\<lparr>sengine := e', callbacks := cbs\<rparr>)
     \<and> (\<forall>err. engine_turn B s = Inl err \<longrightarrow> err = LogicError ''Unexpected error during submit'' \<and> itemType item = ItemSubmitCommit
         \<and> (\<exists>sid. x = SubmitCommitOutcome ConstraintConflict sid \<or> x = SubmitCommitOutcome MutationConflict sid))"
proof -
  have "in_step s" using server_steps_ledger[OF _ assms(2)] server_new_ledger[OF assms(1)] by blast
  then obtain item rest cb cbs where "outstanding (sengine s) = item # rest" "callbacks s = cb # cbs" "cb_type cb = itemType item"
    "outcome_fits (itemType item) x" "map cb_type cbs = map itemType (outstanding e')"
    "engine_turn B s = run_callback cb x (s\<lparr>sengine := e', callbacks := cbs\<rparr>)" by (rule engine_turn_cases[OF _ assms(3)])
  then show ?thesis using run_callback_ok(2)[of cb x] by auto
qed

theorem callbacks_fit_witness:
  "\<exists>cb cbs x. callbacks demo_waiting = cb # cbs \<and> cb_type cb = ItemSubmit \<and> outcome_fits ItemSubmit x"
proof -
  have "\<exists>x e'. engine_step (beStorage demo_backend) (beView demo_backend) (sengine demo_waiting) = Inr (Some x, e')"
    by (simp add: demo_server_defs turn_simps Let_def)
  then obtain x e' where "engine_step (beStorage demo_backend) (beView demo_backend) (sengine demo_waiting) = Inr (Some x, e')" by blast
  moreover have "outstanding demo_engine = []" by (simp add: outstanding_def demo_server_defs)
  moreover have "outstanding (sengine demo_waiting) = [\<lparr>itemType = ItemSubmit, itemTrid = 1\<rparr>]" by (simp add: outstanding_def demo_server_defs)
  ultimately show ?thesis using callbacks_fit[OF _ demo_waiting_run, of x e'] by auto
qed



text \<open>
  C35. A conflict ends the server. A transaction that modifies document 1 has been submitted; another
  client sends a short transaction that requires document 1 to be unmodified. Instead of an answer with
  the code for conflicts the callback throws, out of the thread of the engine.
\<close>

theorem short_transact_conflict_throws:
  "\<exists>s s'. server_steps demo_protocol demo_backend (demo_events @ [EngineTurn]) (server_new demo_engine) = Inr s
     \<and> server_step demo_protocol demo_backend (demo_message 1 3 9) s = Inr s' \<and> waiting s' = [(1, 9)]
     \<and> server_step demo_protocol demo_backend EngineTurn s' = Inl (LogicError ''Unexpected error during submit'')"
proof -
  have "server_steps demo_protocol demo_backend (demo_events @ [EngineTurn]) (server_new demo_engine) = Inr demo_served"
    using demo_waiting_run demo_turn by (simp add: server_steps_append server_step_def)
  moreover have "\<exists>s'. server_step demo_protocol demo_backend (demo_message 1 3 9) demo_served = Inr s' \<and> waiting s' = [(1, 9)]
     \<and> server_step demo_protocol demo_backend EngineTurn s' = Inl (LogicError ''Unexpected error during submit'')"
    by (simp add: demo_server_defs server_simps turn_simps waiting_def Let_def)
  ultimately show ?thesis by blast
qed

section \<open>Smaller facts\<close>

text \<open>What was uploaded is what a later download returns.\<close>

lemma upload_download: "uploadExtern name b s = Inr s' \<Longrightarrow> downloadExtern name s' = Inr b"
  by (auto simp: uploadExtern_def downloadExtern_def openSync_def pwriteSync_def preadSync_def lengthSync_def
      write_at_def read_at_def res_bind_Inr_conv split: if_splits option.splits)

text \<open>The upper end of a range replaces the lower one.\<close>

lemma query_of_to_key: "cqToKey m = Some k \<Longrightarrow> fromKey (query_of m e) = k \<and> useFromKey (query_of m e) \<and> \<not> useToKey (query_of m e)"
  by (auto simp: query_of_def Let_def query_request_new_def split: option.splits)

text \<open>A fetch from a storage that does not exist leaves the vector of drivers.\<close>

lemma find_driver_unknown: "name \<notin> set (driver_names ds) \<Longrightarrow> find_driver i ds name = -1"
  by (induction i ds name rule: find_driver.induct) (auto simp: driver_names_def map_filter_simps)

lemma fetch_unknown_storage:
  assumes "parseFetch P body = Some m" "cfStorage m \<notin> set (driver_names (drop 1 (storages (sengine s))))"
  shows "fetchClosure P B r body s = Inl OutOfRange"
  using assms(1) find_driver_unknown[OF assms(2)]
  by (simp add: fetchClosure_def with_parsed_def engine_fetch_def driver_at_def getStorage_def Let_def)

end
