(* ===== verification/Api_Service.thy ===== *)
theory Api_Service
  imports Api_Reader Api_Server_Spec
begin







definition asked :: "nat \<Rightarrow> packet list \<Rightarrow> request list" where
  "asked i ps = map (\<lambda>(h, b). (i, hdSeqNumber h)) (filter (\<lambda>(h, b). hdOpcode h \<noteq> 262) ps)"

definition of_client :: "nat \<Rightarrow> request list \<Rightarrow> request list" where
  "of_client i = filter (\<lambda>r. fst r = i)"

section \<open>A run of the service is a run of the server\<close>


lemma requests_append [simp]: "requests (xs @ ys) = requests xs @ requests ys"
  by (induction xs rule: requests.induct) simp_all



lemma of_client_append [simp]: "of_client i (xs @ ys) = of_client i xs @ of_client i ys"
  by (simp add: of_client_def)

lemma asked_append [simp]: "asked i (ps @ qs) = asked i ps @ asked i qs"
  by (simp add: asked_def)






section \<open>A service at work\<close>








end
