(* ===== verification/Api_Responder.thy ===== *)
theory Api_Responder
  imports Api_Reader
begin

text \<open>
  The way of the responses: \<open>postResponse\<close> (\<open>shard/src/api/server.cpp\<close>) through the TLS channel and the
  sender to the socket, while the client's own bytes arrive. The TLS library is a parameter, for both
  directions: \<open>received_data\<close> and \<open>send\<close> of the library change one state.
\<close>

section \<open>Sending through the channel\<close>




definition set_takes :: "nat list \<Rightarrow> sender \<Rightarrow> sender" where
  "set_takes ts w = w\<lparr>sock := (sock w)\<lparr>takes := ts\<rparr>\<rparr>"




section \<open>What the code relies on\<close>

datatype tls_call = Received "byte list" | Sent "byte list"


fun sent_plain :: "tls_call list \<Rightarrow> byte list" where
  "sent_plain [] = []"
| "sent_plain (Received bs # xs) = sent_plain xs"
| "sent_plain (Sent bs # xs) = bs @ sent_plain xs"

fun raws :: "tls_event list \<Rightarrow> byte list list" where
  "raws [] = []"
| "raws (WriteRaw bs # evs) = bs # raws evs"
| "raws (_ # evs) = raws evs"


section \<open>The sender gets what the library writes\<close>

lemma raws_append [simp]: "raws (evs @ evs') = raws evs @ raws evs'"
  by (induction evs rule: raws.induct) simp_all

lemma sent_plain_append [simp]: "sent_plain (xs @ ys) = sent_plain xs @ sent_plain ys"
  by (induction xs rule: sent_plain.induct) simp_all




lemma set_takes_ok [simp]: "sender_ok (set_takes ts w) = sender_ok w" "sent (sock (set_takes ts w)) = sent (sock w)"
  "unsent (set_takes ts w) = unsent w"
  by (simp_all add: set_takes_def sender_ok_def unsent_def)

section \<open>A connection in use\<close>




lemma wire_Cons: "wire (p # ps) = (case p of (a, sq, body) \<Rightarrow> packet_bytes a sq body) @ wire ps"
  by (simp add: wire_def)










end
